(* ===== verification/Prelude.thy ===== *)
theory Prelude
  imports Main "HOL-Library.Word"
begin

unbundle bit_operations_syntax

section \<open>Prelude: machine types, results and word facts\<close>

text \<open>
  What every component of the kernel model shares: the C integer types of
  \<^verbatim>\<open>include/stddef.h\<close>, the result type of kernel code (a value, a call of
  \<^verbatim>\<open>PANIC\<close>, a loop that never ends, or undefined behaviour), C's wrap-around on \<^verbatim>\<open>int\<close>, and
  the facts on words (alignment, address ranges with wrap-around) that carry the
  proofs about memory.

  Conventions: an unsigned C integer is a word of its width; a signed \<^verbatim>\<open>int\<close> is
  an \<open>int\<close> whose arithmetic is followed by \<open>wrap32\<close> wherever it can leave the
  range; a pointer is a 32-bit word and \<^verbatim>\<open>NULL\<close> is 0; a \<^verbatim>\<open>char\<close> of
  a literal in the source is a \<open>char\<close>, a byte of memory is an \<open>8 word\<close>.
\<close>

type_synonym u8 = "8 word"
type_synonym u16 = "16 word"
type_synonym u32 = "32 word"
type_synonym u64 = "64 word"

named_theorems range_simps "address ranges with wrap-around"

subsection \<open>Results of kernel code\<close>

text \<open>
  \<^verbatim>\<open>PANIC(msg)\<close> prints and stops the machine for good (\<^verbatim>\<open>include/Tuix/panic.h\<close>);
  \<open>Hang\<close> is a loop without exit, such as a spin lock nobody will release or the
  \<^verbatim>\<open>while(1)\<close> of a fatal exception handler; \<open>Undef\<close> is a step the C language gives
  no meaning to, such as reading an argument that was not passed or an array out of bounds. None of them
  gives control back in a way the model can follow, so none carries a state.
\<close>

datatype halt = Panic string | Hang | Undef string

type_synonym 'a res = "halt + 'a"

definition bindR :: "'a res \<Rightarrow> ('a \<Rightarrow> 'b res) \<Rightarrow> 'b res" where
  "bindR r f = (case r of Inl h \<Rightarrow> Inl h | Inr x \<Rightarrow> f x)"

abbreviation panic :: "string \<Rightarrow> 'a res" where
  "panic msg \<equiv> Inl (Panic msg)"

text \<open>A loop that does not end is \<open>None\<close> of a partial function; its caller hangs.\<close>

definition from_loop :: "'a option \<Rightarrow> 'a res" where
  "from_loop x = (case x of None \<Rightarrow> Inl Hang | Some v \<Rightarrow> Inr v)"

text \<open>A loop whose body may itself panic.\<close>

definition run_loop :: "'a res option \<Rightarrow> 'a res" where
  "run_loop x = (case x of None \<Rightarrow> Inl Hang | Some r \<Rightarrow> r)"

lemma run_loop_simps [simp]:
  "run_loop None = Inl Hang"
  "run_loop (Some r) = r"
  by (simp_all add: run_loop_def)

lemma bindR_simps [simp]:
  "bindR (Inl h) f = Inl h"
  "bindR (Inr x) f = f x"
  by (simp_all add: bindR_def)

lemma bindR_Inr_iff: "bindR r f = Inr y \<longleftrightarrow> (\<exists>x. r = Inr x \<and> f x = Inr y)"
  by (cases r) simp_all

lemma bindR_Inl_iff: "bindR r f = Inl h \<longleftrightarrow> r = Inl h \<or> (\<exists>x. r = Inr x \<and> f x = Inl h)"
  by (cases r) simp_all

lemma bindR_cong [fundef_cong]:
  "r = r' \<Longrightarrow> (\<And>x. r' = Inr x \<Longrightarrow> f x = g x) \<Longrightarrow> bindR r f = bindR r' g"
  by (cases r') simp_all

lemma from_loop_simps [simp]:
  "from_loop None = Inl Hang"
  "from_loop (Some v) = Inr v"
  by (simp_all add: from_loop_def)

subsection \<open>Signed C integers\<close>

definition wrap32 :: "int \<Rightarrow> int" where
  "wrap32 x = (x + 2147483648) mod 4294967296 - 2147483648"

lemma wrap32_id [simp]: "- 2147483648 \<le> x \<Longrightarrow> x < 2147483648 \<Longrightarrow> wrap32 x = x"
  by (simp add: wrap32_def)

lemma wrap32_range: "- 2147483648 \<le> wrap32 x \<and> wrap32 x < 2147483648"
  by (simp add: wrap32_def)

subsection \<open>Word facts\<close>

lemma word_less_nat: "(a::'a::len word) < b \<longleftrightarrow> unat a < unat b"
  by (simp add: word_less_nat_alt)

lemma unat_of_nat_u32: "n < 4294967296 \<Longrightarrow> unat (of_nat n :: u32) = n"
  by (simp add: unat_of_nat take_bit_eq_mod)

lemma unat_lt_u32: "unat (a :: u32) < 4294967296"
  using unsigned_less [of a] by simp

lemma of_nat_inj_u32:
  "i < 4294967296 \<Longrightarrow> j < 4294967296 \<Longrightarrow> (of_nat i :: u32) = of_nat j \<longleftrightarrow> i = j"
  by (metis unat_of_nat_u32)

lemma of_nat_u32_wrap: "(of_nat (n + 4294967296) :: u32) = of_nat n"
proof -
  have "(of_nat 4294967296 :: u32) = 0" by simp
  then show ?thesis by (simp only: of_nat_add add_0_right)
qed

text \<open>
  The bytes of the block of \<open>n\<close> bytes that starts at \<open>p\<close>: the offset of the
  address from \<open>p\<close>, taken modulo the size of the address space, is below \<open>n\<close>.
\<close>

definition in_block :: "u32 \<Rightarrow> nat \<Rightarrow> u32 \<Rightarrow> bool" where
  "in_block p n a \<longleftrightarrow> unat (a - p) < n"

lemma in_block_0 [simp]: "\<not> in_block p 0 a"
  by (simp add: in_block_def)

lemma in_block_Suc:
  assumes "n < 4294967296"
  shows "in_block p (Suc n) a \<longleftrightarrow> a = p \<or> in_block (p + 1) n a"
proof -
  have *: "unat (a - p) = (if a = p then 0 else Suc (unat (a - (p + 1))))"
  proof (cases "a = p")
    case False
    then have "unat (a - p) \<noteq> 0" by (simp add: unat_eq_zero)
    then have "unat (a - p - 1) = unat (a - p) - 1"
      by (metis unat_eq_zero unat_minus_one)
    moreover have "a - p - 1 = a - (p + 1)" by simp
    ultimately show ?thesis using False \<open>unat (a - p) \<noteq> 0\<close> by simp
  qed simp
  show ?thesis
  proof (cases "a = p")
    case False
    then show ?thesis using * by (simp add: in_block_def)
  qed (simp add: in_block_def)
qed

lemma in_block_iff:
  assumes "n \<le> 4294967296"
  shows "in_block p n a \<longleftrightarrow> (\<exists>i<n. a = p + of_nat i)"
proof
  assume "in_block p n a"
  then show "\<exists>i<n. a = p + of_nat i"
    by (intro exI [of _ "unat (a - p)"]) (simp add: in_block_def)
next
  assume "\<exists>i<n. a = p + of_nat i"
  then obtain i where "i < n" "a = p + of_nat i" by blast
  then show "in_block p n a" using assms by (simp add: in_block_def unat_of_nat_u32)
qed

lemma in_blockI: "i < n \<Longrightarrow> n \<le> 4294967296 \<Longrightarrow> in_block p n (p + of_nat i)"
  by (auto simp: in_block_iff)

lemma in_block_mono: "in_block p n a \<Longrightarrow> n \<le> k \<Longrightarrow> in_block p k a"
  by (simp add: in_block_def)

lemma in_block_low:
  assumes "n < 4294967296"
  shows "in_block p (Suc n) a \<longleftrightarrow> in_block p n a \<or> a = p + of_nat n"
  using assms by (simp add: in_block_iff less_Suc_eq) blast

lemma in_block_append:
  assumes "n + k \<le> 4294967296"
  shows "in_block p (n + k) a \<longleftrightarrow> in_block p n a \<or> in_block (p + of_nat n) k a"
proof -
  have "(\<exists>i<n + k. a = p + of_nat i) \<longleftrightarrow>
     (\<exists>i<n. a = p + of_nat i) \<or> (\<exists>j<k. a = p + of_nat n + of_nat j)"
  proof (intro iffI; elim exE conjE disjE)
    fix i assume i: "i < n + k" "a = p + of_nat i"
    show "(\<exists>i<n. a = p + of_nat i) \<or> (\<exists>j<k. a = p + of_nat n + of_nat j)"
    proof (cases "i < n")
      case False
      then have "i - n < k \<and> a = p + of_nat n + of_nat (i - n)" using i by simp
      then show ?thesis by blast
    qed (use i in blast)
  next
    fix j assume "j < k" "a = p + of_nat n + of_nat j"
    then have "n + j < n + k \<and> a = p + of_nat (n + j)" by (simp add: add.assoc)
    then show "\<exists>i<n + k. a = p + of_nat i" by blast
  qed (use trans_less_add1 in blast)
  then show ?thesis using assms by (simp add: in_block_iff)
qed

lemma in_block_append_disjoint:
  assumes "n + k \<le> 4294967296" "in_block (p + of_nat n) k a"
  shows "\<not> in_block p n a"
proof
  assume "in_block p n a"
  then obtain i j where "i < n" "j < k" "p + of_nat i = p + of_nat n + of_nat j"
    using assms by (auto simp: in_block_iff)
  then have "(of_nat i :: u32) = of_nat (n + j)" "i < n" "j < k" by (simp_all add: add.assoc)
  then show False using assms(1) by (subst (asm) of_nat_inj_u32) auto
qed

lemma offset_eq_iff:
  "i < 4294967296 \<Longrightarrow> j < 4294967296 \<Longrightarrow> p + (of_nat i :: u32) = p + of_nat j \<longleftrightarrow> i = j"
  by (simp add: of_nat_inj_u32)

definition disjoint_blocks :: "u32 \<Rightarrow> nat \<Rightarrow> u32 \<Rightarrow> nat \<Rightarrow> bool" where
  "disjoint_blocks p n q k \<longleftrightarrow> n \<le> unat (q - p) \<and> k \<le> unat (p - q)"

lemma unat_diff_of_nat:
  assumes "j \<le> i" "i < 4294967296"
  shows "unat ((of_nat i :: u32) - of_nat j) = i - j"
proof -
  have "(of_nat i :: u32) - of_nat j = of_nat (i - j)" using assms by simp
  then show ?thesis using assms by (simp only: unat_of_nat_u32)
qed

lemma disjoint_blocksD:
  assumes "disjoint_blocks p n q k" "in_block p n a" "n \<le> 4294967296" "k \<le> 4294967296"
  shows "\<not> in_block q k a"
proof
  assume "in_block q k a"
  with assms obtain i j where ij: "i < n" "j < k" "a = p + of_nat i" "a = q + of_nat j"
    by (auto simp: in_block_iff)
  then have "q = p + of_nat i - of_nat j" by (simp add: eq_diff_eq)
  then have d: "q - p = of_nat i - of_nat j" "p - q = of_nat j - of_nat i" by simp_all
  show False
  proof (cases "j \<le> i")
    case True
    then have "unat (q - p) = i - j" using ij assms d by (simp add: unat_diff_of_nat)
    moreover have "n \<le> unat (q - p)" using assms(1) by (simp add: disjoint_blocks_def)
    ultimately show False using ij(1) by linarith
  next
    case False
    then have "unat (p - q) = j - i" using ij assms d by (simp add: unat_diff_of_nat)
    moreover have "k \<le> unat (p - q)" using assms(1) by (simp add: disjoint_blocks_def)
    ultimately show False using ij(2) by linarith
  qed
qed

lemma disjoint_blocks_sym: "disjoint_blocks p n q k \<longleftrightarrow> disjoint_blocks q k p n"
  by (auto simp: disjoint_blocks_def)

end
