(* ===== verification/Memory.thy ===== *)
theory Memory
  imports Prelude
begin

section \<open>Flat byte memory\<close>

text \<open>
  The kernel runs in a flat 32-bit address space (\<^verbatim>\<open>kernel/sys/gdt.c\<close> sets every
  segment to base 0). Memory is a total function from addresses to bytes: every pointer of the C
  code is an address, and pointer arithmetic wraps at \<open>2 ^ 32\<close> as on the machine.
  Words of 32 bits are stored little-endian, as x86 does. The lemmas say how reads see writes:
  the interface \<open>word_store\<close> states these laws for 4-aligned addresses, and the byte
  memory is its instance.
\<close>

type_synonym mem = "u32 \<Rightarrow> u8"

definition load32 :: "mem \<Rightarrow> u32 \<Rightarrow> u32" where
  "load32 m a = ucast (m a) OR push_bit 8 (ucast (m (a + 1)))
     OR push_bit 16 (ucast (m (a + 2))) OR push_bit 24 (ucast (m (a + 3)))"

definition store32 :: "mem \<Rightarrow> u32 \<Rightarrow> u32 \<Rightarrow> mem" where
  "store32 m a v = m(a := ucast v, a + 1 := ucast (drop_bit 8 v),
     a + 2 := ucast (drop_bit 16 v), a + 3 := ucast (drop_bit 24 v))"

text \<open>Alignment: the address is a multiple of \<open>2 ^ n\<close>, that is its low \<open>n\<close> bits are zero.\<close>

definition aligned :: "nat \<Rightarrow> u32 \<Rightarrow> bool" where
  "aligned n a \<longleftrightarrow> unat a mod 2 ^ n = 0"

lemma aligned_iff_dvd: "aligned n a \<longleftrightarrow> 2 ^ n dvd uint a"
proof -
  have "int (unat a) = uint a" by simp
  then have "int (2 ^ n) dvd int (unat a) \<longleftrightarrow> 2 ^ n dvd uint a" by simp
  then show ?thesis by (simp only: aligned_def int_dvd_int_iff mod_eq_0_iff_dvd)
qed

lemma aligned_0 [simp]: "aligned n 0"
  by (simp add: aligned_def)

lemma aligned_mono: "aligned n a \<Longrightarrow> k \<le> n \<Longrightarrow> aligned k a"
  unfolding aligned_iff_dvd by (meson dvd_trans le_imp_power_dvd)

lemma pow_dvd_u32: "n \<le> 32 \<Longrightarrow> (2::int) ^ n dvd 4294967296"
  using le_imp_power_dvd [of n 32 "2::int"] by simp

lemma aligned_add: "aligned n a \<Longrightarrow> aligned n b \<Longrightarrow> n \<le> 32 \<Longrightarrow> aligned n (a + b)"
  unfolding aligned_iff_dvd
  by (auto simp: uint_word_ariths intro!: dvd_mod pow_dvd_u32)

lemma aligned_minus: "aligned n a \<Longrightarrow> aligned n b \<Longrightarrow> n \<le> 32 \<Longrightarrow> aligned n (a - b)"
  unfolding aligned_iff_dvd
  by (auto simp: uint_word_ariths intro!: dvd_mod pow_dvd_u32)

subsection \<open>Reading what was written\<close>

lemma load32_store32_same [simp]: "load32 (store32 m a v) a = v"
proof (rule bit_word_eqI)
  fix n assume n: "n < LENGTH(32)"
  then consider "n < 8" | "8 \<le> n" "n < 16" | "16 \<le> n" "n < 24" | "24 \<le> n" "n < 32"
    by force
  then show "bit (load32 (store32 m a v) a) n = bit v n"
    unfolding load32_def store32_def by cases (auto simp: bit_simps)
qed

text \<open>Two different aligned cells do not overlap.\<close>

lemma aligned_offset_mod:
  fixes a i :: u32
  assumes "aligned 2 a" "i < 4"
  shows "unat (a + i) mod 4 = unat i"
proof -
  have i: "unat i < 4" using assms(2) by (simp add: word_less_nat_alt)
  have "unat (a + i) mod 4 = (unat a + unat i) mod 4"
    by (simp add: unat_word_ariths mod_mod_cancel)
  also have "\<dots> = unat i"
    using assms(1) i by (auto simp: aligned_def mod_eq_0_iff_dvd dvd_def)
  finally show ?thesis .
qed

lemma aligned_offset_eq:
  fixes a b i j :: u32
  assumes "aligned 2 a" "aligned 2 b" "i < 4" "j < 4"
  shows "a + i = b + j \<longleftrightarrow> a = b \<and> i = j"
  by (metis assms add_right_cancel aligned_offset_mod word_unat_eq_iff)

lemma store32_other_cell:
  assumes "aligned 2 a" "aligned 2 b" "a \<noteq> b" "j < 4"
  shows "store32 m a v (b + j) = m (b + j)"
  using assms aligned_offset_eq [OF assms(2,1,4), of 0] aligned_offset_eq [OF assms(2,1,4), of 1]
    aligned_offset_eq [OF assms(2,1,4), of 2] aligned_offset_eq [OF assms(2,1,4), of 3]
  by (simp add: store32_def)

lemma load32_store32_other [simp]:
  assumes "aligned 2 a" "aligned 2 b" "a \<noteq> b"
  shows "load32 (store32 m a v) b = load32 m b"
  using store32_other_cell [OF assms, of 0 m v] store32_other_cell [OF assms, of 1 m v]
    store32_other_cell [OF assms, of 2 m v] store32_other_cell [OF assms, of 3 m v]
  by (simp add: load32_def)

lemma store32_frame: "\<not> in_block a 4 b \<Longrightarrow> store32 m a v b = m b"
  using in_blockI [of 0 4 a] in_blockI [of 1 4 a] in_blockI [of 2 4 a] in_blockI [of 3 4 a]
  by (auto simp: store32_def)

lemma load32_cong:
  assumes "\<And>b. in_block a 4 b \<Longrightarrow> m' b = m b"
  shows "load32 m' a = load32 m a"
  using assms [of a] assms [of "a + 1"] assms [of "a + 2"] assms [of "a + 3"]
    in_blockI [of 0 4 a] in_blockI [of 1 4 a] in_blockI [of 2 4 a] in_blockI [of 3 4 a]
  by (simp add: load32_def)

subsection \<open>The interface of a store of words\<close>

text \<open>
  What the page allocator and the page tables rely on: at addresses the store accepts, a read sees
  the last write to its own cell and no other. The locale derives what a run of writes leaves behind.
\<close>

locale word_store =
  fixes rd :: "'m \<Rightarrow> u32 \<Rightarrow> u32" and wr :: "'m \<Rightarrow> u32 \<Rightarrow> u32 \<Rightarrow> 'm" and ok :: "u32 \<Rightarrow> bool"
  assumes rd_wr_same: "rd (wr m a v) a = v"
    and rd_wr_other: "ok a \<Longrightarrow> ok b \<Longrightarrow> a \<noteq> b \<Longrightarrow> rd (wr m a v) b = rd m b"
begin

lemma rd_wr: "ok a \<Longrightarrow> ok b \<Longrightarrow> rd (wr m a v) b = (if b = a then v else rd m b)"
  by (simp add: rd_wr_same rd_wr_other)

lemma rd_fill:
  "\<forall>a \<in> set as. ok a \<Longrightarrow> ok b \<Longrightarrow>
    rd (fold (\<lambda>a m. wr m a v) as m) b = (if b \<in> set as then v else rd m b)"
  by (induction as arbitrary: m) (auto simp: rd_wr)

lemma rd_wr_commute:
  "ok a \<Longrightarrow> ok b \<Longrightarrow> ok c \<Longrightarrow> a \<noteq> b \<Longrightarrow> rd (wr (wr m a v) b w) c = rd (wr (wr m b w) a v) c"
  by (simp add: rd_wr)

end

interpretation ram: word_store load32 store32 "aligned 2"
  by unfold_locales simp_all

subsection \<open>Pages\<close>

lemma aligned_diff_ge:
  assumes "aligned n p" "aligned n q" "p \<noteq> q" "n \<le> 32"
  shows "2 ^ n \<le> unat (q - p)"
proof -
  have "2 ^ n dvd unat (q - p)"
    using aligned_minus [OF assms(2,1,4)] by (simp add: aligned_def mod_eq_0_iff_dvd)
  moreover have "unat (q - p) \<noteq> 0" using assms(3) by (simp add: unat_eq_zero)
  ultimately show ?thesis by (simp add: dvd_imp_le)
qed

text \<open>Two different page-aligned pages have no byte in common.\<close>

lemma pages_disjoint:
  assumes "aligned 12 p" "aligned 12 q" "p \<noteq> q" "in_block p 4096 a"
  shows "\<not> in_block q 4096 a"
proof -
  have "disjoint_blocks p 4096 q 4096"
    using aligned_diff_ge [OF assms(1-3)] aligned_diff_ge [OF assms(2,1)] assms(3)
    by (simp add: disjoint_blocks_def)
  then show ?thesis using disjoint_blocksD assms(4) by simp
qed

lemma in_block_inside:
  assumes "in_block (p + of_nat k) j a" "k + j \<le> n" "n \<le> 4294967296"
  shows "in_block p n a"
  using assms in_block_append [of k j p a] in_block_mono [of p "k + j" a n] by simp

lemma in_block_bounds:
  assumes "in_block p n a" "unat p + n \<le> 4294967296"
  shows "unat p \<le> unat a" "unat a < unat p + n"
proof -
  obtain i where i: "i < n" "a = p + of_nat i" using assms in_block_iff [of n p a] by auto
  then have "unat a = unat p + i" using assms(2) by (simp add: unat_word_ariths unat_of_nat)
  then show "unat p \<le> unat a" "unat a < unat p + n" using i(1) by simp_all
qed

subsection \<open>Blocks of bytes\<close>

primrec read_bytes :: "mem \<Rightarrow> u32 \<Rightarrow> nat \<Rightarrow> u8 list" where
  "read_bytes m p 0 = []"
| "read_bytes m p (Suc n) = m p # read_bytes m (p + 1) n"

lemma length_read_bytes [simp]: "length (read_bytes m p n) = n"
  by (induction n arbitrary: p) auto

lemma read_bytes_numeral [simp]:
  "read_bytes m p (numeral k) = m p # read_bytes m (p + 1) (pred_numeral k)"
  by (simp add: numeral_eq_Suc)

lemma read_bytes_nth: "i < n \<Longrightarrow> read_bytes m p n ! i = m (p + of_nat i)"
proof (induction n arbitrary: p i)
  case (Suc n)
  then show ?case by (cases i) (simp_all add: add.assoc)
qed simp

lemma read_bytes_cong:
  "(\<And>i. i < n \<Longrightarrow> m (p + of_nat i) = m' (q + of_nat i)) \<Longrightarrow> read_bytes m p n = read_bytes m' q n"
  by (rule nth_equalityI) (simp_all add: read_bytes_nth)

lemma read_bytes_eq_iff:
  "read_bytes m p n = read_bytes m' q n \<longleftrightarrow> (\<forall>i<n. m (p + of_nat i) = m' (q + of_nat i))"
  by (auto simp: list_eq_iff_nth_eq read_bytes_nth)

lemma read_bytes_add: "read_bytes m p (n + k) = read_bytes m p n @ read_bytes m (p + of_nat n) k"
  by (induction n arbitrary: p) (simp_all add: algebra_simps)

lemma read_bytes_frame:
  "n \<le> 4294967296 \<Longrightarrow> (\<And>a. in_block p n a \<Longrightarrow> m' a = m a) \<Longrightarrow> read_bytes m' p n = read_bytes m p n"
  by (rule read_bytes_cong) (simp add: in_blockI)

lemma read_copied_block:
  assumes "n \<le> 4294967296"
  shows "read_bytes (\<lambda>a. if in_block d n a then m (s + (a - d)) else m a) d n = read_bytes m s n"
  by (rule read_bytes_cong) (use assms in \<open>simp add: in_blockI\<close>)

primrec write_bytes :: "mem \<Rightarrow> u32 \<Rightarrow> u8 list \<Rightarrow> mem" where
  "write_bytes m p [] = m"
| "write_bytes m p (b # bs) = write_bytes (m(p := b)) (p + 1) bs"

lemma write_bytes_at:
  assumes "length bs < 4294967296"
  shows "write_bytes m p bs a = (if in_block p (length bs) a then bs ! unat (a - p) else m a)"
  using assms
proof (induction bs arbitrary: m p)
  case (Cons b bs)
  have IH: "write_bytes (m(p := b)) (p + 1) bs a =
      (if in_block (p + 1) (length bs) a then bs ! unat (a - (p + 1)) else (m(p := b)) a)"
    by (rule Cons.IH) (use Cons.prems in simp)
  have blk: "in_block p (Suc (length bs)) a \<longleftrightarrow> a = p \<or> in_block (p + 1) (length bs) a"
    using Cons.prems by (simp add: in_block_Suc)
  show ?case
  proof (cases "a = p")
    case True
    moreover have "unat (- 1 :: u32) = 4294967295" by (simp add: unsigned_minus_1_eq_mask mask_eq_exp_minus_1)
    ultimately show ?thesis using IH blk Cons.prems by (auto simp: in_block_def)
  next
    case False
    then have "unat (a - p) \<noteq> 0" by (simp add: unat_eq_zero)
    moreover have "unat (a - p - 1) = unat (a - p) - 1" by (rule unat_minus_one) (use False in simp)
    then have "unat (a - (p + 1)) = unat (a - p) - 1" by (simp add: diff_diff_eq)
    ultimately have "(b # bs) ! unat (a - p) = bs ! unat (a - (p + 1))" by (simp add: nth_Cons')
    then show ?thesis using IH blk False by simp
  qed
qed simp

lemma write_bytes_append:
  "write_bytes m p (bs @ cs) = write_bytes (write_bytes m p bs) (p + of_nat (length bs)) cs"
  by (induction bs arbitrary: m p) (simp_all add: add.assoc)

subsection \<open>Half words\<close>

definition load16 :: "mem \<Rightarrow> u32 \<Rightarrow> u16" where
  "load16 m a = ucast (m a) OR push_bit 8 (ucast (m (a + 1)))"

definition store16 :: "mem \<Rightarrow> u32 \<Rightarrow> u16 \<Rightarrow> mem" where
  "store16 m a v = m(a := ucast v, a + 1 := ucast (drop_bit 8 v))"

text \<open>On a word boundary a half-word store replaces the low half of the word.\<close>

lemma load16_word: "load16 m a = ucast (load32 m a)"
  unfolding load16_def load32_def by (rule bit_word_eqI) (auto simp: bit_simps)

lemma store16_word: "store16 m a v = store32 m a (load32 m a AND NOT (mask 16) OR ucast v)"
proof -
  let ?w = "load32 m a AND NOT (mask 16) OR ucast v"
  have "ucast ?w = (ucast v :: u8)" "ucast (drop_bit 8 ?w) = (ucast (drop_bit 8 v) :: u8)"
    "ucast (drop_bit 16 ?w) = m (a + 2)" "ucast (drop_bit 24 ?w) = m (a + 3)"
    unfolding load32_def by (rule bit_word_eqI; auto simp: bit_simps dest: bit_imp_le_length)+
  then show ?thesis by (auto simp: store16_def store32_def fun_eq_iff)
qed

end
