(* ===== verification/Ports.thy ===== *)
theory Ports
  imports Memory
begin

section \<open>Port input and output\<close>

text \<open>
  \<^verbatim>\<open>include/arch/x86.h\<close>: the port instructions. The devices behind the ports are not part
  of the program; what a device answers is the function \<open>dev\<close> of the history of all port
  operations so far (newest first) and of the port read. Every operation appends its event to the history,
  so a theorem about what a driver sends to a device is a theorem about \<open>trace\<close>.
\<close>

datatype io_event = OutB u16 u8 | InB u16 u8 | OutW u16 u16 | InW u16 u16 | OutL u16 u32 | InL u16 u32

record io =
  dev :: "io_event list \<Rightarrow> u16 \<Rightarrow> u32"
  trace :: "io_event list"

definition outb :: "u16 \<Rightarrow> u8 \<Rightarrow> io \<Rightarrow> io" where
  "outb port v d = d\<lparr>trace := OutB port v # trace d\<rparr>"

definition inb :: "u16 \<Rightarrow> io \<Rightarrow> u8 \<times> io" where
  "inb port d = (let v = ucast (dev d (trace d) port) in (v, d\<lparr>trace := InB port v # trace d\<rparr>))"

definition outw :: "u16 \<Rightarrow> u16 \<Rightarrow> io \<Rightarrow> io" where
  "outw port v d = d\<lparr>trace := OutW port v # trace d\<rparr>"

definition inw :: "u16 \<Rightarrow> io \<Rightarrow> u16 \<times> io" where
  "inw port d = (let v = ucast (dev d (trace d) port) in (v, d\<lparr>trace := InW port v # trace d\<rparr>))"

definition outl :: "u16 \<Rightarrow> u32 \<Rightarrow> io \<Rightarrow> io" where
  "outl port v d = d\<lparr>trace := OutL port v # trace d\<rparr>"

definition inl :: "u16 \<Rightarrow> io \<Rightarrow> u32 \<times> io" where
  "inl port d = (let v = dev d (trace d) port in (v, d\<lparr>trace := InL port v # trace d\<rparr>))"

definition io_wait :: "io \<Rightarrow> io" where
  "io_wait d = outb 0x80 0 d"

text \<open>The string instructions move \<open>cnt\<close> words between a port and memory, upwards from \<open>addr\<close>.\<close>

fun outsl :: "u16 \<Rightarrow> mem \<Rightarrow> u32 \<Rightarrow> nat \<Rightarrow> io \<Rightarrow> io" where
  "outsl port m addr 0 d = d"
| "outsl port m addr (Suc cnt) d = outsl port m (addr + 4) cnt (outl port (load32 m addr) d)"

fun insl :: "u16 \<Rightarrow> u32 \<Rightarrow> nat \<Rightarrow> mem \<times> io \<Rightarrow> mem \<times> io" where
  "insl port addr 0 (m, d) = (m, d)"
| "insl port addr (Suc cnt) (m, d) = (case inl port d of (v, d1) \<Rightarrow> insl port (addr + 4) cnt (store32 m addr v, d1))"

text \<open>The bytes written to a port, in the order they were written.\<close>

fun written :: "u16 \<Rightarrow> io_event list \<Rightarrow> u8 list" where
  "written p [] = []"
| "written p (OutB q v # es) = written p es @ (if q = p then [v] else [])"
| "written p (_ # es) = written p es"

fun written32 :: "u16 \<Rightarrow> io_event list \<Rightarrow> u32 list" where
  "written32 p [] = []"
| "written32 p (OutL q v # es) = written32 p es @ (if q = p then [v] else [])"
| "written32 p (_ # es) = written32 p es"

text \<open>The words read from a port.\<close>

fun read32 :: "u16 \<Rightarrow> io_event list \<Rightarrow> u32 list" where
  "read32 p [] = []"
| "read32 p (InL q v # es) = read32 p es @ (if q = p then [v] else [])"
| "read32 p (_ # es) = read32 p es"

lemma dev_simps [simp]:
  "dev (outb p v d) = dev d"
  "dev (snd (inb p d)) = dev d"
  "dev (outw p x d) = dev d"
  "dev (snd (inw p d)) = dev d"
  "dev (outl p w d) = dev d"
  "dev (snd (inl p d)) = dev d"
  by (simp_all add: outb_def inb_def outw_def inw_def outl_def inl_def Let_def)

lemma trace_simps [simp]:
  "trace (outb p v d) = OutB p v # trace d"
  "trace (snd (inb p d)) = InB p (fst (inb p d)) # trace d"
  "trace (outw p x d) = OutW p x # trace d"
  "trace (snd (inw p d)) = InW p (fst (inw p d)) # trace d"
  "trace (outl p w d) = OutL p w # trace d"
  "trace (snd (inl p d)) = InL p (fst (inl p d)) # trace d"
  by (simp_all add: outb_def inb_def outw_def inw_def outl_def inl_def Let_def)

lemma outsl_trace:
  "dev (outsl p m a n d) = dev d"
  "written q (trace (outsl p m a n d)) = written q (trace d)"
  "written32 q (trace (outsl p m a n d)) = written32 q (trace d) @ (if q = p then map (\<lambda>i. load32 m (a + 4 * of_nat i)) [0..<n] else [])"
proof -
  show "dev (outsl p m a n d) = dev d" "written q (trace (outsl p m a n d)) = written q (trace d)"
    by (induction n arbitrary: a d) simp_all
  have u: "map (\<lambda>i. load32 m (a + 4 * of_nat i)) [0..<Suc n] = load32 m a # map (\<lambda>i. load32 m (a + 4 + 4 * of_nat i)) [0..<n]" for a n
    by (subst upt_conv_Cons, simp, simp add: map_Suc_upt [symmetric] algebra_simps del: upt_Suc)
  show "written32 q (trace (outsl p m a n d)) = written32 q (trace d) @ (if q = p then map (\<lambda>i. load32 m (a + 4 * of_nat i)) [0..<n] else [])"
    by (induction n arbitrary: a d) (simp_all add: u del: upt_Suc)
qed

lemma insl_trace:
  "dev (snd (insl p a n (m, d))) = dev d"
  "written q (trace (snd (insl p a n (m, d)))) = written q (trace d)"
  "written32 q (trace (snd (insl p a n (m, d)))) = written32 q (trace d)"
  by (induction n arbitrary: a m d) (simp_all add: case_prod_beta)

lemma insl_frame: "(\<And>i. i < n \<Longrightarrow> \<not> in_block (a + 4 * of_nat i) 4 x) \<Longrightarrow> fst (insl p a n (m, d)) x = m x"
proof (induction n arbitrary: a m d)
  case (Suc n)
  have "\<not> in_block (a + 4 + 4 * of_nat i) 4 x" if "i < n" for i
    using Suc.prems [of "Suc i"] that by (simp add: algebra_simps)
  then show ?case using Suc.IH [of "a + 4"] Suc.prems [of 0] by (simp add: case_prod_beta store32_frame)
qed simp

text \<open>The words are the device's answers at port \<open>p\<close> to reads that follow the history \<open>h\<close>.\<close>

definition answers :: "io \<Rightarrow> u16 \<Rightarrow> io_event list \<Rightarrow> u32 list \<Rightarrow> bool" where
  "answers d p h ws \<longleftrightarrow> (\<forall>i < length ws. ws ! i = dev d (map (InL p) (rev (take i ws)) @ h) p)"

lemma answers_Nil [simp]: "answers d p h []"
  by (simp add: answers_def)

lemma answers_Cons: "answers d p h (w # ws) \<longleftrightarrow> w = dev d h p \<and> answers d p (InL p w # h) ws"
  by (auto simp: answers_def less_Suc_eq_0_disj)

lemma answers_cong: "dev d = dev d' \<Longrightarrow> answers d p h ws = answers d' p h ws"
  by (simp add: answers_def)

text \<open>The block read is what the port gave, in order.\<close>

lemma insl_reads:
  assumes "aligned 2 a" "n < 1000"
  shows "\<exists>ws. length ws = n \<and> read32 p (trace (snd (insl p a n (m, d)))) = read32 p (trace d) @ ws \<and> answers d p (trace d) ws
    \<and> (\<forall>i < n. load32 (fst (insl p a n (m, d))) (a + 4 * of_nat i) = ws ! i)"
  using assms
proof (induction n arbitrary: a m d)
  case (Suc n)
  obtain v d1 where v: "inl p d = (v, d1)" by force
  have al: "aligned 2 (a + 4)" using Suc.prems(1) by (rule aligned_add) (simp_all add: aligned_def)
  obtain ws where ws: "length ws = n" "read32 p (trace (snd (insl p (a + 4) n (store32 m a v, d1)))) = read32 p (trace d1) @ ws"
    "answers d1 p (trace d1) ws" "\<forall>i < n. load32 (fst (insl p (a + 4) n (store32 m a v, d1))) (a + 4 + 4 * of_nat i) = ws ! i"
    using Suc.IH [OF al, of "store32 m a v" d1] Suc.prems(2) by auto
  have t: "trace d1 = InL p v # trace d" "dev d1 = dev d" using v trace_simps(6) [of p d] dev_simps(6) [of p d] by simp_all
  have "v = dev d (trace d) p" using v by (simp add: inl_def Let_def)
  then have an: "answers d p (trace d) (v # ws)" using ws(3) t by (simp add: answers_Cons answers_cong [OF t(2)])
  have keep: "load32 (fst (insl p (a + 4) n (store32 m a v, d1))) a = v"
  proof -
    have "\<not> in_block (a + 4 + 4 * of_nat i) 4 x" if "in_block a 4 x" "i < n" for x i
    proof -
      have "unat (4 + 4 * of_nat i :: u32) = 4 + 4 * i" using that(2) Suc.prems(2) unat_of_nat_u32 [of "4 + 4 * i"] by simp
      moreover have "unat (x - a) < 4" using that(1) by (simp add: in_block_def)
      moreover have "4 \<le> unat (y - k)" if "unat k = 4 + 4 * i" "unat y < 4" for y k :: u32
        using that Suc.prems(2) \<open>i < n\<close> by (simp add: unat_sub_if_size word_size)
      ultimately have "unat (x - a - (4 + 4 * of_nat i)) \<ge> 4" by blast
      then show ?thesis by (simp add: in_block_def diff_diff_add add.assoc)
    qed
    then have "load32 (fst (insl p (a + 4) n (store32 m a v, d1))) a = load32 (store32 m a v) a"
      by (intro load32_cong insl_frame)
    then show ?thesis by simp
  qed
  show ?case
  proof (intro exI [of _ "v # ws"] conjI allI impI)
    fix i assume i: "i < Suc n"
    show "load32 (fst (insl p a (Suc n) (m, d))) (a + 4 * of_nat i) = (v # ws) ! i"
      using ws(4) keep i by (cases i) (simp_all add: v algebra_simps)
  qed (use ws t v an in simp_all)
qed simp

subsection \<open>The interface of a character device\<close>

text \<open>
  What formatted output relies on: in a good state of the device a character is delivered and the device
  stays good. \<open>eff s cs s'\<close> says that \<open>s'\<close> is \<open>s\<close> after the characters \<open>cs\<close>; the locale
  derives what a text sent character by character leaves behind.
\<close>

primrec send_all :: "('c \<Rightarrow> 's \<Rightarrow> 's res) \<Rightarrow> 'c list \<Rightarrow> 's \<Rightarrow> 's res" where
  "send_all put [] s = Inr s"
| "send_all put (c # cs) s = bindR (put c s) (send_all put cs)"

lemma send_all_append: "send_all put (xs @ ys) s = bindR (send_all put xs s) (send_all put ys)"
proof (induction xs arbitrary: s)
  case (Cons x xs)
  then show ?case by (cases "put x s") simp_all
qed simp

locale char_device =
  fixes put :: "'c \<Rightarrow> 's \<Rightarrow> 's res" and eff :: "'s \<Rightarrow> 'c list \<Rightarrow> 's \<Rightarrow> bool" and good :: "'s \<Rightarrow> bool"
  assumes put_good: "good s \<Longrightarrow> \<exists>s'. put c s = Inr s' \<and> good s' \<and> eff s [c] s'"
    and eff_refl: "eff s [] s"
    and eff_trans: "eff s xs s1 \<Longrightarrow> eff s1 ys s2 \<Longrightarrow> eff s (xs @ ys) s2"
begin

lemma send_all_good:
  "good s \<Longrightarrow> \<exists>s'. send_all put cs s = Inr s' \<and> good s' \<and> eff s cs s'"
proof (induction cs arbitrary: s)
  case (Cons c cs)
  obtain s1 where s1: "put c s = Inr s1" "good s1" "eff s [c] s1"
    using put_good [OF Cons.prems] by blast
  then obtain s2 where "send_all put cs s1 = Inr s2" "good s2" "eff s1 cs s2" using Cons.IH by blast
  then show ?case using s1 eff_trans [OF s1(3), of cs s2] by auto
qed (simp add: eff_refl)

end

end
