(* ===== verification/Decimal.thy ===== *)
theory Decimal
  imports Prelude
begin

section \<open>Decimal text\<close>

text \<open>
  The reference for every routine that prints a number (\<^verbatim>\<open>int_to_str\<close>,
  \<^verbatim>\<open>serial_print_int\<close>, the \<^verbatim>\<open>%d\<close> of \<^verbatim>\<open>kprintf\<close>): the ASCII
  text of an integer, and the reader that gets the integer back.
\<close>

fun rdigits :: "nat \<Rightarrow> u8 list" where
  "rdigits n = (if n = 0 then [] else (48 + of_nat (n mod 10)) # rdigits (n div 10))"

declare rdigits.simps [simp del]

definition dec_value :: "u8 list \<Rightarrow> nat" where
  "dec_value ds = foldl (\<lambda>v d. 10 * v + unat (d - 48)) 0 ds"

definition dec_text :: "int \<Rightarrow> u8 list" where
  "dec_text z = (if z = 0 then [48] else (if z < 0 then [45] else []) @ rev (rdigits (nat \<bar>z\<bar>)))"

definition parse_dec :: "u8 list \<Rightarrow> int" where
  "parse_dec bs = (case bs of [] \<Rightarrow> 0
     | b # ds \<Rightarrow> if b = 45 then - int (dec_value ds) else int (dec_value (b # ds)))"

lemma digit_value: "d < 10 \<Longrightarrow> unat ((48 + of_nat d :: u8) - 48) = d"
  by (simp add: unat_of_nat take_bit_eq_mod)

lemma digit_range: "d < 10 \<Longrightarrow> (48 + of_nat d :: u8) \<noteq> 0 \<and> (48 + of_nat d :: u8) \<noteq> 45"
proof -
  assume d: "d < 10"
  then have "d \<in> {0..<10}" by simp
  then have "d \<in> set [0..<10]" by simp
  then have "d \<in> {0,1,2,3,4,5,6,7,8,9}" by (simp add: upt_rec numeral_eq_Suc)
  then show ?thesis by auto
qed

lemma dec_value_rev_rdigits: "dec_value (rev (rdigits n)) = n"
proof (induction n rule: rdigits.induct)
  case (1 n)
  show ?case
  proof (cases "n = 0")
    case True
    then show ?thesis by (simp add: rdigits.simps dec_value_def)
  next
    case False
    then have "dec_value (rev (rdigits (n div 10))) = n div 10" using 1 by simp
    then show ?thesis using False digit_value [of "n mod 10"]
      by (subst rdigits.simps) (simp add: dec_value_def)
  qed
qed

lemma rdigits_bytes: "b \<in> set (rdigits n) \<Longrightarrow> b \<noteq> 0 \<and> b \<noteq> 45"
proof (induction n rule: rdigits.induct)
  case (1 n)
  then show ?case using digit_range [of "n mod 10"]
    by (cases "n = 0") (auto simp: rdigits.simps [of n] rdigits.simps [of 0])
qed

lemma rdigits_nonempty: "0 < n \<Longrightarrow> rdigits n \<noteq> []"
  by (simp add: rdigits.simps [of n])

lemma length_rdigits: "n < 10 ^ k \<Longrightarrow> length (rdigits n) \<le> k"
proof (induction k arbitrary: n)
  case 0
  then show ?case by (simp add: rdigits.simps)
next
  case (Suc k)
  then have "n div 10 < 10 ^ k" by auto
  then show ?case using Suc.IH [of "n div 10"] by (simp add: rdigits.simps [of n])
qed

lemma parse_dec_text: "parse_dec (dec_text z) = z"
proof (cases "z = 0")
  case False
  let ?ds = "rev (rdigits (nat \<bar>z\<bar>))"
  have ds: "?ds \<noteq> []" using False rdigits_nonempty by simp
  then have "hd ?ds \<noteq> 45" using rdigits_bytes by (metis hd_in_set set_rev)
  then have "parse_dec ?ds = int (dec_value ?ds)"
    using ds by (cases ?ds) (simp_all add: parse_dec_def)
  moreover have "parse_dec (45 # ?ds) = - int (dec_value ?ds)" by (simp add: parse_dec_def)
  moreover have "dec_value ?ds = nat \<bar>z\<bar>" by (rule dec_value_rev_rdigits)
  ultimately show ?thesis using False by (cases "z < 0") (simp_all add: dec_text_def)
qed (simp add: dec_text_def parse_dec_def dec_value_def)

end
