(* ===== verification/Serial.thy ===== *)
theory Serial
  imports Ports Decimal
begin

section \<open>Serial port\<close>

text \<open>
  \<^verbatim>\<open>kernel/drivers/serial.c\<close>. The transmitter is polled through the line status
  register, so sending a character is a loop on the device's answers. A format string is the list of its
  bytes before the terminating NUL; \<open>lit\<close> gives the bytes of a literal. A variable
  argument is a 32-bit word or a pointer to a string, given by the bytes it points to; taking an
  argument of the wrong kind or one that was not passed is undefined.
\<close>

abbreviation lit :: "string \<Rightarrow> u8 list" where
  "lit s \<equiv> map of_char s"

datatype arg = Word u32 | Str "u8 list"

definition init_serial :: "io \<Rightarrow> io" where
  "init_serial d = outb (0x3F8 + 4) 0x0B (outb (0x3F8 + 3) 0x03 (outb (0x3F8 + 1) 0x00
     (outb (0x3F8 + 0) 0x03 (outb (0x3F8 + 3) 0x80 (outb (0x3F8 + 1) 0x00 (outb (0x3F8 + 2) 0x00 d))))))"

partial_function (option) wait_transmit :: "io \<Rightarrow> io option" where
  "wait_transmit d = (case inb (0x3F8 + 5) d of (v, d1) \<Rightarrow>
     if v AND 0x20 = 0 then wait_transmit d1 else Some d1)"

definition serial_putchar :: "u8 \<Rightarrow> io \<Rightarrow> io res" where
  "serial_putchar c d = bindR (from_loop (wait_transmit d)) (\<lambda>d1. Inr (outb 0x3F8 c d1))"

text \<open>The digits are pushed on a buffer from the low end; the buffer is printed from its last entry
  back. \<open>num\<close> is positive in the loop, where C's division agrees with \<open>div\<close>.\<close>

partial_function (option) int_digits :: "int \<Rightarrow> int \<Rightarrow> u8 list \<Rightarrow> u8 list option" where
  "int_digits num base buf =
     (if num > 0 then (let digit = num mod base
        in int_digits (num div base) base
             ((if digit < 10 then of_int (48 + digit) else of_int (97 + digit - 10)) # buf))
      else Some buf)"

definition serial_print_int :: "int \<Rightarrow> int \<Rightarrow> io \<Rightarrow> io res" where
  "serial_print_int num base d =
     (if num = 0 then serial_putchar 48 d
      else (let is_negative = num < 0 \<and> base = 10;
                num1 = (if is_negative then wrap32 (- num) else num)
            in bindR (from_loop (int_digits num1 base []))
                 (\<lambda>buf. send_all serial_putchar ((if is_negative then [45] else []) @ buf) d)))"

definition hex_digit :: "u32 \<Rightarrow> nat \<Rightarrow> u8" where
  "hex_digit num i = (let digit = uint (drop_bit (i * 4) num AND 0xF)
     in if digit < 10 then of_int (48 + digit) else of_int (97 + digit - 10))"

fun skip_zeros :: "nat \<Rightarrow> u8 list \<Rightarrow> u8 list" where
  "skip_zeros 0 buf = buf"
| "skip_zeros (Suc n) (c # buf) = (if c = 48 then skip_zeros n buf else c # buf)"
| "skip_zeros n [] = []"

definition serial_print_hex :: "u32 \<Rightarrow> io \<Rightarrow> io res" where
  "serial_print_hex num d =
     bindR (serial_putchar 48 d) (\<lambda>d. bindR (serial_putchar 120 d) (\<lambda>d.
       if num = 0 then serial_putchar 48 d
       else send_all serial_putchar (skip_zeros 7 (map (hex_digit num) (rev [0..<8]))) d))"

definition va_word :: "arg list \<Rightarrow> (u32 \<times> arg list) res" where
  "va_word args = (case args of Word w # rest \<Rightarrow> Inr (w, rest) | _ \<Rightarrow> Inl (Undef ''va_arg''))"

definition va_str :: "arg list \<Rightarrow> (u8 list \<times> arg list) res" where
  "va_str args = (case args of Str s # rest \<Rightarrow> Inr (s, rest) | _ \<Rightarrow> Inl (Undef ''va_arg''))"

text \<open>One conversion, for the character after the percent sign; NUL when the format ends there.\<close>

definition conversion :: "u8 \<Rightarrow> arg list \<Rightarrow> io \<Rightarrow> (arg list \<times> io) res" where
  "conversion k args d =
     (if k = of_char CHR ''s'' then bindR (va_str args) (\<lambda>(s, rest).
        bindR (send_all serial_putchar s d) (\<lambda>d. Inr (rest, d)))
      else if k = of_char CHR ''c'' then bindR (va_word args) (\<lambda>(w, rest).
        bindR (serial_putchar (ucast w) d) (\<lambda>d. Inr (rest, d)))
      else if k = of_char CHR ''d'' then bindR (va_word args) (\<lambda>(w, rest).
        bindR (serial_print_int (sint w) 10 d) (\<lambda>d. Inr (rest, d)))
      else if k = of_char CHR ''x'' then bindR (va_word args) (\<lambda>(w, rest).
        bindR (serial_print_hex w d) (\<lambda>d. Inr (rest, d)))
      else if k = of_char CHR ''p'' then bindR (va_word args) (\<lambda>(w, rest).
        bindR (serial_putchar 48 d) (\<lambda>d. bindR (serial_putchar 120 d) (\<lambda>d.
        bindR (serial_print_hex w d) (\<lambda>d. Inr (rest, d)))))
      else if k = 37 then bindR (serial_putchar 37 d) (\<lambda>d. Inr (args, d))
      else bindR (serial_putchar 37 d) (\<lambda>d. bindR (serial_putchar k d) (\<lambda>d. Inr (args, d))))"

text \<open>A percent sign at the end of the format makes the loop step over the NUL and read on.\<close>

fun serial_printf :: "u8 list \<Rightarrow> arg list \<Rightarrow> io \<Rightarrow> io res" where
  "serial_printf [] args d = Inr d"
| "serial_printf [c] args d =
     (if c = 37 then bindR (conversion 0 args d) (\<lambda>_. Inl (Undef ''format read past its end''))
      else serial_putchar c d)"
| "serial_printf (c # k # rest) args d =
     (if c = 37 then bindR (conversion k args d) (\<lambda>(args, d). serial_printf rest args d)
      else bindR (serial_putchar c d) (serial_printf (k # rest) args))"

subsection \<open>Sending one character\<close>

definition sent :: "io \<Rightarrow> u8 list" where
  "sent d = written 0x3F8 (trace d)"

text \<open>The transmitter is ready whenever it is polled.\<close>

definition uart_ready :: "io \<Rightarrow> bool" where
  "uart_ready d \<longleftrightarrow> (\<forall>h. (ucast (dev d h 0x3FD) :: u8) AND 0x20 \<noteq> 0)"

lemma wait_transmit_ready: "uart_ready d \<Longrightarrow> wait_transmit d = Some (snd (inb 0x3FD d))"
  by (subst wait_transmit.simps) (simp add: uart_ready_def inb_def Let_def)

lemma sent_simps [simp]:
  "sent (outb p v d) = sent d @ (if p = 0x3F8 then [v] else [])"
  "sent (snd (inb p d)) = sent d"
  by (simp_all add: sent_def)

lemma uart_ready_simps [simp]:
  "uart_ready (outb p v d) = uart_ready d"
  "uart_ready (snd (inb p d)) = uart_ready d"
  by (simp_all add: uart_ready_def)

text \<open>\<open>uart_sends d t d'\<close>: between \<open>d\<close> and \<open>d'\<close> the bytes \<open>t\<close> went to the transmitter and
  nothing was written to any other port.\<close>

definition uart_sends :: "io \<Rightarrow> u8 list \<Rightarrow> io \<Rightarrow> bool" where
  "uart_sends d t d' \<longleftrightarrow> sent d' = sent d @ t \<and> dev d' = dev d
    \<and> (\<forall>p. p \<noteq> 0x3F8 \<longrightarrow> written p (trace d') = written p (trace d))"

interpretation uart: char_device serial_putchar uart_sends uart_ready
  by unfold_locales (auto simp: serial_putchar_def wait_transmit_ready uart_sends_def)

text \<open>A transmitter that is never ready stops the kernel at the first character.\<close>

lemma wait_transmit_never:
  assumes "\<forall>h. (ucast (dev d h 0x3FD) :: u8) AND 0x20 = 0"
  shows "wait_transmit d = None"
proof -
  have "\<exists>h. (ucast (dev d h 0x3FD) :: u8) AND 0x20 \<noteq> 0" if e: "wait_transmit d = Some e" for e
  proof (rule wait_transmit.raw_induct [OF _ e, where P = "\<lambda>d _. \<exists>h. (ucast (dev d h 0x3FD) :: u8) AND 0x20 \<noteq> 0"])
    fix rec d e
    assume IH: "\<And>d e. rec d = Some e \<Longrightarrow> \<exists>h. (ucast (dev d h 0x3FD) :: u8) AND 0x20 \<noteq> 0"
      and step: "(case inb (0x3F8 + 5) d of (v, d1) \<Rightarrow> if v AND 0x20 = 0 then rec d1 else Some d1) = Some e"
    show "\<exists>h. (ucast (dev d h 0x3FD) :: u8) AND 0x20 \<noteq> 0"
      using step IH [of "snd (inb 0x3FD d)" e] by (auto simp: inb_def Let_def split: if_splits)
  qed
  then show ?thesis using assms by (cases "wait_transmit d") auto
qed

subsection \<open>Numbers as text\<close>

text \<open>The reference for hexadecimal text, and its reader.\<close>

definition hex_char :: "nat \<Rightarrow> u8" where
  "hex_char n = (if n < 10 then 48 + of_nat n else 87 + of_nat n)"

fun hdigits :: "nat \<Rightarrow> u8 list" where
  "hdigits n = (if n = 0 then [] else hex_char (n mod 16) # hdigits (n div 16))"

declare hdigits.simps [simp del]

definition hex_text :: "u32 \<Rightarrow> u8 list" where
  "hex_text w = [48, 120] @ (if w = 0 then [48] else rev (hdigits (unat w)))"

definition hex_digit_value :: "u8 \<Rightarrow> nat" where
  "hex_digit_value c = (if c < 58 then unat c - 48 else unat c - 87)"

definition parse_hex :: "u8 list \<Rightarrow> nat" where
  "parse_hex bs = foldl (\<lambda>v c. 16 * v + hex_digit_value c) 0 (drop 2 bs)"

lemma unat_hex_char: "n < 16 \<Longrightarrow> unat (hex_char n) = (if n < 10 then 48 + n else 87 + n)"
  by (simp add: hex_char_def unat_word_ariths unat_of_nat take_bit_eq_mod)

lemma hex_char_value: "n < 16 \<Longrightarrow> hex_digit_value (hex_char n) = n"
  by (simp add: hex_digit_value_def word_less_nat_alt unat_hex_char)

lemma hex_char_zero: "n < 16 \<Longrightarrow> hex_char n = 48 \<longleftrightarrow> n = 0"
  by (simp add: word_unat_eq_iff unat_hex_char)

lemma parse_hdigits: "foldl (\<lambda>v c. 16 * v + hex_digit_value c) 0 (rev (hdigits n)) = n"
proof (induction n rule: hdigits.induct)
  case (1 n)
  then show ?case by (cases "n = 0") (simp_all add: hdigits.simps [of n] hdigits.simps [of 0] hex_char_value)
qed

lemma parse_hex_text: "parse_hex (hex_text w) = unat w"
proof (cases "w = 0")
  case True
  then show ?thesis by (simp add: parse_hex_def hex_text_def hex_digit_value_def)
next
  case False
  then show ?thesis using parse_hdigits by (simp add: parse_hex_def hex_text_def)
qed

text \<open>The hexadecimal loop extracts the digits from the top and drops the leading zeros.\<close>

lemma hex_digit_eq: "hex_digit w i = hex_char (unat w div 16 ^ i mod 16)"
proof -
  have "uint (drop_bit (i * 4) w AND 0xF) = int (unat w div 16 ^ i mod 16)"
  proof -
    have "(0xF :: u32) = mask 4" by (simp add: mask_eq_exp_minus_1)
    then have "unat (drop_bit (i * 4) w AND 0xF) = unat (take_bit 4 (drop_bit (i * 4) w))"
      by (simp only: take_bit_eq_mask)
    also have "\<dots> = take_bit 4 (drop_bit (i * 4) (unat w))"
      by (simp only: unsigned_take_bit_eq unat_drop_bit_eq)
    also have "\<dots> = unat w div 16 ^ i mod 16"
    proof -
      have "(2::nat) ^ (i * 4) = 16 ^ i" by (simp add: power_mult mult.commute [of i])
      then show ?thesis by (simp add: take_bit_eq_mod drop_bit_eq_div)
    qed
    finally show ?thesis by (metis uint_nat)
  qed
  then show ?thesis by (simp add: hex_digit_def Let_def hex_char_def zless_nat_eq_int_zless)
qed

lemma hdigits_all:
  "16 ^ k \<le> n \<Longrightarrow> n < 16 ^ Suc k \<Longrightarrow> map (\<lambda>i. hex_char (n div 16 ^ i mod 16)) [0..<Suc k] = hdigits n"
proof (induction k arbitrary: n)
  case 0
  then show ?case by (simp add: hdigits.simps [of n] hdigits.simps [of 0])
next
  case (Suc k)
  have "16 ^ k \<le> n div 16" "n div 16 < 16 ^ Suc k" using Suc.prems by (auto simp: less_eq_div_iff_mult_less_eq)
  then have IH: "map (\<lambda>i. hex_char (n div 16 div 16 ^ i mod 16)) [0..<Suc k] = hdigits (n div 16)"
    by (rule Suc.IH)
  have "[0..<Suc (Suc k)] = 0 # map Suc [0..<Suc k]" by (simp add: map_Suc_upt upt_conv_Cons del: upt_Suc)
  moreover have "n div 16 ^ Suc i = n div 16 div 16 ^ i" for i by (simp add: div_mult2_eq)
  moreover have "n \<noteq> 0" using Suc.prems(1) by (metis le_zero_eq power_not_zero zero_neq_numeral)
  ultimately show ?case using IH by (simp add: hdigits.simps [of n] o_def del: upt_Suc power_Suc)
qed

lemma skip_zeros_hdigits:
  "0 < n \<Longrightarrow> n < 16 ^ Suc k \<Longrightarrow>
    skip_zeros k (map (\<lambda>i. hex_char (n div 16 ^ i mod 16)) (rev [0..<Suc k])) = rev (hdigits n)"
proof (induction k)
  case 0
  then show ?case by (simp add: hdigits.simps [of n] hdigits.simps [of 0])
next
  case (Suc k)
  show ?case
  proof (cases "n < 16 ^ Suc k")
    case True
    then have "hex_char (n div 16 ^ Suc k mod 16) = 48" by (simp add: hex_char_def)
    then show ?thesis using Suc.IH [OF Suc.prems(1) True] by simp
  next
    case False
    then have le: "16 ^ Suc k \<le> n" by simp
    have lt: "n div 16 ^ Suc k < 16" using Suc.prems(2) by (simp add: less_mult_imp_div_less mult.commute)
    moreover have "n div 16 ^ Suc k \<noteq> 0" using le by (simp add: div_eq_0_iff)
    ultimately have "hex_char (n div 16 ^ Suc k mod 16) \<noteq> 48" by (simp add: hex_char_zero)
    then have "skip_zeros (Suc k) (map (\<lambda>i. hex_char (n div 16 ^ i mod 16)) (rev [0..<Suc (Suc k)])) =
        rev (map (\<lambda>i. hex_char (n div 16 ^ i mod 16)) [0..<Suc (Suc k)])"
      by (simp add: rev_map del: power_Suc)
    then show ?thesis by (simp only: hdigits_all [OF le Suc.prems(2)])
  qed
qed

text \<open>The decimal loop is the reference loop.\<close>

lemma int_digits_rdigits: "int_digits (int n) 10 buf = Some (rev (rdigits n) @ buf)"
proof (induction n arbitrary: buf rule: rdigits.induct)
  case (1 n)
  show ?case
  proof (cases "n = 0")
    case True
    then show ?thesis by (simp add: int_digits.simps rdigits.simps)
  next
    case False
    have m: "int n mod 10 = int (n mod 10)" by (simp add: zmod_int)
    then have "int n mod 10 < 10" "of_int (48 + int n mod 10) = (48 + of_nat (n mod 10) :: u8)"
      by (simp, simp only: m of_int_add of_int_of_nat_eq of_int_numeral)
    moreover have "int n div 10 = int (n div 10)" by (simp add: zdiv_int)
    ultimately show ?thesis using False 1 [OF False]
      by (subst int_digits.simps) (simp add: Let_def rdigits.simps [of n])
  qed
qed

definition int_text :: "int \<Rightarrow> u8 list" where
  "int_text z = (if z = - 2147483648 then [45] else dec_text z)"


subsection \<open>What formatted output sends\<close>

text \<open>
  \<open>prints f t\<close>: on a ready transmitter the action \<open>f\<close> returns, the transmitter is still
  ready and exactly the bytes \<open>t\<close> have been sent. \<open>printf_text\<close> is the reference: the
  text of a format with its arguments, or \<open>None\<close> when C gives it no meaning.
\<close>

definition prints :: "(io \<Rightarrow> io res) \<Rightarrow> u8 list \<Rightarrow> bool" where
  "prints f t \<longleftrightarrow> (\<forall>d. uart_ready d \<longrightarrow> (\<exists>d'. f d = Inr d' \<and> uart_ready d' \<and> uart_sends d t d'))"

lemma prints_put: "prints (serial_putchar c) [c]"
  using uart.put_good by (auto simp: prints_def)

lemma prints_all: "prints (send_all serial_putchar t) t"
  using uart.send_all_good by (auto simp: prints_def)

lemma prints_done: "prints Inr []"
  using uart.eff_refl by (simp add: prints_def)

lemma prints_bind: "prints f t \<Longrightarrow> prints g u \<Longrightarrow> prints (\<lambda>d. bindR (f d) g) (t @ u)"
  unfolding prints_def using uart.eff_trans by (metis bindR_simps(2))

lemma prints_int: "prints (serial_print_int (sint w) 10) (int_text (sint (w :: u32)))"
proof -
  have r: "- 2147483648 \<le> sint w" "sint w < 2147483648"
    using sint_greater_eq [of w] sint_less [of w] by simp_all
  have dig: "int_digits z 10 [] = Some (rev (rdigits (nat z)))" if "0 \<le> z" for z
    using int_digits_rdigits [of "nat z" "[]"] that by simp
  consider "sint w = 0" | "0 < sint w" | "sint w < 0" "sint w \<noteq> - 2147483648" | "sint w = - 2147483648"
    by linarith
  then show ?thesis
  proof cases
    case 1
    then show ?thesis using prints_put [of 48] by (simp add: serial_print_int_def [abs_def] int_text_def dec_text_def)
  next
    case 2
    then show ?thesis using prints_all [of "rev (rdigits (nat (sint w)))"] dig [of "sint w"]
      by (simp add: serial_print_int_def [abs_def] int_text_def dec_text_def)
  next
    case 3
    then have "wrap32 (- sint w) = - sint w" using r by simp
    then show ?thesis using 3 prints_all [of "[45] @ rev (rdigits (nat (- sint w)))"] dig [of "- sint w"]
      by (simp add: serial_print_int_def [abs_def] int_text_def dec_text_def Let_def del: send_all.simps)
  next
    case 4
    then have "wrap32 (- sint w) = - 2147483648" by (simp add: wrap32_def)
    then show ?thesis using 4 prints_all [of "[45]"]
      by (simp add: serial_print_int_def [abs_def] int_text_def Let_def int_digits.simps [of "- 2147483648"] del: send_all.simps)
  qed
qed

lemma prints_hex: "prints (serial_print_hex w) (hex_text w)"
proof (cases "w = 0")
  case True
  then show ?thesis
    using prints_bind [OF prints_put [of 48] prints_bind [OF prints_put [of 120] prints_put [of 48]]]
    by (simp add: serial_print_hex_def [abs_def] hex_text_def)
next
  case False
  have w: "0 < unat w" "unat w < 16 ^ Suc 7" using unat_lt_u32 [of w] False by (simp_all add: unat_gt_0)
  have "map (hex_digit w) (rev [0..<Suc 7]) = map (\<lambda>i. hex_char (unat w div 16 ^ i mod 16)) (rev [0..<Suc 7])"
    by (simp only: hex_digit_eq cong: map_cong)
  then have "skip_zeros 7 (map (hex_digit w) (rev [0..<Suc 7])) = rev (hdigits (unat w))"
    by (simp only: skip_zeros_hdigits [OF w])
  moreover have "Suc 7 = 8" by simp
  ultimately have "skip_zeros 7 (map (hex_digit w) (rev [0..<8])) = rev (hdigits (unat w))"
    by (simp only:)
  then show ?thesis
    using False prints_bind [OF prints_put [of 48] prints_bind [OF prints_put [of 120] prints_all]]
    by (simp add: serial_print_hex_def [abs_def] hex_text_def)
qed

fun arg_text :: "u8 \<Rightarrow> arg list \<Rightarrow> (u8 list \<times> arg list) option" where
  "arg_text k (Str s # rest) = (if k = of_char CHR ''s'' then Some (s, rest) else None)"
| "arg_text k (Word w # rest) =
     (if k = of_char CHR ''c'' then Some ([ucast w], rest)
      else if k = of_char CHR ''d'' then Some (int_text (sint w), rest)
      else if k = of_char CHR ''x'' then Some (hex_text w, rest)
      else if k = of_char CHR ''p'' then Some ([48, 120] @ hex_text w, rest)
      else None)"
| "arg_text k [] = None"

definition takes_arg :: "u8 \<Rightarrow> bool" where
  "takes_arg k \<longleftrightarrow> k \<in> set (lit ''scdxp'')"

fun printf_text :: "u8 list \<Rightarrow> arg list \<Rightarrow> u8 list option" where
  "printf_text [] args = Some []"
| "printf_text [c] args = (if c = 37 then None else Some [c])"
| "printf_text (c # k # rest) args =
     (if c = 37 then
        (if takes_arg k then (case arg_text k args of None \<Rightarrow> None
           | Some (t, args') \<Rightarrow> map_option ((@) t) (printf_text rest args'))
         else map_option ((@) (if k = 37 then [37] else [37, k])) (printf_text rest args))
      else map_option ((#) c) (printf_text (k # rest) args))"

text \<open>A conversion is an action that prints the text of its argument, or undefined.\<close>

lemma conversion_args:
  "conversion 115 (Str s # r) d = bindR (send_all serial_putchar s d) (\<lambda>d. Inr (r, d))"
  "conversion 99 (Word w # r) d = bindR (serial_putchar (ucast w) d) (\<lambda>d. Inr (r, d))"
  "conversion 100 (Word w # r) d = bindR (serial_print_int (sint w) 10 d) (\<lambda>d. Inr (r, d))"
  "conversion 120 (Word w # r) d = bindR (serial_print_hex w d) (\<lambda>d. Inr (r, d))"
  "conversion 112 (Word w # r) d = bindR (bindR (serial_putchar 48 d) (\<lambda>d. bindR (serial_putchar 120 d)
     (serial_print_hex w))) (\<lambda>d. Inr (r, d))"
  by (simp_all add: conversion_def va_word_def va_str_def bindR_def split: sum.split)

lemma conversion_undef:
  assumes "takes_arg k" "arg_text k args = None"
  shows "conversion k args d = Inl (Undef ''va_arg'')"
  using assms
  by (cases "(k, args)" rule: arg_text.cases)
    (auto simp: takes_arg_def conversion_def va_word_def va_str_def split: if_splits)

lemma conversion_text:
  assumes "takes_arg k" "arg_text k args = Some (t, args')"
  shows "\<exists>f. prints f t \<and> conversion k args d = bindR (f d) (\<lambda>d. Inr (args', d))"
proof -
  note hex_p = prints_bind [OF prints_put [of 48] prints_bind [OF prints_put [of 120] prints_hex]]
  show ?thesis
  proof (cases "(k, args)" rule: arg_text.cases)
    case (1 k' s rest)
    then show ?thesis using assms(2) prints_all [of s]
      by (intro exI [of _ "send_all serial_putchar s"]) (auto simp: conversion_args split: if_splits)
  next
    case (2 k' w rest)
    consider "k = 99" | "k = 100" | "k = 120" | "k = 112"
      using assms 2 by (auto simp: takes_arg_def split: if_splits)
    then show ?thesis
    proof cases
      case 1
      then show ?thesis using assms(2) 2 prints_put [of "ucast w"]
        by (intro exI [of _ "serial_putchar (ucast w)"]) (simp add: conversion_args)
    next
      case 2
      then show ?thesis using assms(2) \<open>(k, args) = (k', Word w # rest)\<close> prints_int [of w]
        by (intro exI [of _ "serial_print_int (sint w) 10"]) (simp add: conversion_args)
    next
      case 3
      then show ?thesis using assms(2) 2 prints_hex [of w]
        by (intro exI [of _ "serial_print_hex w"]) (simp add: conversion_args)
    next
      case 4
      then show ?thesis using assms(2) 2 hex_p [of w]
        by (intro exI [of _ "\<lambda>d. bindR (serial_putchar 48 d) (\<lambda>d. bindR (serial_putchar 120 d) (serial_print_hex w))"])
          (simp add: conversion_args)
    qed
  next
    case (3 k')
    then show ?thesis using assms(2) by simp
  qed
qed

lemma conversion_plain:
  "\<not> takes_arg k \<Longrightarrow> conversion k args d =
    bindR (send_all serial_putchar (if k = 37 then [37] else [37, k]) d) (\<lambda>d. Inr (args, d))"
  by (auto simp: takes_arg_def conversion_def bindR_def split: sum.split)

lemma bindR_assoc: "bindR (bindR r f) g = bindR r (\<lambda>x. bindR (f x) g)"
  by (cases r) simp_all

lemma serial_printf_prints:
  "printf_text fmt args = Some t \<Longrightarrow> prints (serial_printf fmt args) t"
proof (induction fmt args arbitrary: t rule: printf_text.induct)
  case (1 args)
  then show ?case using prints_done by (simp add: prints_def)
next
  case (2 c args)
  then show ?case using prints_put [of c] by (auto simp: prints_def split: if_splits)
next
  case (3 c k rest args)
  show ?case
  proof (cases "c = 37")
    case False
    then obtain u where u: "printf_text (k # rest) args = Some u" "t = [c] @ u" using 3(4) by auto
    have "prints (serial_printf (k # rest) args) u" by (rule 3(3)) (use False u in auto)
    then have "prints (\<lambda>d. bindR (serial_putchar c d) (serial_printf (k # rest) args)) ([c] @ u)"
      by (rule prints_bind [OF prints_put])
    then show ?thesis using False u by (simp add: prints_def)
  next
    case True
    show ?thesis
    proof (cases "takes_arg k")
      case False
      then obtain u where u: "printf_text rest args = Some u" "t = (if k = 37 then [37] else [37, k]) @ u"
        using 3(4) True by auto
      have "prints (serial_printf rest args) u" by (rule 3(2)) (use True False u in auto)
      then have "prints (\<lambda>d. bindR (send_all serial_putchar (if k = 37 then [37] else [37, k]) d)
          (serial_printf rest args)) t"
        unfolding u(2) by (rule prints_bind [OF prints_all])
      then show ?thesis using True False by (simp add: prints_def conversion_plain bindR_assoc)
    next
      case arg: True
      then obtain x args' u where u: "arg_text k args = Some (x, args')" "printf_text rest args' = Some u" "t = x @ u"
        using 3(4) True by (auto split: option.splits)
      have IH: "prints (serial_printf rest args') u" by (rule 3(1)) (use True arg u in auto)
      show ?thesis
        unfolding prints_def
      proof (intro allI impI)
        fix d assume d: "uart_ready d"
        obtain f where f: "prints f x" "conversion k args d = bindR (f d) (\<lambda>d. Inr (args', d))"
          using conversion_text [OF arg u(1)] by blast
        then show "\<exists>d'. serial_printf (c # k # rest) args d = Inr d' \<and> uart_ready d' \<and> uart_sends d t d'"
          using prints_bind [OF f(1) IH] d True u(3) by (simp add: prints_def bindR_assoc)
      qed
    qed
  qed
qed

text \<open>A literal text without conversions.\<close>

lemma printf_text_plain: "37 \<notin> set fmt \<Longrightarrow> printf_text fmt args = Some fmt"
  by (induction fmt args rule: printf_text.induct) auto

lemma serial_printf_step:
  assumes "uart_ready d" "printf_text fmt args = Some t"
  obtains d' where "serial_printf fmt args d = Inr d'" "uart_ready d'" "uart_sends d t d'"
  using serial_printf_prints [OF assms(2)] assms(1) by (auto simp: prints_def)

text \<open>A text without a meaning stops at the first conversion that has none.\<close>

lemma serial_printf_none:
  "printf_text fmt args = None \<Longrightarrow> uart_ready d \<Longrightarrow> \<exists>w. serial_printf fmt args d = Inl (Undef w)"
proof (induction fmt args arbitrary: d rule: printf_text.induct)
  case (2 c args)
  then obtain d' where "send_all serial_putchar [37, 0] d = Inr d'" using uart.send_all_good by blast
  then show ?case using "2.prems"(1) by (simp add: conversion_plain takes_arg_def del: send_all.simps split: if_splits)
next
  case (3 c k rest args)
  show ?case
  proof (cases "c = 37")
    case False
    obtain d' where "serial_putchar c d = Inr d'" "uart_ready d'" using uart.put_good [OF "3.prems"(2)] by blast
    then show ?thesis using False "3.prems"(1) "3.IH"(3) [OF False _ \<open>uart_ready d'\<close>] by simp
  next
    case pct: True
    show ?thesis
    proof (cases "takes_arg k")
      case False
      obtain d' where d': "send_all serial_putchar (if k = 37 then [37] else [37, k]) d = Inr d'" "uart_ready d'"
        using uart.send_all_good [OF "3.prems"(2)] by blast
      then show ?thesis using "3.IH"(2) [OF pct False _ d'(2)] False pct "3.prems"(1)
        by (simp add: conversion_plain del: send_all.simps)
    next
      case True
      show ?thesis
      proof (cases "arg_text k args")
        case None
        then show ?thesis using conversion_undef [OF True] pct by simp
      next
        case (Some xa)
        obtain x args' where xa: "xa = (x, args')" by force
        obtain f where f: "prints f x" "conversion k args d = bindR (f d) (\<lambda>d. Inr (args', d))"
          using conversion_text [OF True Some [unfolded xa]] by blast
        then obtain d' where d': "f d = Inr d'" "uart_ready d'" using "3.prems"(2) by (auto simp: prints_def)
        have "printf_text rest args' = None" using "3.prems"(1) pct True Some xa by simp
        then show ?thesis using "3.IH"(1) [OF pct True Some xa [symmetric] _ d'(2)] f(2) d'(1) pct by simp
      qed
    qed
  qed
qed simp

lemma printf_text_append:
  "37 \<notin> set pre \<Longrightarrow> printf_text (pre @ rest) args = map_option (\<lambda>t. pre @ t) (printf_text rest args)"
proof (induction pre)
  case (Cons c pre)
  then show ?case by (cases "pre @ rest") (auto simp: option.map_comp comp_def split: option.splits)
next
  case Nil
  then show ?case by (cases "printf_text rest args") simp_all
qed

subsection \<open>Properties\<close>

text \<open>C32: formatted output: on a transmitter that is ready when polled, serial_printf returns and
  sends exactly the text of the format, in order: strings as they are, integers in decimal, words in
  hexadecimal.\<close>

theorem serial_printf_sends:
  assumes "uart_ready d" "printf_text fmt args = Some t"
  shows "\<exists>d'. serial_printf fmt args d = Inr d' \<and> uart_ready d' \<and> sent d' = sent d @ t
    \<and> (\<forall>p. p \<noteq> 0x3F8 \<longrightarrow> written p (trace d') = written p (trace d))"
  using serial_printf_prints [OF assms(2)] assms(1) by (auto simp: prints_def uart_sends_def)

theorem serial_printf_sends_witness:
  "\<exists>d'. serial_printf (lit ''n=%d %s%%'') [Word (- 5), Str [111, 107]] \<lparr>dev = \<lambda>_ _. 0x60, trace = []\<rparr> = Inr d'
    \<and> uart_ready d' \<and> sent d' = lit ''n=-5 ok%''"
proof -
  let ?d = "\<lparr>dev = \<lambda>_ _. 0x60, trace = []\<rparr> :: io"
  have "printf_text (lit ''n=%d %s%%'') [Word (- 5), Str [111, 107]] = Some (lit ''n=-5 ok%'')"
    by (simp add: takes_arg_def int_text_def dec_text_def rdigits.simps)
  moreover have "uart_ready ?d" "sent ?d = []" by (simp_all add: uart_ready_def sent_def)
  ultimately show ?thesis using serial_printf_sends [of ?d] by fastforce
qed

text \<open>numbers survive printing: reading back what %d sends gives the argument as a signed int
  (except for the most negative one), and reading back what %x sends gives it as an unsigned one.\<close>

theorem serial_numbers_roundtrip:
  assumes "uart_ready d" "sint w \<noteq> - 2147483648"
  shows "\<exists>d1 d2 t1 t2. serial_printf [37, 100] [Word w] d = Inr d1 \<and> sent d1 = sent d @ t1 \<and> parse_dec t1 = sint w
    \<and> serial_printf [37, 120] [Word w] d = Inr d2 \<and> sent d2 = sent d @ t2 \<and> parse_hex t2 = unat w"
proof -
  have t: "printf_text [37, 100] [Word w] = Some (dec_text (sint w))" "printf_text [37, 120] [Word w] = Some (hex_text w)"
    using assms(2) by (simp_all add: takes_arg_def int_text_def)
  from serial_printf_step [OF assms(1) t(1)] obtain d1
    where "serial_printf [37, 100] [Word w] d = Inr d1" "uart_sends d (dec_text (sint w)) d1" .
  moreover from serial_printf_step [OF assms(1) t(2)] obtain d2
    where "serial_printf [37, 120] [Word w] d = Inr d2" "uart_sends d (hex_text w) d2" .
  ultimately show ?thesis
    by (intro exI [of _ d1] exI [of _ d2] exI [of _ "dec_text (sint w)"] exI [of _ "hex_text w"])
      (simp add: uart_sends_def parse_dec_text parse_hex_text)
qed

theorem serial_numbers_roundtrip_witness:
  "\<exists>d1 d2 t1 t2. serial_printf [37, 100] [Word (- 300)] \<lparr>dev = \<lambda>_ _. 0x20, trace = []\<rparr> = Inr d1
    \<and> sent d1 = [] @ t1 \<and> parse_dec t1 = - 300
    \<and> serial_printf [37, 120] [Word (- 300)] \<lparr>dev = \<lambda>_ _. 0x20, trace = []\<rparr> = Inr d2
    \<and> sent d2 = [] @ t2 \<and> parse_hex t2 = 4294966996"
proof -
  have "sint (- 300 :: u32) = - 300" "unat (- 300 :: u32) = 4294966996" by simp_all
  moreover have "uart_ready \<lparr>dev = \<lambda>_ _. 0x20, trace = []\<rparr>" "sent \<lparr>dev = \<lambda>_ _. 0x20, trace = []\<rparr> = []"
    by (simp_all add: uart_ready_def sent_def)
  ultimately show ?thesis
    using serial_numbers_roundtrip [of "\<lparr>dev = \<lambda>_ _. 0x20, trace = []\<rparr>" "- 300"] by simp
qed

text \<open>a transmitter that never reports ready hangs the kernel in the poll loop of the first
  character it prints: no output routine ever returns.\<close>

theorem serial_putchar_hangs:
  assumes "\<forall>h. (ucast (dev d h 0x3FD) :: u8) AND 0x20 = 0"
  shows "serial_putchar c d = Inl Hang \<and> (c \<noteq> 37 \<longrightarrow> serial_printf (c # fmt) args d = Inl Hang)"
  using wait_transmit_never [OF assms] by (cases fmt) (simp_all add: serial_putchar_def)

theorem serial_putchar_hangs_witness:
  "serial_printf (lit ''hi'') [] \<lparr>dev = \<lambda>_ _. 0, trace = []\<rparr> = Inl Hang"
  using serial_putchar_hangs [of "\<lparr>dev = \<lambda>_ _. 0, trace = []\<rparr>" 104 "[105]" "[]"] by simp

text \<open>formatted output has a meaning exactly when the format and the arguments agree: with a transmitter
  that gets ready, serial_printf comes back if and only if its text is defined, and is undefined otherwise: when the
  format ends in a percent sign, where the loop steps over the NUL and reads on, and when the next argument is missing
  or of the wrong type.\<close>

theorem serial_printf_undefined:
  assumes "uart_ready d"
  shows "((\<exists>d'. serial_printf fmt args d = Inr d') \<longleftrightarrow> printf_text fmt args \<noteq> None)
    \<and> ((\<exists>w. serial_printf fmt args d = Inl (Undef w)) \<longleftrightarrow> printf_text fmt args = None)
    \<and> printf_text [37] args = None \<and> (takes_arg k \<longrightarrow> printf_text (37 # k # fmt) [] = None)"
proof (cases "printf_text fmt args")
  case None
  then show ?thesis using serial_printf_none [OF None assms] by fastforce
next
  case (Some t)
  then obtain d' where "serial_printf fmt args d = Inr d'" using serial_printf_prints [OF Some] assms by (auto simp: prints_def)
  then show ?thesis using Some by simp
qed

theorem serial_printf_undefined_witness:
  "(\<exists>w. serial_printf (lit ''%d (%s)'') [Word 1] \<lparr>dev = \<lambda>_ _. 0x20, trace = []\<rparr> = Inl (Undef w))"
  using serial_printf_undefined [of "\<lparr>dev = \<lambda>_ _. 0x20, trace = []\<rparr>" "lit ''%d (%s)''" "[Word 1]"]
  by (simp add: uart_ready_def takes_arg_def)

end
