(* ===== verification/Queue.thy ===== *)
theory Queue
  imports Memory Serial
begin

section \<open>Ready queue\<close>

text \<open>
  \<^verbatim>\<open>kernel/sys/queue.c\<close>: an intrusive first-in first-out queue. A node is the address
  of a \<^verbatim>\<open>struct list_head\<close> (\<^verbatim>\<open>next\<close> at offset 0, \<^verbatim>\<open>prev\<close> at offset 4, which the
  queue never touches), a queue the address of its \<^verbatim>\<open>head\<close> and \<^verbatim>\<open>tail\<close> words; all of it lives
  in memory, so a node that is linked twice or shared with the queue's own words is visible. The state is
  memory and the serial port the error messages go to.
\<close>

type_synonym qstate = "mem \<times> io"

definition get_next :: "mem \<Rightarrow> u32 \<Rightarrow> u32" where "get_next m node = load32 m node"
definition set_next :: "mem \<Rightarrow> u32 \<Rightarrow> u32 \<Rightarrow> mem" where "set_next m node v = store32 m node v"
definition q_head :: "mem \<Rightarrow> u32 \<Rightarrow> u32" where "q_head m q = load32 m q"
definition q_tail :: "mem \<Rightarrow> u32 \<Rightarrow> u32" where "q_tail m q = load32 m (q + 4)"
definition set_head :: "mem \<Rightarrow> u32 \<Rightarrow> u32 \<Rightarrow> mem" where "set_head m q v = store32 m q v"
definition set_tail :: "mem \<Rightarrow> u32 \<Rightarrow> u32 \<Rightarrow> mem" where "set_tail m q v = store32 m (q + 4) v"

definition msg_enqueue :: string where
  "msg_enqueue = ''enqueue'' @ [CHR 0xE6, CHR 0x93, CHR 0x8D, CHR 0xE4, CHR 0xBD, CHR 0x9C, CHR 0xE5, CHR 0xA4, CHR 0xB1, CHR 0xE8, CHR 0xB4, CHR 0xA5] @ '','' @ [CHR 0xE6, CHR 0x8C, CHR 0x87, CHR 0xE9, CHR 0x92, CHR 0x88, CHR 0xE4, CHR 0xB8, CHR 0x8D, CHR 0xE8, CHR 0x83, CHR 0xBD, CHR 0xE4, CHR 0xB8, CHR 0xBA] @ ''NULL'' @ [CHR 0x0A]"

definition msg_dequeue :: string where
  "msg_dequeue = ''dequeue'' @ [CHR 0xE6, CHR 0x93, CHR 0x8D, CHR 0xE4, CHR 0xBD, CHR 0x9C, CHR 0xE5, CHR 0xA4, CHR 0xB1, CHR 0xE8, CHR 0xB4, CHR 0xA5] @ '','' @ [CHR 0xE6, CHR 0x8C, CHR 0x87, CHR 0xE9, CHR 0x92, CHR 0x88, CHR 0xE4, CHR 0xB8, CHR 0x8D, CHR 0xE8, CHR 0x83, CHR 0xBD, CHR 0xE4, CHR 0xB8, CHR 0xBA] @ ''NULL'' @ [CHR 0x0A]"

definition msg_queue_init :: string where
  "msg_queue_init = ''queue_init'' @ [CHR 0xE6, CHR 0x93, CHR 0x8D, CHR 0xE4, CHR 0xBD, CHR 0x9C, CHR 0xE5, CHR 0xA4, CHR 0xB1, CHR 0xE8, CHR 0xB4, CHR 0xA5] @ '','' @ [CHR 0xE6, CHR 0x8C, CHR 0x87, CHR 0xE9, CHR 0x92, CHR 0x88, CHR 0xE4, CHR 0xB8, CHR 0x8D, CHR 0xE8, CHR 0x83, CHR 0xBD, CHR 0xE4, CHR 0xB8, CHR 0xBA] @ ''NULL'' @ [CHR 0x0A]"

definition enqueue :: "u32 \<Rightarrow> u32 \<Rightarrow> qstate \<Rightarrow> qstate res" where
  "enqueue q node = (\<lambda>(m, d).
     if q = 0 \<or> node = 0 then bindR (serial_printf (lit msg_enqueue) [] d) (\<lambda>d. Inr (m, d))
     else (let m1 = set_next m node 0;
               m2 = (if q_tail m1 q = 0 then set_head m1 q node else set_next m1 (q_tail m1 q) node)
           in Inr (set_tail m2 q node, d)))"

definition dequeue :: "u32 \<Rightarrow> qstate \<Rightarrow> (u32 \<times> qstate) res" where
  "dequeue q = (\<lambda>(m, d).
     if q = 0 \<or> q_head m q = 0 then bindR (serial_printf (lit msg_dequeue) [] d) (\<lambda>d. Inr (0, (m, d)))
     else (let head = q_head m q;
               m1 = set_head m q (get_next m (q_head m q));
               m2 = set_next m1 head 0;
               m3 = (if q_head m2 q = 0 then set_tail m2 q 0 else m2)
           in Inr (head, (m3, d))))"

definition queue_empty :: "u32 \<Rightarrow> mem \<Rightarrow> bool" where
  "queue_empty q m \<longleftrightarrow> q = 0 \<or> q_head m q = 0"

definition queue_peek :: "u32 \<Rightarrow> mem \<Rightarrow> u32" where
  "queue_peek q m = (if queue_empty q m then 0 else q_head m q)"

definition queue_init :: "u32 \<Rightarrow> mem \<Rightarrow> mem" where
  "queue_init q m = (if q \<noteq> 0 then set_tail (set_head m q 0) q 0 else m)"

definition check_queue_init :: "u32 \<Rightarrow> qstate \<Rightarrow> (bool \<times> qstate) res" where
  "check_queue_init q = (\<lambda>(m, d).
     if q \<noteq> 0 then Inr (q_head m q = 0 \<and> q_tail m q = 0, (m, d))
     else bindR (serial_printf (lit msg_queue_init) [] d) (\<lambda>d. Inr (False, (m, d))))"

subsection \<open>The list a queue holds\<close>

text \<open>
  \<open>linked m p xs z\<close>: following \<^verbatim>\<open>next\<close> from \<open>p\<close> visits the nodes \<open>xs\<close> and ends at
  \<open>z\<close>. \<open>queue_rep\<close> is the representation invariant: the nodes are distinct aligned addresses
  apart from the words of the queue, \<^verbatim>\<open>head\<close> starts the chain and \<^verbatim>\<open>tail\<close> is its last node.
\<close>

fun linked :: "mem \<Rightarrow> u32 \<Rightarrow> u32 list \<Rightarrow> u32 \<Rightarrow> bool" where
  "linked m p [] z \<longleftrightarrow> p = z"
| "linked m p (x # xs) z \<longleftrightarrow> p = x \<and> linked m (get_next m x) xs z"

definition node_ok :: "u32 \<Rightarrow> u32 \<Rightarrow> bool" where
  "node_ok q x \<longleftrightarrow> x \<noteq> 0 \<and> aligned 2 x \<and> x \<noteq> q \<and> x \<noteq> q + 4"

definition queue_rep :: "u32 \<Rightarrow> mem \<Rightarrow> u32 list \<Rightarrow> bool" where
  "queue_rep q m xs \<longleftrightarrow> q \<noteq> 0 \<and> aligned 2 q \<and> distinct xs \<and> (\<forall>x \<in> set xs. node_ok q x)
    \<and> linked m (q_head m q) xs 0 \<and> q_tail m q = (if xs = [] then 0 else last xs)"

lemma linked_append: "linked m p (xs @ ys) z \<longleftrightarrow> (\<exists>y. linked m p xs y \<and> linked m y ys z)"
  by (induction xs arbitrary: p) auto

lemma linked_cong: "(\<And>x. x \<in> set xs \<Longrightarrow> get_next m' x = get_next m x) \<Longrightarrow> linked m' p xs z = linked m p xs z"
  by (induction xs arbitrary: p) auto

lemma aligned_plus4: "aligned 2 q \<Longrightarrow> aligned 2 (q + 4)"
  by (rule aligned_add) (simp_all add: aligned_def)

lemma word_ops:
  assumes "aligned 2 q" "aligned 2 x" "aligned 2 y" "x \<noteq> q" "x \<noteq> q + 4"
  shows "get_next (set_next m x v) y = (if y = x then v else get_next m y)"
    and "q_head (set_next m x v) q = q_head m q" "q_tail (set_next m x v) q = q_tail m q"
    and "get_next (set_head m q v) x = get_next m x" "get_next (set_tail m q v) x = get_next m x"
    and "q_head (set_head m q v) q = v" "q_tail (set_head m q v) q = q_tail m q"
    and "q_head (set_tail m q v) q = q_head m q" "q_tail (set_tail m q v) q = v"
  using assms aligned_plus4 [OF assms(1)]
  by (simp_all add: get_next_def set_next_def q_head_def q_tail_def set_head_def set_tail_def)

subsection \<open>The interface of a first-in first-out queue\<close>

text \<open>
  \<open>fifo_run\<close> is any interleaving of entries (of nodes that are not queued at that moment) and exits;
  it records the nodes entered and the nodes that left, in order. The contract: the state represents a
  list, entering appends, leaving takes the front, and an exit from the empty queue returns \<open>none\<close>.
\<close>

inductive fifo_run ::
  "('n \<Rightarrow> 's \<Rightarrow> 's res) \<Rightarrow> ('s \<Rightarrow> ('n \<times> 's) res) \<Rightarrow> 'n \<Rightarrow> ('n \<Rightarrow> bool) \<Rightarrow> 's \<Rightarrow> 'n list \<Rightarrow> 'n list \<Rightarrow> 's \<Rightarrow> bool"
  for enq deq none node s0 where
  start: "fifo_run enq deq none node s0 [] [] s0"
| enter: "fifo_run enq deq none node s0 ins outs s \<Longrightarrow> node x \<Longrightarrow> x \<notin> set (drop (length outs) ins)
    \<Longrightarrow> enq x s = Inr s' \<Longrightarrow> fifo_run enq deq none node s0 (ins @ [x]) outs s'"
| leave: "fifo_run enq deq none node s0 ins outs s \<Longrightarrow> deq s = Inr (x, s') \<Longrightarrow> x \<noteq> none
    \<Longrightarrow> fifo_run enq deq none node s0 ins (outs @ [x]) s'"
| empty: "fifo_run enq deq none node s0 ins outs s \<Longrightarrow> deq s = Inr (none, s')
    \<Longrightarrow> fifo_run enq deq none node s0 ins outs s'"

inductive_cases fifo_run_startE: "fifo_run enq deq none node s0 [] outs s"

locale fifo =
  fixes rep :: "'s \<Rightarrow> 'n list \<Rightarrow> bool" and enq :: "'n \<Rightarrow> 's \<Rightarrow> 's res" and deq :: "'s \<Rightarrow> ('n \<times> 's) res"
    and none :: 'n and node :: "'n \<Rightarrow> bool"
  assumes enq_rep: "rep s xs \<Longrightarrow> node x \<Longrightarrow> x \<notin> set xs \<Longrightarrow> \<exists>s'. enq x s = Inr s' \<and> rep s' (xs @ [x])"
    and deq_rep: "rep s (x # xs) \<Longrightarrow> \<exists>s'. deq s = Inr (x, s') \<and> rep s' xs \<and> x \<noteq> none"
    and deq_empty: "rep s [] \<Longrightarrow> \<exists>s'. deq s = Inr (none, s') \<and> rep s' []"
begin

lemma deq_cases:
  assumes "rep s xs" "deq s = Inr (x, s')"
  shows "if x = none then xs = [] \<and> rep s' [] else \<exists>ys. xs = x # ys \<and> rep s' ys"
  using assms deq_rep deq_empty by (cases xs) fastforce+

lemma fifo_run_order:
  assumes "fifo_run enq deq none node s0 ins outs s" "rep s0 []"
  shows "\<exists>cur. ins = outs @ cur \<and> rep s cur"
  using assms
proof (induction rule: fifo_run.induct)
  case (enter ins outs s x s')
  then obtain cur where cur: "ins = outs @ cur" "rep s cur" by blast
  then have "rep s' (cur @ [x])" using enq_rep [OF cur(2), of x] enter by auto
  then show ?case using cur(1) by auto
next
  case (leave ins outs s x s')
  then show ?case using deq_cases by fastforce
next
  case (empty ins outs s s')
  then show ?case using deq_cases by fastforce
qed simp

end

definition queue_state :: "u32 \<Rightarrow> qstate \<Rightarrow> u32 list \<Rightarrow> bool" where
  "queue_state q s xs \<longleftrightarrow> queue_rep q (fst s) xs \<and> uart_ready (snd s)"

lemma enqueue_rep:
  assumes "queue_rep q m xs" "node_ok q x" "x \<notin> set xs"
  shows "\<exists>m'. enqueue q x (m, d) = Inr (m', d) \<and> queue_rep q m' (xs @ [x])"
proof -
  have q: "q \<noteq> 0" "aligned 2 q" and x: "x \<noteq> 0" "aligned 2 x" "x \<noteq> q" "x \<noteq> q + 4"
    using assms by (simp_all add: queue_rep_def node_ok_def)
  note wx = word_ops [OF q(2) x(2) _ x(3,4)]
  have w0: "aligned 2 (0 :: u32)" by simp
  show ?thesis
  proof (cases xs rule: rev_cases)
    case Nil
    then have "q_tail m q = 0" using assms(1) by (simp add: queue_rep_def)
    then have "enqueue q x (m, d) = Inr (set_tail (set_head (set_next m x 0) q x) q x, d)"
      using q x wx(3) [OF w0] by (simp add: enqueue_def Let_def)
    moreover have "queue_rep q (set_tail (set_head (set_next m x 0) q x) q x) [x]"
      using q x assms(2) wx [OF x(2)] by (simp add: queue_rep_def)
    ultimately show ?thesis using Nil by simp
  next
    case (snoc ys t)
    have t: "t \<noteq> 0" "aligned 2 t" "t \<noteq> q" "t \<noteq> q + 4" "t \<noteq> x" "q_tail m q = t"
      using assms snoc by (auto simp: queue_rep_def node_ok_def)
    note wt = word_ops [OF q(2) t(2) _ t(3,4)]
    let ?m = "set_tail (set_next (set_next m x 0) t x) q x"
    have e: "enqueue q x (m, d) = Inr (?m, d)"
      using q x t wx(3) [OF w0] by (simp add: enqueue_def Let_def)
    have nx: "get_next ?m y = (if y = t then x else if y = x then 0 else get_next m y)"
      if "aligned 2 y" "y \<noteq> q" "y \<noteq> q + 4" for y
      using word_ops [OF q(2) that(1) that(1) that(2,3)] wt(1) [OF that(1)] wx(1) [OF that(1)] by simp
    have old: "linked m (q_head m q) ys t" using assms(1) snoc by (auto simp: queue_rep_def linked_append)
    have "linked ?m (q_head m q) ys t"
      by (subst linked_cong [of ys ?m m]) (use old nx assms(1,3) snoc in \<open>auto simp: queue_rep_def node_ok_def\<close>)
    moreover have "q_head ?m q = q_head m q" "q_tail ?m q = x"
      using wx(2,8,9) [OF w0] wt(2) [OF w0] by simp_all
    moreover have "get_next ?m t = x" "get_next ?m x = 0" using nx t x by simp_all
    ultimately have "queue_rep q ?m (xs @ [x])"
      using assms snoc by (auto simp: queue_rep_def linked_append)
    then show ?thesis using e by blast
  qed
qed

lemma dequeue_rep:
  assumes "queue_rep q m (x # xs)"
  shows "\<exists>m'. dequeue q (m, d) = Inr (x, (m', d)) \<and> queue_rep q m' xs \<and> get_next m' x = 0"
proof -
  have q: "q \<noteq> 0" "aligned 2 q" and x: "x \<noteq> 0" "aligned 2 x" "x \<noteq> q" "x \<noteq> q + 4" "q_head m q = x" "x \<notin> set xs"
    using assms by (auto simp: queue_rep_def node_ok_def)
  note wx = word_ops [OF q(2) x(2) _ x(3,4)]
  have w0: "aligned 2 (0 :: u32)" by simp
  let ?n = "get_next m x"
  let ?m2 = "set_next (set_head m q ?n) x 0"
  let ?m3 = "if ?n = 0 then set_tail ?m2 q 0 else ?m2"
  have n: "?n = 0 \<longleftrightarrow> xs = []"
    using assms by (cases xs) (auto simp: queue_rep_def node_ok_def)
  have h: "q_head ?m2 q = ?n" "q_tail ?m2 q = q_tail m q" using wx [OF w0] by simp_all
  then have "dequeue q (m, d) = Inr (x, (?m3, d))"
    using q x by (simp add: dequeue_def Let_def)
  moreover have nx: "get_next ?m3 y = (if y = x then 0 else get_next m y)" if "aligned 2 y" "y \<noteq> q" "y \<noteq> q + 4" for y
    using word_ops [OF q(2) that(1) that(1) that(2,3)] wx(1) [OF that(1)] wx [OF x(2)]
    by (cases "y = x") simp_all
  moreover have "q_head ?m3 q = ?n" "q_tail ?m3 q = (if xs = [] then 0 else last xs)"
    using h wx [OF w0] n assms by (simp_all add: queue_rep_def)
  moreover have "linked ?m3 ?n xs 0"
    by (subst linked_cong [of xs ?m3 m]) (use assms x nx in \<open>auto simp: queue_rep_def node_ok_def\<close>)
  ultimately have "dequeue q (m, d) = Inr (x, (?m3, d)) \<and> queue_rep q ?m3 xs \<and> get_next ?m3 x = 0"
    using assms x(2-4) by (simp add: queue_rep_def)
  then show ?thesis by blast
qed

interpretation ready: fifo "queue_state q" "enqueue q" "dequeue q" 0 "node_ok q" for q
proof
  fix s xs x
  assume "queue_state q s xs" "node_ok q x" "x \<notin> set xs"
  then show "\<exists>s'. enqueue q x s = Inr s' \<and> queue_state q s' (xs @ [x])"
    using enqueue_rep [of q "fst s" xs x "snd s"] by (auto simp: queue_state_def)
next
  fix s x xs
  assume "queue_state q s (x # xs)"
  then show "\<exists>s'. dequeue q s = Inr (x, s') \<and> queue_state q s' xs \<and> x \<noteq> 0"
    using dequeue_rep [of q "fst s" x xs "snd s"] by (auto simp: queue_state_def queue_rep_def node_ok_def)
next
  fix s
  assume s: "queue_state q s []"
  then have "uart_ready (snd s)" by (simp add: queue_state_def)
  moreover have "printf_text (lit msg_dequeue) [] = Some (lit msg_dequeue)" by (simp add: msg_dequeue_def)
  ultimately obtain d' where "serial_printf (lit msg_dequeue) [] (snd s) = Inr d'" "uart_ready d'"
    using serial_printf_prints unfolding prints_def by blast
  then show "\<exists>s'. dequeue q s = Inr (0, s') \<and> queue_state q s' []"
    using s by (cases s) (auto simp: dequeue_def queue_state_def queue_rep_def)
qed

subsection \<open>Properties\<close>

text \<open>C30: the ready queue is first-in first-out: from an empty queue, after any interleaving of
  entries of nodes that are not queued and of exits, the nodes that left are exactly the first nodes
  entered, in order, and the queue holds the rest.\<close>

theorem queue_is_fifo:
  assumes "queue_rep q m []" "uart_ready d"
    and "fifo_run (enqueue q) (dequeue q) 0 (node_ok q) (m, d) ins outs s"
  shows "\<exists>cur. ins = outs @ cur \<and> queue_rep q (fst s) cur
    \<and> queue_peek q (fst s) = (case cur of [] \<Rightarrow> 0 | x # _ \<Rightarrow> x)"
proof -
  obtain cur where "ins = outs @ cur" "queue_rep q (fst s) cur"
    using ready.fifo_run_order [OF assms(3)] assms(1,2) by (auto simp: queue_state_def)
  moreover from this(2) have "queue_peek q (fst s) = (case cur of [] \<Rightarrow> 0 | x # _ \<Rightarrow> x)"
    by (cases cur) (auto simp: queue_rep_def queue_peek_def queue_empty_def)
  ultimately show ?thesis by blast
qed

theorem queue_is_fifo_witness:
  "\<exists>s cur. fifo_run (enqueue 64) (dequeue 64) 0 (node_ok 64) (queue_init 64 (\<lambda>_. 7), \<lparr>dev = \<lambda>_ _. 0x20, trace = []\<rparr>)
      [128, 256] [128] s \<and> [128, 256] = [128] @ cur \<and> queue_rep 64 (fst s) cur
    \<and> queue_peek 64 (fst s) = (case cur of [] \<Rightarrow> 0 | x # _ \<Rightarrow> x)"
proof -
  let ?d = "\<lparr>dev = \<lambda>_ _. 0x20, trace = []\<rparr> :: io"
  have al: "aligned 2 64" "aligned 2 128" "aligned 2 256" by (simp_all add: aligned_def)
  have init: "queue_rep 64 (queue_init 64 (\<lambda>_. 7)) []" and d: "uart_ready ?d"
    using word_ops [OF al(1,2,2)] al(1) by (simp_all add: queue_init_def queue_rep_def uart_ready_def)
  have n: "node_ok 64 128" "node_ok 64 256" using al by (simp_all add: node_ok_def)
  obtain m1 where m1: "enqueue 64 128 (queue_init 64 (\<lambda>_. 7), ?d) = Inr (m1, ?d)" "queue_rep 64 m1 [128]"
    using enqueue_rep [OF init n(1)] by force
  obtain m2 where m2: "enqueue 64 256 (m1, ?d) = Inr (m2, ?d)" "queue_rep 64 m2 [128, 256]"
    using enqueue_rep [OF m1(2) n(2)] by force
  obtain m3 where m3: "dequeue 64 (m2, ?d) = Inr (128, (m3, ?d))" using dequeue_rep [OF m2(2)] by blast
  note r0 = fifo_run.start [of "enqueue 64" "dequeue 64" 0 "node_ok 64" "(queue_init 64 (\<lambda>_. 7), ?d)"]
  have run: "fifo_run (enqueue 64) (dequeue 64) 0 (node_ok 64) (queue_init 64 (\<lambda>_. 7), ?d) [128, 256] [128] (m3, ?d)"
    using fifo_run.leave [OF fifo_run.enter [OF fifo_run.enter [OF r0 n(1) _ m1(1)] n(2) _ m2(1)] m3] by simp
  then show ?thesis using queue_is_fifo [OF init d run] by blast
qed

end
