(* ===== verification/StringLib.thy ===== *)
theory StringLib
  imports Memory Decimal "HOL-Library.Sublist"
begin

section \<open>The kernel's string library\<close>

text \<open>
  \<^verbatim>\<open>lib/string.c\<close> and the inline \<^verbatim>\<open>strlen\<close> of \<^verbatim>\<open>include/string.h\<close>
  over the flat memory, so that overlapping arguments mean what they mean in C. A function
  returns the C result and the memory after the call. Loops that count a \<^verbatim>\<open>size_t\<close> down
  recurse on the number of iterations left; a loop that runs until it meets a NUL byte is a
  partial function, \<open>None\<close> when memory holds no NUL byte on its way.

  The lemmas give the memory after every call at every address (so the frame is part of the
  result), the string each operation leaves at its destination, and the decimal text of
  \<^verbatim>\<open>int_to_str\<close>.
\<close>

subsection \<open>Blocks and C strings in memory\<close>

text \<open>The bytes \<open>bs\<close>, none of them NUL, stand at \<open>p\<close> and a NUL byte follows.\<close>

primrec cstr :: "mem \<Rightarrow> u32 \<Rightarrow> u8 list \<Rightarrow> bool" where
  "cstr m p [] \<longleftrightarrow> m p = 0"
| "cstr m p (b # bs) \<longleftrightarrow> b \<noteq> 0 \<and> m p = b \<and> cstr m (p + 1) bs"

subsection \<open>memset, memcpy, memmove, memcmp\<close>

primrec memset_loop :: "mem \<Rightarrow> u32 \<Rightarrow> u8 \<Rightarrow> nat \<Rightarrow> mem" where
  "memset_loop m temp v 0 = m"
| "memset_loop m temp v (Suc n) = memset_loop (m(temp := v)) (temp + 1) v n"

definition memset :: "mem \<Rightarrow> u32 \<Rightarrow> int \<Rightarrow> u32 \<Rightarrow> u32 \<times> mem" where
  "memset m dst val count =
     (if dst = 0 then (0, m) else (dst, memset_loop m dst (word_of_int val) (unat count)))"

primrec copy_up :: "mem \<Rightarrow> u32 \<Rightarrow> u32 \<Rightarrow> nat \<Rightarrow> mem" where
  "copy_up m d s 0 = m"
| "copy_up m d s (Suc n) = copy_up (m(d := m s)) (d + 1) (s + 1) n"

primrec copy_down :: "mem \<Rightarrow> u32 \<Rightarrow> u32 \<Rightarrow> nat \<Rightarrow> mem" where
  "copy_down m d s 0 = m"
| "copy_down m d s (Suc n) = copy_down (m(d - 1 := m (s - 1))) (d - 1) (s - 1) n"

definition memcpy :: "mem \<Rightarrow> u32 \<Rightarrow> u32 \<Rightarrow> u32 \<Rightarrow> u32 \<times> mem" where
  "memcpy m dst src count =
     (if dst = 0 \<or> src = 0 then (0, m)
      else if count = 0 then (dst, m)
      else (dst, copy_up m dst src (unat count)))"

definition memmove :: "mem \<Rightarrow> u32 \<Rightarrow> u32 \<Rightarrow> u32 \<Rightarrow> u32 \<times> mem" where
  "memmove m dst src count =
     (if dst = 0 \<or> src = 0 then (0, m)
      else if count = 0 \<or> dst = src then (dst, m)
      else if dst < src then (dst, copy_up m dst src (unat count))
      else (dst, copy_down m (dst + count) (src + count) (unat count)))"

primrec memcmp_loop :: "mem \<Rightarrow> u32 \<Rightarrow> u32 \<Rightarrow> nat \<Rightarrow> int" where
  "memcmp_loop m p1 p2 0 = 0"
| "memcmp_loop m p1 p2 (Suc n) =
     (if m p1 \<noteq> m p2 then (if m p1 < m p2 then -1 else 1)
      else memcmp_loop m (p1 + 1) (p2 + 1) n)"

definition memcmp :: "mem \<Rightarrow> u32 \<Rightarrow> u32 \<Rightarrow> u32 \<Rightarrow> int" where
  "memcmp m ptr1 ptr2 count =
     (if ptr1 = 0 \<or> ptr2 = 0 then -1
      else if count = 0 then 0
      else memcmp_loop m ptr1 ptr2 (unat count))"

subsection \<open>strlen, reverse_str, int_to_str\<close>

partial_function (option) strlen_loop :: "mem \<Rightarrow> u32 \<Rightarrow> u32 \<Rightarrow> u32 option" where
  "strlen_loop m str len = (if m (str + len) \<noteq> 0 then strlen_loop m str (len + 1) else Some len)"

definition strlen :: "mem \<Rightarrow> u32 \<Rightarrow> u32 option" where
  "strlen m str = strlen_loop m str 0"

function reverse_loop :: "mem \<Rightarrow> u32 \<Rightarrow> nat \<Rightarrow> nat \<Rightarrow> mem" where
  "reverse_loop m str len i =
     (if i < len div 2 then
        (let temp = m (str + of_nat i);
             m1 = m(str + of_nat i := m (str + of_nat (len - 1 - i)));
             m2 = m1(str + of_nat (len - 1 - i) := temp)
         in reverse_loop m2 str len (Suc i))
      else m)"
  by pat_completeness auto
termination
  by (relation "measure (\<lambda>(m, str, len, i). len div 2 - i)") auto

declare reverse_loop.simps [simp del]

definition reverse_str :: "mem \<Rightarrow> u32 \<Rightarrow> mem option" where
  "reverse_str m str =
     (case strlen_loop m str 0 of None \<Rightarrow> None
      | Some len \<Rightarrow> Some (reverse_loop m str (unat len) 0))"

function itoa_loop :: "mem \<Rightarrow> u32 \<Rightarrow> int \<Rightarrow> nat \<Rightarrow> mem \<times> nat" where
  "itoa_loop m buffer num i =
     (if 0 < num then
        itoa_loop (m(buffer + of_nat i := 48 + word_of_int (num mod 10))) buffer (num div 10) (Suc i)
      else (m, i))"
  by pat_completeness auto
termination
  by (relation "measure (\<lambda>(m, buffer, num, i). nat num)") auto

declare itoa_loop.simps [simp del]

definition int_to_str :: "mem \<Rightarrow> int \<Rightarrow> u32 \<Rightarrow> mem option" where
  "int_to_str m num buffer =
     (if num = 0 then Some (m(buffer := 48, buffer + 1 := 0))
      else
        (let is_negative = num < 0;
             num1 = (if is_negative then wrap32 (- num) else num);
             (m1, i) = itoa_loop m buffer num1 0;
             (m2, j) = (if is_negative then (m1(buffer + of_nat i := 45), Suc i) else (m1, i));
             m3 = m2(buffer + of_nat j := 0)
         in reverse_str m3 buffer))"

subsection \<open>strcpy, strncpy, strcat, strncat\<close>

partial_function (option) strcpy_loop :: "mem \<Rightarrow> u32 \<Rightarrow> u32 \<Rightarrow> mem option" where
  "strcpy_loop m dst src =
     (let c = m src; m' = m(dst := c)
      in if c \<noteq> 0 then strcpy_loop m' (dst + 1) (src + 1) else Some m')"

definition strcpy :: "mem \<Rightarrow> u32 \<Rightarrow> u32 \<Rightarrow> (u32 \<times> mem) option" where
  "strcpy m dst src = map_option (\<lambda>m'. (dst, m')) (strcpy_loop m dst src)"

fun strncpy_copy :: "mem \<Rightarrow> u32 \<Rightarrow> u32 \<Rightarrow> nat \<Rightarrow> mem \<times> u32 \<times> nat" where
  "strncpy_copy m d s 0 = (m, d, 0)"
| "strncpy_copy m d s (Suc n) =
     (if m s \<noteq> 0 then strncpy_copy (m(d := m s)) (d + 1) (s + 1) n else (m, d, Suc n))"

primrec strncpy_pad :: "mem \<Rightarrow> u32 \<Rightarrow> nat \<Rightarrow> mem" where
  "strncpy_pad m d 0 = m"
| "strncpy_pad m d (Suc n) = strncpy_pad (m(d := 0)) (d + 1) n"

definition strncpy :: "mem \<Rightarrow> u32 \<Rightarrow> u32 \<Rightarrow> u32 \<Rightarrow> u32 \<times> mem" where
  "strncpy m dst src n =
     (let (m1, d, k) = strncpy_copy m dst src (unat n) in (dst, strncpy_pad m1 d k))"

partial_function (option) str_end :: "mem \<Rightarrow> u32 \<Rightarrow> u32 option" where
  "str_end m dst = (if m dst \<noteq> 0 then str_end m (dst + 1) else Some dst)"

definition strcat :: "mem \<Rightarrow> u32 \<Rightarrow> u32 \<Rightarrow> (u32 \<times> mem) option" where
  "strcat m dst src =
     (case str_end m dst of None \<Rightarrow> None
      | Some e \<Rightarrow> map_option (\<lambda>m'. (dst, m')) (strcpy_loop m e src))"

primrec strncat_loop :: "mem \<Rightarrow> u32 \<Rightarrow> u32 \<Rightarrow> nat \<Rightarrow> mem \<times> u32" where
  "strncat_loop m dst src 0 = (m, dst)"
| "strncat_loop m dst src (Suc n) =
     (let c = m src; m' = m(dst := c)
      in if c \<noteq> 0 then strncat_loop m' (dst + 1) (src + 1) n else (m', dst + 1))"

definition strncat :: "mem \<Rightarrow> u32 \<Rightarrow> u32 \<Rightarrow> u32 \<Rightarrow> (u32 \<times> mem) option" where
  "strncat m dst src n =
     (case str_end m dst of None \<Rightarrow> None
      | Some e \<Rightarrow> (let (m', d) = strncat_loop m e src (unat n) in Some (dst, m'(d := 0))))"

subsection \<open>strcmp, strncmp, strchr, strrchr, strstr\<close>

partial_function (option) strcmp :: "mem \<Rightarrow> u32 \<Rightarrow> u32 \<Rightarrow> int option" where
  "strcmp m s1 s2 =
     (if m s1 \<noteq> 0 \<and> m s1 = m s2 then strcmp m (s1 + 1) (s2 + 1)
      else Some (uint (m s1) - uint (m s2)))"

fun strncmp_loop :: "mem \<Rightarrow> u32 \<Rightarrow> u32 \<Rightarrow> nat \<Rightarrow> int" where
  "strncmp_loop m s1 s2 0 = uint (m s1) - uint (m s2)"
| "strncmp_loop m s1 s2 (Suc n) =
     (if 0 < n \<and> m s1 \<noteq> 0 \<and> m s1 = m s2 then strncmp_loop m (s1 + 1) (s2 + 1) n
      else uint (m s1) - uint (m s2))"

definition strncmp :: "mem \<Rightarrow> u32 \<Rightarrow> u32 \<Rightarrow> u32 \<Rightarrow> int" where
  "strncmp m s1 s2 n = (if n = 0 then 0 else strncmp_loop m s1 s2 (unat n))"

partial_function (option) strchr_loop :: "mem \<Rightarrow> u32 \<Rightarrow> u8 \<Rightarrow> u32 option" where
  "strchr_loop m s c =
     (if m s \<noteq> 0 then (if m s = c then Some s else strchr_loop m (s + 1) c)
      else Some (if m s = c then s else 0))"

definition strchr :: "mem \<Rightarrow> u32 \<Rightarrow> int \<Rightarrow> u32 option" where
  "strchr m s c = strchr_loop m s (word_of_int c)"

partial_function (option) strrchr_loop :: "mem \<Rightarrow> u32 \<Rightarrow> u8 \<Rightarrow> u32 \<Rightarrow> u32 option" where
  "strrchr_loop m s c lst =
     (if m s \<noteq> 0 then strrchr_loop m (s + 1) c (if m s = c then s else lst)
      else Some (if m s = c then s else lst))"

definition strrchr :: "mem \<Rightarrow> u32 \<Rightarrow> int \<Rightarrow> u32 option" where
  "strrchr m s c = strrchr_loop m s (word_of_int c) 0"

partial_function (option) strstr_match :: "mem \<Rightarrow> u32 \<Rightarrow> u32 \<Rightarrow> u32 option" where
  "strstr_match m h n =
     (if m h \<noteq> 0 \<and> m n \<noteq> 0 \<and> m h = m n then strstr_match m (h + 1) (n + 1) else Some n)"

partial_function (option) strstr_loop :: "mem \<Rightarrow> u32 \<Rightarrow> u32 \<Rightarrow> u32 option" where
  "strstr_loop m haystack needle =
     (if m haystack \<noteq> 0 then
        (case strstr_match m haystack needle of None \<Rightarrow> None
         | Some n \<Rightarrow> if m n = 0 then Some haystack else strstr_loop m (haystack + 1) needle)
      else Some 0)"

definition strstr :: "mem \<Rightarrow> u32 \<Rightarrow> u32 \<Rightarrow> u32 option" where
  "strstr m haystack needle =
     (if m needle = 0 then Some haystack else strstr_loop m haystack needle)"

subsection \<open>Memory after the block operations\<close>

lemma memset_loop_at:
  "n < 4294967296 \<Longrightarrow> memset_loop m p v n a = (if in_block p n a then v else m a)"
  by (induction n arbitrary: m p) (auto simp: in_block_Suc)

lemma copy_up_at:
  assumes "n < 4294967296" "d = s \<or> n \<le> unat (d - s)"
  shows "copy_up m d s n a = (if in_block d n a then m (s + (a - d)) else m a)"
  using assms
proof (induction n arbitrary: m d s)
  case (Suc n)
  let ?m = "m(d := m s)"
  have "copy_up ?m (d + 1) (s + 1) n a =
      (if in_block (d + 1) n a then ?m (s + 1 + (a - (d + 1))) else ?m a)"
    by (rule Suc.IH) (use Suc.prems in auto)
  moreover have "s + 1 + (a - (d + 1)) = s + (a - d)" by simp
  moreover have "s + (a - d) \<noteq> d" if "in_block (d + 1) n a" "d \<noteq> s"
  proof
    assume "s + (a - d) = d"
    then have eq: "d - s = a - d" by (simp add: algebra_simps)
    have "unat (a - d) < Suc n" using that Suc.prems in_block_Suc [of n d a] by (simp add: in_block_def)
    then have "unat (d - s) < Suc n" by (simp only: eq)
    then show False using Suc.prems that by simp
  qed
  moreover have "in_block d (Suc n) a \<longleftrightarrow> a = d \<or> in_block (d + 1) n a"
    using Suc.prems by (simp add: in_block_Suc)
  ultimately show ?case by (cases "d = s"; cases "a = d"; simp)
qed simp

lemma copy_down_at:
  assumes "n < 4294967296" "d = s \<or> n \<le> unat (s - d)"
  shows "copy_down m d s n a =
    (if in_block (d - of_nat n) n a then m (s - of_nat n + (a - (d - of_nat n))) else m a)"
  using assms
proof (induction n arbitrary: m d s)
  case (Suc n)
  let ?d = "d - 1 - of_nat n" and ?m = "m(d - 1 := m (s - 1))"
  have eq: "d - of_nat (Suc n) = ?d" "s - of_nat (Suc n) + (a - (d - of_nat (Suc n))) = s + (a - d)"
    "s - 1 - of_nat n + (a - ?d) = s + (a - d)" by simp_all
  have "copy_down ?m (d - 1) (s - 1) n a =
      (if in_block ?d n a then ?m (s - 1 - of_nat n + (a - ?d)) else ?m a)"
    by (rule Suc.IH) (use Suc.prems in auto)
  moreover have blk: "in_block ?d (Suc n) a \<longleftrightarrow> in_block ?d n a \<or> a = d - 1"
    using in_block_low [of n ?d a] Suc.prems by simp
  moreover have "s + (a - d) \<noteq> d - 1" if blk': "in_block ?d n a" and ne: "d \<noteq> s"
  proof
    assume "s + (a - d) = d - 1"
    then have *: "a = d - 1 - (s - d)" by (simp add: algebra_simps)
    obtain i where i: "i < n" "a = ?d + of_nat i"
      using blk' Suc.prems by (auto simp: in_block_iff)
    then have "s - d = of_nat n - of_nat i" using * by (simp add: algebra_simps)
    then have "unat (s - d) = n - i" using i Suc.prems by (simp add: unat_diff_of_nat)
    then show False using Suc.prems ne by simp
  qed
  ultimately show ?case unfolding eq by (cases "d = s"; cases "a = d - 1"; simp add: eq)
qed simp

lemma memmove_at:
  assumes "dst \<noteq> 0" "src \<noteq> 0" "unat dst + unat count \<le> 4294967296" "unat src + unat count \<le> 4294967296"
  shows "memmove m dst src count =
    (dst, \<lambda>a. if in_block dst (unat count) a then m (src + (a - dst)) else m a)"
proof -
  have c: "unat count < 4294967296" by (rule unat_lt_u32)
  consider "count = 0 \<or> dst = src" | "count \<noteq> 0" "dst < src" | "count \<noteq> 0" "src < dst"
    by fastforce
  then show ?thesis
  proof cases
    case 1
    then show ?thesis using assms by (auto simp: memmove_def fun_eq_iff)
  next
    case 2
    then have "unat (dst - src) = 4294967296 - (unat src - unat dst)"
      by (simp add: unat_sub_if' word_less_nat)
    then have "unat count \<le> unat (dst - src)" using assms 2 by (simp add: word_less_nat)
    then show ?thesis using assms 2 copy_up_at [OF c, of dst src m]
      by (simp add: memmove_def fun_eq_iff)
  next
    case 3
    then have "unat (src - dst) = 4294967296 - (unat dst - unat src)"
      by (simp add: unat_sub_if' word_less_nat)
    then have "unat count \<le> unat ((src + count) - (dst + count))" using assms 3
      by (simp add: word_less_nat)
    then show ?thesis using assms 3 copy_down_at [OF c, of "dst + count" "src + count" m]
      by (auto simp: memmove_def fun_eq_iff)
  qed
qed

lemma memcpy_at:
  assumes "dst \<noteq> 0" "src \<noteq> 0" "dst = src \<or> unat count \<le> unat (dst - src)"
  shows "memcpy m dst src count =
    (dst, \<lambda>a. if in_block dst (unat count) a then m (src + (a - dst)) else m a)"
  using assms copy_up_at [OF unat_lt_u32, of dst src count m]
  by (auto simp: memcpy_def fun_eq_iff)

lemma memset_at:
  "dst \<noteq> 0 \<Longrightarrow> memset m dst v count =
    (dst, \<lambda>a. if in_block dst (unat count) a then word_of_int v else m a)"
  by (simp add: memset_def fun_eq_iff memset_loop_at unat_lt_u32)

lemma memcmp_loop_spec:
  "memcmp_loop m p q n =
    (if read_bytes m p n = read_bytes m q n then 0
     else if ord_class.lexordp (read_bytes m p n) (read_bytes m q n) then -1 else 1)"
  by (induction n arbitrary: p q) (auto simp: ord_class.lexordp_simps)

subsection \<open>C strings\<close>

lemma cstr_nth: "cstr m p bs \<Longrightarrow> i < length bs \<Longrightarrow> m (p + of_nat i) = bs ! i \<and> bs ! i \<noteq> 0"
proof (induction bs arbitrary: p i)
  case (Cons b bs)
  show ?case
  proof (cases i)
    case (Suc k)
    then show ?thesis using Cons.IH [of "p + 1" k] Cons.prems by (simp add: add.assoc)
  qed (use Cons.prems in auto)
qed simp

lemma cstr_terminator: "cstr m p bs \<Longrightarrow> m (p + of_nat (length bs)) = 0"
proof (induction bs arbitrary: p)
  case (Cons b bs)
  then show ?case using Cons.IH [of "p + 1"] by (simp add: add.assoc)
qed simp

lemma cstr_length: "cstr m p bs \<Longrightarrow> length bs < 4294967296"
proof (rule ccontr)
  assume bs: "cstr m p bs" and "\<not> length bs < 4294967296"
  then obtain k where k: "length bs = k + 4294967296"
    by (metis le_add_diff_inverse2 not_less)
  then have "m (p + of_nat k) = 0" using cstr_terminator [OF bs] of_nat_u32_wrap [of k] by metis
  moreover have "k < length bs" using k by simp
  ultimately show False using cstr_nth [OF bs] by force
qed

lemma cstrI:
  assumes "\<And>i. i < length bs \<Longrightarrow> m (p + of_nat i) = bs ! i" "0 \<notin> set bs" "m (p + of_nat (length bs)) = 0"
  shows "cstr m p bs"
  using assms
proof (induction bs arbitrary: p)
  case (Cons b bs)
  have "cstr m (p + 1) bs"
  proof (rule Cons.IH)
    fix i assume "i < length bs"
    then show "m (p + 1 + of_nat i) = bs ! i" using Cons.prems(1) [of "Suc i"] by (simp add: add.assoc)
  next
    show "m (p + 1 + of_nat (length bs)) = 0" using Cons.prems(3) by (simp add: add.assoc)
  qed (use Cons.prems in simp)
  then show ?case using Cons.prems(1) [of 0] Cons.prems(2) by auto
qed simp

lemma cstr_nonzero: "cstr m p bs \<Longrightarrow> 0 \<notin> set bs"
  by (induction bs arbitrary: p) auto

lemma cstr_iff_read: "cstr m p bs \<longleftrightarrow> read_bytes m p (Suc (length bs)) = bs @ [0] \<and> 0 \<notin> set bs"
  by (induction bs arbitrary: p) auto

lemma cstr_cong:
  assumes "\<And>a. in_block p (Suc (length bs)) a \<Longrightarrow> m' a = m a" "cstr m p bs"
  shows "cstr m' p bs"
proof -
  have "Suc (length bs) \<le> 4294967296" using cstr_length [OF assms(2)] by simp
  then have "read_bytes m' p (Suc (length bs)) = read_bytes m p (Suc (length bs))"
    using assms(1) by (rule read_bytes_frame)
  then show ?thesis using assms(2) cstr_iff_read by metis
qed

lemma cstr_upd: "cstr m p bs \<Longrightarrow> \<not> in_block p (Suc (length bs)) d \<Longrightarrow> cstr (m(d := v)) p bs"
  by (rule cstr_cong) auto

lemma cstr_upd_same: "cstr m p bs \<Longrightarrow> v = m d \<Longrightarrow> cstr (m(d := v)) p bs"
  by simp

lemma cstr_unique: "cstr m p bs \<Longrightarrow> cstr m p bs' \<Longrightarrow> bs = bs'"
proof (induction bs arbitrary: p bs')
  case Nil
  then show ?case by (cases bs') auto
next
  case (Cons b bs)
  then show ?case by (cases bs') auto
qed

lemma cstr_drop: "cstr m p bs \<Longrightarrow> i \<le> length bs \<Longrightarrow> cstr m (p + of_nat i) (drop i bs)"
proof (induction bs arbitrary: p i)
  case (Cons b bs)
  show ?case
  proof (cases i)
    case (Suc k)
    then show ?thesis using Cons.IH [of "p + 1" k] Cons.prems by (simp add: add.assoc)
  qed (use Cons.prems in simp)
qed simp

lemma strlen_loop_cstr: "cstr m (str + len) bs \<Longrightarrow> strlen_loop m str len = Some (len + of_nat (length bs))"
proof (induction bs arbitrary: len)
  case Nil
  then show ?case by (simp add: strlen_loop.simps)
next
  case (Cons b bs)
  then show ?case by (subst strlen_loop.simps) (simp add: add.assoc)
qed

lemma str_end_cstr: "cstr m p bs \<Longrightarrow> str_end m p = Some (p + of_nat (length bs))"
proof (induction bs arbitrary: p)
  case Nil
  then show ?case by (simp add: str_end.simps)
next
  case (Cons b bs)
  then show ?case by (subst str_end.simps) (simp add: add.assoc)
qed

text \<open>The copy loop moves the terminator last, so it is a forward copy of \<open>length + 1\<close> bytes.\<close>

lemma cstr_after_copy:
  assumes "cstr m s (b # bs)" "d = s \<or> Suc (length (b # bs)) \<le> unat (d - s)"
  shows "cstr (m(d := m s)) (s + 1) bs"
proof (cases "d = s")
  case True
  then show ?thesis using assms by (auto simp: fun_upd_idem)
next
  case False
  then have "\<not> in_block (s + 1) (Suc (length bs)) d"
    using assms cstr_length [OF assms(1)] in_block_Suc [of "Suc (length bs)" s d]
    by (auto simp: in_block_def)
  then show ?thesis using assms by (intro cstr_upd) auto
qed

lemma strcpy_loop_cstr:
  assumes "cstr m s bs" "d = s \<or> Suc (length bs) \<le> unat (d - s)"
  shows "strcpy_loop m d s = Some (copy_up m d s (Suc (length bs)))"
  using assms
proof (induction bs arbitrary: m d s)
  case Nil
  then show ?case by (simp add: strcpy_loop.simps Let_def fun_eq_iff)
next
  case (Cons b bs)
  have "strcpy_loop (m(d := m s)) (d + 1) (s + 1) =
      Some (copy_up (m(d := m s)) (d + 1) (s + 1) (Suc (length bs)))"
    using cstr_after_copy [OF Cons.prems] by (rule Cons.IH) (use Cons.prems in auto)
  then show ?case using Cons.prems by (subst strcpy_loop.simps) (simp add: Let_def)
qed

lemma cstr_copied:
  assumes "cstr m s bs" "d = s \<or> Suc (length bs) \<le> unat (d - s)" "Suc (length bs) < 4294967296"
  shows "cstr (copy_up m d s (Suc (length bs))) d bs"
proof -
  have "read_bytes (copy_up m d s (Suc (length bs))) d (Suc (length bs)) = read_bytes m s (Suc (length bs))"
    by (rule read_bytes_cong) (use assms in \<open>simp add: copy_up_at in_blockI del: copy_up.simps\<close>)
  then show ?thesis using assms(1) cstr_iff_read by metis
qed

subsection \<open>strncpy, strcat, strncat\<close>

lemma strncpy_copy_cstr:
  assumes "cstr m s bs" "d = s \<or> Suc (length bs) \<le> unat (d - s)"
  shows "strncpy_copy m d s n =
    (copy_up m d s (min n (length bs)), d + of_nat (min n (length bs)), n - length bs)"
  using assms
proof (induction bs arbitrary: m d s n)
  case Nil
  then show ?case by (cases n) auto
next
  case (Cons b bs)
  have "cstr (m(d := m s)) (s + 1) bs"
    using cstr_after_copy [OF Cons.prems] .
  then have IH: "strncpy_copy (m(d := m s)) (d + 1) (s + 1) k =
     (copy_up (m(d := m s)) (d + 1) (s + 1) (min k (length bs)),
      d + 1 + of_nat (min k (length bs)), k - length bs)" for k
    by (rule Cons.IH) (use Cons.prems in auto)
  show ?case
  proof (cases n)
    case (Suc k)
    then show ?thesis using Cons.prems IH [of k] by (simp add: add.assoc)
  qed simp
qed

lemma strncpy_pad_eq: "strncpy_pad m d n = memset_loop m d 0 n"
  by (induction n arbitrary: m d) auto

lemma strncpy_cstr:
  assumes "cstr m src bs" "dst = src \<or> Suc (length bs) \<le> unat (dst - src)"
  shows "strncpy m dst src n =
    (dst, \<lambda>a. let k = min (unat n) (length bs) in
       if in_block dst k a then m (src + (a - dst))
       else if in_block dst (unat n) a then 0 else m a)"
proof -
  let ?k = "min (unat n) (length bs)"
  have k: "?k < 4294967296" using unat_lt_u32 [of n] by simp
  have n: "unat n - length bs < 4294967296" using unat_lt_u32 [of n] by simp
  have blk: "in_block (dst + of_nat ?k) (unat n - length bs) a \<and> \<not> in_block dst ?k a \<longleftrightarrow>
      in_block dst (unat n) a \<and> \<not> in_block dst ?k a" for a
  proof -
    have "unat n = ?k + (unat n - length bs)" by simp
    then show ?thesis using in_block_append [of ?k "unat n - length bs" dst a] unat_lt_u32 [of n]
      by auto
  qed
  have "copy_up m dst src ?k a = (if in_block dst ?k a then m (src + (a - dst)) else m a)" for a
    using k assms(2) by (intro copy_up_at) auto
  then show ?thesis using k n blk in_block_append_disjoint [of ?k "unat n - length bs" dst] unat_lt_u32 [of n]
    by (simp add: strncpy_def strncpy_copy_cstr [OF assms] strncpy_pad_eq fun_eq_iff memset_loop_at Let_def)
       fastforce
qed

lemma strncpy_read:
  assumes "cstr m src bs" "dst = src \<or> Suc (length bs) \<le> unat (dst - src)"
  shows "read_bytes (snd (strncpy m dst src n)) dst (unat n) =
    take (unat n) bs @ replicate (unat n - length bs) 0"
proof (rule nth_equalityI)
  fix i assume "i < length (read_bytes (snd (strncpy m dst src n)) dst (unat n))"
  then have i: "i < unat n" by simp
  then have i': "i < 4294967296" using unat_lt_u32 [of n] by simp
  then have "unat (dst + of_nat i - dst) = i" by (simp add: unat_of_nat_u32)
  then show "read_bytes (snd (strncpy m dst src n)) dst (unat n) ! i =
     (take (unat n) bs @ replicate (unat n - length bs) 0) ! i"
    using i cstr_nth [OF assms(1), of i]
    by (simp add: strncpy_cstr [OF assms] read_bytes_nth in_block_def nth_append Let_def)
qed simp

lemma strcat_cstr:
  assumes "cstr m dst ds" "cstr m src bs"
    and "dst + of_nat (length ds) = src \<or> Suc (length bs) \<le> unat (dst + of_nat (length ds) - src)"
  shows "strcat m dst src = Some (dst, copy_up m (dst + of_nat (length ds)) src (Suc (length bs)))"
  using assms by (simp add: strcat_def str_end_cstr strcpy_loop_cstr del: copy_up.simps)

text \<open>Two adjacent pieces make one string.\<close>

lemma cstr_append:
  assumes "\<And>i. i < length ds \<Longrightarrow> m (p + of_nat i) = ds ! i" "0 \<notin> set ds"
    and "cstr m (p + of_nat (length ds)) bs"
  shows "cstr m p (ds @ bs)"
  using assms
proof (induction ds arbitrary: p)
  case (Cons d ds)
  have "cstr m (p + 1) (ds @ bs)"
  proof (rule Cons.IH)
    fix i assume "i < length ds"
    then show "m (p + 1 + of_nat i) = ds ! i" using Cons.prems(1) [of "Suc i"] by (simp add: add.assoc)
  qed (use Cons.prems in \<open>simp_all add: add.assoc\<close>)
  then show ?case using Cons.prems(1) [of 0] Cons.prems(2) by auto
qed simp

lemma strncat_loop_cstr:
  assumes "cstr m s bs" "d = s \<or> Suc (length bs) \<le> unat (d - s)"
  shows "strncat_loop m d s n =
    (let k = (if n \<le> length bs then n else Suc (length bs)) in (copy_up m d s k, d + of_nat k))"
  using assms
proof (induction bs arbitrary: m d s n)
  case Nil
  then show ?case by (cases n) (auto simp: Let_def fun_eq_iff)
next
  case (Cons b bs)
  have IH: "strncat_loop (m(d := m s)) (d + 1) (s + 1) k =
     (let k = (if k \<le> length bs then k else Suc (length bs)) in
       (copy_up (m(d := m s)) (d + 1) (s + 1) k, d + 1 + of_nat k))" for k
    using cstr_after_copy [OF Cons.prems] by (rule Cons.IH) (use Cons.prems in auto)
  show ?case
  proof (cases n)
    case (Suc k)
    then show ?thesis using Cons.prems IH [of k] by (simp add: Let_def add.assoc)
  qed simp
qed

subsection \<open>strcmp, strncmp\<close>

text \<open>The difference of the first bytes in which the terminated strings differ, 0 for equal strings.\<close>

fun str_diff :: "u8 list \<Rightarrow> u8 list \<Rightarrow> int" where
  "str_diff [] [] = 0"
| "str_diff [] (b # bs) = - uint b"
| "str_diff (a # as) [] = uint a"
| "str_diff (a # as) (b # bs) = (if a = b then str_diff as bs else uint a - uint b)"

lemma strcmp_cstr:
  assumes "cstr m s1 as" "cstr m s2 bs"
  shows "strcmp m s1 s2 = Some (str_diff as bs)"
  using assms
proof (induction as bs arbitrary: s1 s2 rule: str_diff.induct)
  case (4 a as b bs)
  then show ?case by (subst strcmp.simps) auto
qed (auto simp: strcmp.simps)

lemma uint_pos: "a \<noteq> 0 \<Longrightarrow> 0 < uint (a::u8)"
  by (metis less_eq_int_code(1) linorder_not_le uint_0_iff unsigned_greater_eq order_antisym)

lemma str_diff_0_iff: "0 \<notin> set as \<Longrightarrow> 0 \<notin> set bs \<Longrightarrow> str_diff as bs = 0 \<longleftrightarrow> as = bs"
  by (induction as bs rule: str_diff.induct) (auto simp: uint_0_iff dest: word_uint_eqI)

lemma str_diff_neg_iff:
  "0 \<notin> set as \<Longrightarrow> 0 \<notin> set bs \<Longrightarrow> str_diff as bs < 0 \<longleftrightarrow> ord_class.lexordp as bs"
  by (induction as bs rule: str_diff.induct)
     (auto simp: ord_class.lexordp_simps word_less_def uint_pos uint_0_iff not_less order.strict_iff_order dest: word_uint_eqI)

lemma strncmp_loop_cstr:
  assumes "cstr m s1 as" "cstr m s2 bs"
  shows "strncmp_loop m s1 s2 (Suc n) = str_diff (take (Suc n) as) (take (Suc n) bs)"
  using assms
proof (induction as bs arbitrary: s1 s2 n rule: str_diff.induct)
  case (4 a as b bs)
  then show ?case by (cases n) auto
qed auto

subsection \<open>strchr, strrchr, strstr\<close>

lemma strchr_loop_cstr:
  assumes "cstr m s bs"
  shows "strchr_loop m s c = Some
    (if c = 0 then s + of_nat (length bs)
     else if c \<in> set bs then s + of_nat (length (takeWhile (\<lambda>b. b \<noteq> c) bs)) else 0)"
  using assms
proof (induction bs arbitrary: s)
  case Nil
  then show ?case by (simp add: strchr_loop.simps)
next
  case (Cons b bs)
  then show ?case by (subst strchr_loop.simps) (auto simp: add.assoc)
qed

lemma strrchr_loop_cstr:
  assumes "cstr m s bs"
  shows "strrchr_loop m s c lst = Some
    (if c = 0 then s + of_nat (length bs)
     else if c \<in> set bs then s + of_nat (length bs - 1 - length (takeWhile (\<lambda>b. b \<noteq> c) (rev bs)))
     else lst)"
  using assms
proof (induction bs arbitrary: s lst)
  case Nil
  then show ?case by (simp add: strrchr_loop.simps)
next
  case (Cons b bs)
  have *: "c \<in> set bs \<Longrightarrow> length (takeWhile (\<lambda>b. b \<noteq> c) (rev bs)) < length bs"
    by (metis (mono_tags, lifting) length_rev set_rev takeWhile_eq_all_conv length_takeWhile_le
        le_neq_implies_less takeWhile_eq_take take_all_iff)
  show ?case
  proof (cases "c \<in> set bs")
    case True
    have "takeWhile (\<lambda>b. b \<noteq> c) (rev bs @ [b]) = takeWhile (\<lambda>b. b \<noteq> c) (rev bs)"
      using True by (intro takeWhile_append1) auto
    moreover have "Suc (length bs - Suc (length (takeWhile (\<lambda>b. b \<noteq> c) (rev bs)))) =
        length bs - length (takeWhile (\<lambda>b. b \<noteq> c) (rev bs))"
      using * [OF True] by simp
    ultimately show ?thesis using True Cons
      by (subst strrchr_loop.simps) (auto simp: add.assoc)
  next
    case False
    then have "takeWhile (\<lambda>b. b \<noteq> c) (rev bs @ [b]) =
        rev bs @ takeWhile (\<lambda>b. b \<noteq> c) [b]"
      by (intro takeWhile_append2) auto
    then show ?thesis using False Cons by (subst strrchr_loop.simps) (auto simp: add.assoc)
  qed
qed

lemma strstr_match_cstr:
  assumes "cstr m h bs" "cstr m n ns"
  shows "\<exists>r. strstr_match m h n = Some r \<and> (m r = 0 \<longleftrightarrow> prefix ns bs)"
  using assms
proof (induction ns arbitrary: h n bs)
  case Nil
  then show ?case by (simp add: strstr_match.simps)
next
  case (Cons x ns)
  show ?case
  proof (cases bs)
    case Nil
    then show ?thesis using Cons.prems by (simp add: strstr_match.simps)
  next
    case (Cons b bs')
    then show ?thesis
      using Cons.prems Cons.IH [of "h + 1" bs' "n + 1"] by (subst strstr_match.simps) auto
  qed
qed

lemma strstr_loop_cstr:
  assumes "cstr m h bs" "cstr m n ns" "ns \<noteq> []"
  shows "strstr_loop m h n = Some
    (if sublist ns bs then h + of_nat (LEAST i. prefix ns (drop i bs)) else 0)"
  using assms
proof (induction bs arbitrary: h)
  case Nil
  then show ?case by (simp add: strstr_loop.simps)
next
  case (Cons b bs)
  obtain r where r: "strstr_match m h n = Some r" "m r = 0 \<longleftrightarrow> prefix ns (b # bs)"
    using strstr_match_cstr [OF Cons.prems(1,2)] by blast
  show ?case
  proof (cases "prefix ns (b # bs)")
    case True
    then have "(LEAST i. prefix ns (drop i (b # bs))) = 0" by (intro Least_eq_0) simp
    then show ?thesis using True r Cons.prems
      by (subst strstr_loop.simps) (auto simp: prefix_imp_sublist)
  next
    case False
    have IH: "strstr_loop m (h + 1) n = Some
      (if sublist ns bs then h + 1 + of_nat (LEAST i. prefix ns (drop i bs)) else 0)"
      by (rule Cons.IH) (use Cons.prems in auto)
    have "sublist ns (b # bs) \<longleftrightarrow> sublist ns bs" using False by (simp add: sublist_Cons_right)
    moreover have "(LEAST i. prefix ns (drop i (b # bs))) = Suc (LEAST i. prefix ns (drop i bs))"
      if sub: "sublist ns bs"
    proof -
      obtain us vs where "bs = us @ ns @ vs" using sub by (auto simp: sublist_def)
      then have "prefix ns (drop (Suc (length us)) (b # bs))" by simp
      then show ?thesis using False by (subst Least_Suc [of _ "Suc (length us)"]) auto
    qed
    ultimately show ?thesis using False r IH Cons.prems
      by (subst strstr_loop.simps) (auto simp: add.assoc)
  qed
qed

subsection \<open>reverse_str\<close>

text \<open>
  From step \<open>i\<close> on, the loop mirrors the bytes between positions \<open>i\<close> and \<open>len - i\<close> and
  leaves the rest of memory alone.
\<close>

lemma reverse_loop_at:
  assumes "j < len" "len \<le> 4294967296"
  shows "reverse_loop m str len i (str + of_nat j) =
    (if i \<le> j \<and> j < len - i then m (str + of_nat (len - 1 - j)) else m (str + of_nat j))"
  using assms
proof (induction m str len i rule: reverse_loop.induct)
  case (1 m str len i)
  show ?case
  proof (cases "i < len div 2")
    case True
    let ?m = "m(str + of_nat i := m (str + of_nat (len - 1 - i)),
      str + of_nat (len - 1 - i) := m (str + of_nat i))"
    have IH: "reverse_loop ?m str len (Suc i) (str + of_nat j) =
      (if Suc i \<le> j \<and> j < len - Suc i then ?m (str + of_nat (len - 1 - j)) else ?m (str + of_nat j))"
      by (rule "1.IH" [OF True refl refl refl]) (use "1.prems" in auto)
    have eqs: "str + (of_nat k :: u32) = str + of_nat i \<longleftrightarrow> k = i"
      "str + (of_nat k :: u32) = str + of_nat (len - 1 - i) \<longleftrightarrow> k = len - 1 - i" if "k < len" for k
      using that "1.prems" True by (simp_all add: of_nat_inj_u32 del: of_nat_diff)
    have "reverse_loop m str len i = reverse_loop ?m str len (Suc i)"
      using True by (subst reverse_loop.simps) (simp add: Let_def)
    then have "reverse_loop m str len i (str + of_nat j) =
      (if Suc i \<le> j \<and> j < len - Suc i then ?m (str + of_nat (len - 1 - j)) else ?m (str + of_nat j))"
      using IH by simp
    also have "\<dots> = (if i \<le> j \<and> j < len - i then m (str + of_nat (len - 1 - j)) else m (str + of_nat j))"
    proof -
      consider "j = i" | "j = len - 1 - i" "j \<noteq> i" | "Suc i \<le> j \<and> j < len - Suc i" | "j < i \<or> len - i \<le> j"
        using True "1.prems"(1) by linarith
      then show ?thesis
      proof cases
        case 1
        then have "\<not> Suc i \<le> j" "i \<le> j \<and> j < len - i" "i \<noteq> len - 1 - i" using True by linarith+
        then show ?thesis using 1 eqs [of j] "1.prems" by (simp del: of_nat_diff)
      next
        case 2
        then have "len - 1 - j = i" "i \<le> j \<and> j < len - i" "\<not> j < len - Suc i" using True by linarith+
        then show ?thesis using 2 eqs [of j] "1.prems" by (simp del: of_nat_diff)
      next
        case 3
        then have "len - 1 - j \<noteq> i" "len - 1 - j \<noteq> len - 1 - i" "len - 1 - j < len" "i \<le> j \<and> j < len - i"
          using True "1.prems" by linarith+
        then show ?thesis using 3 eqs [of "len - 1 - j"] by (simp del: of_nat_diff)
      next
        case 4
        then have "\<not> (Suc i \<le> j \<and> j < len - Suc i)" "\<not> (i \<le> j \<and> j < len - i)" "j \<noteq> i" "j \<noteq> len - 1 - i"
          using True "1.prems" by linarith+
        then show ?thesis using eqs [of j] "1.prems"
          by (simp only: if_False fun_upd_apply not_False_eq_True)
      qed
    qed
    finally show ?thesis .
  next
    case False
    then have "j = len - 1 - j \<or> \<not> (i \<le> j \<and> j < len - i)" by linarith
    then show ?thesis using False by (subst reverse_loop.simps) (auto simp del: of_nat_diff)
  qed
qed

lemma reverse_loop_frame:
  assumes "\<not> in_block str len a" "len \<le> 4294967296"
  shows "reverse_loop m str len i a = m a"
  using assms
proof (induction m str len i rule: reverse_loop.induct)
  case (1 m str len i)
  show ?case
  proof (cases "i < len div 2")
    case True
    then have blk: "in_block str len (str + of_nat i)" "in_block str len (str + of_nat (len - 1 - i))"
      using "1.prems" by (intro in_blockI; simp)+
    let ?m = "m(str + of_nat i := m (str + of_nat (len - 1 - i)),
      str + of_nat (len - 1 - i) := m (str + of_nat i))"
    have "reverse_loop ?m str len (Suc i) a = ?m a"
      by (rule "1.IH" [OF True refl refl refl]) (use "1.prems" in auto)
    moreover have "reverse_loop m str len i = reverse_loop ?m str len (Suc i)"
      using True by (subst reverse_loop.simps) (simp add: Let_def)
    moreover have "?m a = m a" using blk "1.prems" by (auto simp del: of_nat_diff)
    ultimately show ?thesis by metis
  next
    case False
    then show ?thesis by (subst reverse_loop.simps) simp
  qed
qed

lemma reverse_str_cstr:
  assumes "cstr m str bs"
  shows "\<exists>m'. reverse_str m str = Some m' \<and> cstr m' str (rev bs)
    \<and> (\<forall>a. \<not> in_block str (length bs) a \<longrightarrow> m' a = m a)"
proof -
  let ?n = "length bs"
  have n: "?n < 4294967296" using assms by (rule cstr_length)
  have "strlen_loop m str 0 = Some (of_nat ?n)" using strlen_loop_cstr [of m str 0 bs] assms by simp
  then have r: "reverse_str m str = Some (reverse_loop m str ?n 0)"
    using n by (simp add: reverse_str_def unat_of_nat_u32)
  have "cstr (reverse_loop m str ?n 0) str (rev bs)"
  proof (rule cstrI)
    fix i assume "i < length (rev bs)"
    then show "reverse_loop m str ?n 0 (str + of_nat i) = rev bs ! i"
      using reverse_loop_at [of i ?n m str 0] n cstr_nth [OF assms, of "?n - 1 - i"]
      by (simp add: rev_nth del: of_nat_diff)
  next
    have "\<not> in_block str ?n (str + of_nat ?n)"
      using n by (simp add: in_block_def unat_of_nat_u32)
    then show "reverse_loop m str ?n 0 (str + of_nat (length (rev bs))) = 0"
      using reverse_loop_frame n cstr_terminator [OF assms] by simp
  qed (use cstr_nonzero [OF assms] in simp)
  then show ?thesis using r reverse_loop_frame n by auto
qed

subsection \<open>int_to_str\<close>

lemma cstr_write_bytes:
  assumes "0 \<notin> set bs" "length bs < 4294967295"
  shows "cstr (write_bytes m p (bs @ [0])) p bs"
proof (rule cstrI)
  fix i assume "i < length bs"
  then show "write_bytes m p (bs @ [0]) (p + of_nat i) = bs ! i"
    using assms by (simp add: write_bytes_at in_blockI unat_of_nat_u32 nth_append)
next
  show "write_bytes m p (bs @ [0]) (p + of_nat (length bs)) = 0"
    using assms by (simp add: write_bytes_at in_blockI unat_of_nat_u32 nth_append)
qed (use assms in simp)

lemma itoa_loop_eq:
  "itoa_loop m buffer (int n) i =
    (write_bytes m (buffer + of_nat i) (rdigits n), i + length (rdigits n))"
proof (induction n arbitrary: m i rule: less_induct)
  case (less n)
  show ?case
  proof (cases "n = 0")
    case True
    then show ?thesis by (simp add: itoa_loop.simps rdigits.simps)
  next
    case False
    let ?m = "m(buffer + of_nat i := 48 + word_of_int (int n mod 10))"
    have "itoa_loop m buffer (int n) i = itoa_loop ?m buffer (int (n div 10)) (Suc i)"
      using False by (subst itoa_loop.simps) (simp add: zdiv_int)
    also have "\<dots> = (write_bytes ?m (buffer + of_nat (Suc i)) (rdigits (n div 10)),
        Suc i + length (rdigits (n div 10)))"
      by (rule less) (use False in simp)
    also have "word_of_int (int n mod 10) = (of_nat (n mod 10) :: u8)"
      by (metis of_int_of_nat_eq of_nat_numeral zmod_int)
    finally show ?thesis using False
      by (simp add: rdigits.simps [of n] add.assoc add.commute [of 1] fun_upd_def)
  qed
qed

lemma int_to_str_text:
  assumes "- 2147483648 < num" "num < 2147483648"
  shows "\<exists>m'. int_to_str m num buffer = Some m' \<and> cstr m' buffer (dec_text num)
    \<and> (\<forall>a. \<not> in_block buffer (Suc (length (dec_text num))) a \<longrightarrow> m' a = m a)"
proof (cases "num = 0")
  case True
  then show ?thesis
    by (auto simp: int_to_str_def dec_text_def in_block_def)
next
  case False
  define neg where "neg = (if num < 0 then [45] else ([] :: u8 list))"
  define ds where "ds = rdigits (nat \<bar>num\<bar>) @ neg"
  have len: "length ds \<le> 11"
  proof -
    have "length (rdigits (nat \<bar>num\<bar>)) \<le> 10" by (rule length_rdigits) (use assms in simp)
    then show ?thesis by (cases "num < 0") (simp_all add: ds_def neg_def)
  qed
  have nz: "0 \<notin> set ds" using rdigits_bytes by (fastforce simp: ds_def neg_def)
  let ?m = "write_bytes m buffer (ds @ [0])"
  have n1: "(if num < 0 then wrap32 (- num) else num) = int (nat \<bar>num\<bar>)" using assms by simp
  have "int_to_str m num buffer = reverse_str ?m buffer"
    using False unfolding int_to_str_def Let_def n1 itoa_loop_eq
    by (simp add: ds_def neg_def write_bytes_append add.assoc add.commute [of 1])
  moreover have "cstr ?m buffer ds" using nz len by (intro cstr_write_bytes) auto
  ultimately obtain m' where m': "int_to_str m num buffer = Some m'" "cstr m' buffer (rev ds)"
    "\<forall>a. \<not> in_block buffer (length ds) a \<longrightarrow> m' a = ?m a"
    using reverse_str_cstr by metis
  have tx: "rev ds = dec_text num" using False by (simp add: ds_def neg_def dec_text_def)
  have "m' a = m a" if nb: "\<not> in_block buffer (Suc (length ds)) a" for a
  proof -
    have "\<not> in_block buffer (length ds) a" using nb in_block_mono [of buffer "length ds" a] by auto
    moreover have "?m a = m a" using nb len by (subst write_bytes_at) simp_all
    ultimately show ?thesis using m'(3) by simp
  qed
  moreover have "length (dec_text num) = length ds" using tx by (metis length_rev)
  ultimately show ?thesis using m' tx by auto
qed

subsection \<open>Properties\<close>

text \<open>C39: memmove is correct for overlapping blocks: for non-null blocks that do not wrap around
  the address space it returns the destination, the destination block holds the bytes the source
  block held before the call, and no byte outside the destination block changes.\<close>

theorem memmove_moves:
  assumes "dst \<noteq> 0" "src \<noteq> 0"
    and "unat dst + unat count \<le> 4294967296" "unat src + unat count \<le> 4294967296"
  shows "fst (memmove m dst src count) = dst
    \<and> read_bytes (snd (memmove m dst src count)) dst (unat count) = read_bytes m src (unat count)
    \<and> (\<forall>a. \<not> in_block dst (unat count) a \<longrightarrow> snd (memmove m dst src count) a = m a)"
  using memmove_at [OF assms, of m] read_copied_block [of "unat count" dst m src] unat_lt_u32 [of count]
  by simp

theorem memmove_moves_witness:
  "read_bytes (snd (memmove (\<lambda>a. ucast a) 4097 4096 4)) 4097 4 = [0, 1, 2, 3]"
proof -
  have "read_bytes (snd (memmove (\<lambda>a. ucast a) 4097 4096 4)) 4097 (unat (4 :: u32)) =
      read_bytes (\<lambda>a. ucast a) 4096 (unat (4 :: u32))"
    using memmove_moves [of 4097 4096 4 "\<lambda>a. ucast a"] by simp
  then show ?thesis by simp
qed

text \<open>int_to_str writes the decimal text of every int but the most negative one: the
  buffer holds a terminated string that parses back to the number, and nothing outside the bytes
  of that string changes.\<close>

theorem int_to_str_roundtrip:
  assumes "- 2147483648 < num" "num < 2147483648"
  shows "\<exists>m' bs. int_to_str m num buffer = Some m' \<and> cstr m' buffer bs \<and> parse_dec bs = num
    \<and> (\<forall>a. \<not> in_block buffer (Suc (length bs)) a \<longrightarrow> m' a = m a)"
  using int_to_str_text [OF assms, of m buffer] parse_dec_text by blast

theorem int_to_str_roundtrip_witness:
  "\<exists>m' bs. int_to_str (\<lambda>_. 7) (- 305) 4096 = Some m' \<and> cstr m' 4096 bs \<and> parse_dec bs = - 305
    \<and> (\<forall>a. \<not> in_block 4096 (Suc (length bs)) a \<longrightarrow> m' a = 7)"
  using int_to_str_roundtrip [of "- 305" "\<lambda>_. 7" 4096] by simp

text \<open>int_to_str on the most negative int negates it to itself, runs no digit loop and
  leaves just a minus sign.\<close>

theorem int_to_str_most_negative:
  "\<exists>m'. int_to_str m (- 2147483648) buffer = Some m' \<and> cstr m' buffer [45]"
proof -
  let ?m = "write_bytes m buffer ([45] @ [0])"
  have "wrap32 2147483648 = - 2147483648" by (simp add: wrap32_def)
  then have "int_to_str m (- 2147483648) buffer = reverse_str ?m buffer"
    by (simp add: int_to_str_def itoa_loop.simps Let_def)
  moreover have "cstr ?m buffer [45]" by (rule cstr_write_bytes) simp_all
  ultimately show ?thesis using reverse_str_cstr [of ?m buffer "[45]"] by auto
qed

text \<open>strcat of two strings, the room after the first not overlapping either string, leaves
  their concatenation at the destination, keeps the source string and changes only the bytes it
  writes after the first string.\<close>

theorem strcat_appends:
  assumes "cstr m dst ds" "cstr m src bs"
    and "disjoint_blocks dst (length ds + Suc (length bs)) src (Suc (length bs))"
    and "length ds + Suc (length bs) < 4294967296"
  shows "\<exists>m'. strcat m dst src = Some (dst, m') \<and> cstr m' dst (ds @ bs) \<and> cstr m' src bs
    \<and> (\<forall>a. \<not> in_block (dst + of_nat (length ds)) (Suc (length bs)) a \<longrightarrow> m' a = m a)"
proof -
  let ?e = "dst + of_nat (length ds)" and ?n = "Suc (length bs)"
  let ?m = "copy_up m ?e src ?n"
  have sep: "\<not> in_block src ?n a" if "in_block dst (length ds + ?n) a" for a
    using disjoint_blocksD [OF assms(3) that] assms(4) by simp
  have esub: "in_block dst (length ds + ?n) a" if "in_block ?e ?n a" for a
    using that assms(4) in_block_append [of "length ds" ?n dst a] by simp
  have off: "?n \<le> unat (?e - src)"
    using sep [OF esub, of ?e] by (simp add: in_block_def)
  have at: "?m a = (if in_block ?e ?n a then m (src + (a - ?e)) else m a)" for a
    using off assms(4) by (intro copy_up_at) auto
  have "cstr ?m dst (ds @ bs)"
  proof (rule cstr_append)
    fix i assume i: "i < length ds"
    then have "\<not> in_block ?e ?n (dst + of_nat i)"
      using in_block_append_disjoint [of "length ds" ?n dst "dst + of_nat i"] in_blockI [of i "length ds" dst]
        assms(4) by auto
    then show "?m (dst + of_nat i) = ds ! i" using at cstr_nth [OF assms(1) i] by simp
  next
    show "cstr ?m ?e bs" using cstr_copied [OF assms(2), of ?e] off assms(4) by simp
  qed (rule cstr_nonzero [OF assms(1)])
  moreover have "cstr ?m src bs"
    by (rule cstr_cong [OF _ assms(2)]) (use at sep esub in auto)
  moreover have "strcat m dst src = Some (dst, ?m)" using strcat_cstr [OF assms(1,2)] off by simp
  ultimately show ?thesis using at by auto
qed

theorem strcat_appends_witness:
  "\<exists>m'. strcat ((\<lambda>_. 0)(4096 := 97, 8192 := 98)) 4096 8192 = Some (4096, m')
    \<and> cstr m' 4096 ([97] @ [98]) \<and> cstr m' 8192 [98]
    \<and> (\<forall>a. \<not> in_block (4096 + of_nat (length [97 :: u8])) (Suc (length [98 :: u8])) a
         \<longrightarrow> m' a = ((\<lambda>_. 0)(4096 := 97, 8192 := 98)) a)"
  by (rule strcat_appends) (simp_all add: disjoint_blocks_def)

text \<open>strncat with a limit above the length of the source writes a second NUL byte one past
  the terminator it has already copied: a destination with room for exactly the concatenated string
  is overrun by one byte.\<close>

theorem strncat_overruns:
  assumes "cstr m dst ds" "cstr m src bs" "length bs < unat n"
    and "disjoint_blocks dst (length ds + Suc (length bs)) src (Suc (length bs))"
    and "length ds + Suc (length bs) < 4294967296"
  shows "\<exists>m'. strncat m dst src n = Some (dst, m')
    \<and> m' (dst + of_nat (length ds + Suc (length bs))) = 0"
proof -
  let ?e = "dst + of_nat (length ds)" and ?n = "Suc (length bs)"
  have "in_block dst (length ds + ?n) ?e" using assms(5) by (intro in_blockI) auto
  then have "\<not> in_block src ?n ?e" using disjoint_blocksD [OF assms(4)] assms(5) by auto
  then have "?n \<le> unat (?e - src)" by (simp add: in_block_def)
  then have "strncat_loop m ?e src (unat n) = (copy_up m ?e src ?n, ?e + of_nat ?n)"
    using strncat_loop_cstr [OF assms(2), of ?e "unat n"] assms(3) by (simp add: Let_def)
  then show ?thesis using str_end_cstr [OF assms(1)]
    by (simp add: strncat_def add.assoc)
qed

theorem strncat_overruns_witness:
  "\<exists>m'. strncat ((\<lambda>_. 7)(4096 := 0, 8192 := 98, 8193 := 0)) 4096 8192 5 = Some (4096, m')
    \<and> m' (4096 + of_nat (length ([] :: u8 list) + Suc (length [98 :: u8]))) = 0"
  by (rule strncat_overruns) (simp_all add: disjoint_blocks_def)

text \<open>strncpy of a string fills exactly the \<open>n\<close> bytes of the destination with the string
  cut to \<open>n\<close> bytes and padded with NUL bytes; no other byte changes.\<close>

theorem strncpy_fills:
  assumes "cstr m src bs" "dst = src \<or> Suc (length bs) \<le> unat (dst - src)"
  shows "fst (strncpy m dst src n) = dst
    \<and> read_bytes (snd (strncpy m dst src n)) dst (unat n) =
        take (unat n) bs @ replicate (unat n - length bs) 0
    \<and> (\<forall>a. \<not> in_block dst (unat n) a \<longrightarrow> snd (strncpy m dst src n) a = m a)"
proof -
  have "snd (strncpy m dst src n) a = m a" if "\<not> in_block dst (unat n) a" for a
    using that in_block_mono [of dst "min (unat n) (length bs)" a "unat n"]
    by (auto simp: strncpy_cstr [OF assms] Let_def)
  then show ?thesis using strncpy_read [OF assms, of n] by (simp add: strncpy_cstr [OF assms])
qed

theorem strncpy_fills_witness:
  "read_bytes (snd (strncpy ((\<lambda>_. 0)(8192 := 98)) 4096 8192 3)) 4096 (unat (3 :: u32)) = [98] @ replicate 2 0"
  using strncpy_fills [of "(\<lambda>_. 0)(8192 := 98)" 8192 "[98]" 4096 3] by simp

text \<open>strcmp on two strings always returns; the result is 0 exactly for equal strings and
  negative exactly when the first is lexicographically smaller byte by byte.\<close>

theorem strcmp_orders:
  assumes "cstr m s1 as" "cstr m s2 bs"
  shows "\<exists>r. strcmp m s1 s2 = Some r \<and> (r = 0 \<longleftrightarrow> as = bs) \<and> (r < 0 \<longleftrightarrow> ord_class.lexordp as bs)"
  using strcmp_cstr [OF assms] str_diff_0_iff str_diff_neg_iff cstr_nonzero [OF assms(1)]
    cstr_nonzero [OF assms(2)] by auto

theorem strcmp_orders_witness:
  "\<exists>r. strcmp ((\<lambda>_. 0)(4096 := 97, 8192 := 98)) 4096 8192 = Some r
    \<and> (r = 0 \<longleftrightarrow> [97 :: u8] = [98]) \<and> (r < 0 \<longleftrightarrow> ord_class.lexordp [97 :: u8] [98])"
  by (rule strcmp_orders) simp_all

text \<open>strstr on two strings always returns: the haystack itself for an empty needle, NULL
  when the needle does not occur, and otherwise the address of its first occurrence.\<close>

theorem strstr_finds_first:
  assumes "cstr m h bs" "cstr m n ns"
  shows "strstr m h n = Some
    (if sublist ns bs then h + of_nat (LEAST i. prefix ns (drop i bs)) else 0)"
proof (cases ns)
  case Nil
  then have "(LEAST i. prefix ns (drop i bs)) = 0" by (intro Least_eq_0) simp
  then show ?thesis using Nil assms by (simp add: strstr_def)
next
  case (Cons x xs)
  then show ?thesis using assms strstr_loop_cstr [OF assms] by (auto simp: strstr_def)
qed

theorem strstr_finds_first_witness:
  "strstr ((\<lambda>_. 0)(4096 := 97, 4097 := 98, 8192 := 98)) 4096 8192 = Some
    (if sublist [98 :: u8] [97, 98] then 4096 + of_nat (LEAST i. prefix [98 :: u8] (drop i [97, 98])) else 0)"
  by (rule strstr_finds_first) simp_all

end
