(* ===== verification/Kalloc.thy ===== *)
theory Kalloc
  imports Mmu
begin

section \<open>The page allocator\<close>

text \<open>
  \<^verbatim>\<open>kernel/mm/kalloc.c\<close>. A free page holds, in its first word, the address of the
  next free page; \<^verbatim>\<open>kmem.freelist\<close> is the head of that list. The state is the memory
  and the head, in a record that the state of the kernel extends. \<open>free_pages s xs\<close> says that
  the list in memory is \<open>xs\<close>, page-aligned, without NULL and without repetition.

  The interface \<open>frame_pool\<close> is what the allocator promises its clients (the page tables and
  the process layer): the pool is a list of frames, allocation takes its head, release puts a frame
  back, and neither touches a byte outside the frame concerned.
\<close>

record phys =
  ram :: mem
  freelist :: u32

subsection \<open>Operations\<close>

primrec poison_loop :: "mem \<Rightarrow> u32 \<Rightarrow> u32 \<Rightarrow> nat \<Rightarrow> mem" where
  "poison_loop m p i 0 = m"
| "poison_loop m p i (Suc n) = poison_loop (store32 m (p + 4 * i) FREE_STR) p (i + 1) n"

definition kfree :: "u32 \<Rightarrow> 'a phys_scheme \<Rightarrow> 'a phys_scheme" where
  "kfree ptr s =
     (let m = poison_loop (ram s) ptr 0 (unat (PGSIZE div 4));
          m' = store32 m ptr (freelist s)
      in s\<lparr>ram := m', freelist := ptr\<rparr>)"

definition kalloc :: "'a phys_scheme \<Rightarrow> u32 \<times> 'a phys_scheme" where
  "kalloc s =
     (let r = freelist s
      in (r, if r \<noteq> 0 then s\<lparr>freelist := load32 (ram s) r\<rparr> else s))"

partial_function (option) free_range_loop ::
  "u32 \<Rightarrow> u32 \<Rightarrow> 'a phys_scheme \<Rightarrow> 'a phys_scheme option" where
  "free_range_loop p vend s =
     (if p + PGSIZE \<le> vend then free_range_loop (p + PGSIZE) vend (kfree p s) else Some s)"

definition free_range :: "u32 \<Rightarrow> u32 \<Rightarrow> 'a phys_scheme \<Rightarrow> 'a phys_scheme option" where
  "free_range vstart vend s = free_range_loop (PGROUNDUP vstart) vend s"

definition init_physical_memory :: "u32 \<Rightarrow> u32 \<Rightarrow> 'a phys_scheme \<Rightarrow> 'a phys_scheme option" where
  "init_physical_memory vstart vend s = free_range vstart vend s"

partial_function (option) kmem_size_loop :: "mem \<Rightarrow> u32 \<Rightarrow> u32 \<Rightarrow> u32 option" where
  "kmem_size_loop m r count =
     (if r \<noteq> 0 then kmem_size_loop m (load32 m r) (count + 1) else Some count)"

definition kmem_size :: "'a phys_scheme \<Rightarrow> u32 option" where
  "kmem_size s = map_option (\<lambda>count. count * PGSIZE) (kmem_size_loop (ram s) (freelist s) 0)"

subsection \<open>The free list in memory\<close>

fun page_chain :: "mem \<Rightarrow> u32 \<Rightarrow> u32 list \<Rightarrow> bool" where
  "page_chain m p [] \<longleftrightarrow> p = 0"
| "page_chain m p (x # xs) \<longleftrightarrow> p = x \<and> x \<noteq> 0 \<and> aligned 12 x \<and> page_chain m (load32 m x) xs"

definition free_pages :: "'a phys_scheme \<Rightarrow> u32 list \<Rightarrow> bool" where
  "free_pages s xs \<longleftrightarrow> page_chain (ram s) (freelist s) xs \<and> distinct xs"

lemma page_chain_frames: "page_chain m p xs \<Longrightarrow> x \<in> set xs \<Longrightarrow> aligned 12 x \<and> x \<noteq> 0"
  by (induction xs arbitrary: p) auto

lemma in_page_head: "in_block p 4 a \<Longrightarrow> in_block p 4096 a"
  by (simp add: in_block_mono)

lemma page_chain_cong:
  assumes "\<And>x a. x \<in> set xs \<Longrightarrow> in_block x 4096 a \<Longrightarrow> m' a = m a" "page_chain m p xs"
  shows "page_chain m' p xs"
  using assms
proof (induction xs arbitrary: p)
  case (Cons x xs)
  have "load32 m' x = load32 m x"
    by (rule load32_cong) (use Cons.prems(1) in_page_head in auto)
  moreover have "page_chain m' (load32 m x) xs"
    by (rule Cons.IH) (use Cons.prems in auto)
  ultimately show ?case using Cons.prems by simp
qed simp

text \<open>Writes outside the free pages keep the pool.\<close>

lemma free_pages_cong:
  assumes "free_pages s xs" "freelist s' = freelist s"
    and "\<And>x a. x \<in> set xs \<Longrightarrow> in_block x 4096 a \<Longrightarrow> ram s' a = ram s a"
  shows "free_pages s' xs"
  using assms page_chain_cong [of xs "ram s'" "ram s" "freelist s"] by (simp add: free_pages_def)

lemma free_pages_frames: "free_pages s xs \<Longrightarrow> x \<in> set xs \<Longrightarrow> aligned 12 x \<and> x \<noteq> 0"
  using page_chain_frames by (auto simp: free_pages_def)

lemma distinct_aligned_bound:
  assumes "distinct xs" "\<And>x. x \<in> set xs \<Longrightarrow> aligned 12 x \<and> x \<noteq> 0"
  shows "length xs < 1048576"
proof -
  let ?f = "\<lambda>x::u32. unat x div 4096"
  have "inj_on ?f (set xs)"
  proof (rule inj_onI)
    fix x y assume xy: "x \<in> set xs" "y \<in> set xs" "unat x div 4096 = unat y div 4096"
    then have "unat x mod 4096 = unat y mod 4096" using assms(2) by (simp add: aligned_def)
    then have "unat x = unat y" using xy(3) by (metis div_mult_mod_eq)
    then show "x = y" by (simp only: word_unat_eq_iff)
  qed
  moreover have "?f ` set xs \<subseteq> {1..<1048576}"
  proof
    fix v assume "v \<in> ?f ` set xs"
    then obtain x where x: "x \<in> set xs" "v = unat x div 4096" by auto
    then have "unat x mod 4096 = 0" "unat x \<noteq> 0" using assms(2) by (auto simp: aligned_def unat_eq_zero)
    then have "1 \<le> v" using x(2) by auto
    moreover have "v < 1048576" using x(2) unat_lt_u32 [of x] by (simp add: div_less_iff_less_mult)
    ultimately show "v \<in> {1..<1048576}" by simp
  qed
  ultimately have "card (set xs) \<le> card {1..<1048576::nat}"
    by (metis card_image card_mono finite_atLeastLessThan)
  then show ?thesis using assms(1) by (simp add: distinct_card)
qed

subsection \<open>What kfree leaves in memory\<close>

lemma poison_loop_frame:
  assumes "\<not> in_block p 4096 a" "i + n \<le> 1024"
  shows "poison_loop m p (of_nat i) n a = m a"
  using assms
proof (induction n arbitrary: m i)
  case (Suc n)
  have "\<not> in_block (p + 4 * of_nat i) 4 a"
    using in_block_inside [of p "4 * i" 4 a 4096] Suc.prems by auto
  then have "store32 m (p + 4 * of_nat i) FREE_STR a = m a" by (rule store32_frame)
  moreover have "poison_loop (store32 m (p + 4 * of_nat i) FREE_STR) p (of_nat (Suc i)) n a =
      store32 m (p + 4 * of_nat i) FREE_STR a"
    by (rule Suc.IH) (use Suc.prems in auto)
  ultimately show ?case by (simp add: add.commute)
qed simp

lemma aligned_cell: "aligned 12 p \<Longrightarrow> aligned 2 (p + 4 * of_nat i)"
proof -
  assume "aligned 12 p"
  then have "aligned 2 p" by (rule aligned_mono) simp
  moreover have "aligned 2 (4 * of_nat i)"
    by (simp add: aligned_def unat_word_ariths mod_mod_cancel)
  ultimately show ?thesis by (rule aligned_add) simp
qed

lemma cell_inj:
  assumes "i < 1073741824" "j < 1073741824"
  shows "4 * (of_nat i :: u32) = 4 * of_nat j \<longleftrightarrow> i = j"
proof -
  have "4 * (of_nat i :: u32) = of_nat (4 * i)" "4 * (of_nat j :: u32) = of_nat (4 * j)" by simp_all
  then show ?thesis using assms of_nat_inj_u32 [of "4 * i" "4 * j"] by simp
qed

lemma poison_loop_cell:
  assumes "aligned 12 p" "j < 1024" "i + n \<le> 1024"
  shows "load32 (poison_loop m p (of_nat i) n) (p + 4 * of_nat j) =
    (if i \<le> j \<and> j < i + n then FREE_STR else load32 m (p + 4 * of_nat j))"
  using assms
proof (induction n arbitrary: m i)
  case (Suc n)
  let ?m = "store32 m (p + 4 * of_nat i) FREE_STR"
  have "load32 (poison_loop ?m p (of_nat (Suc i)) n) (p + 4 * of_nat j) =
    (if Suc i \<le> j \<and> j < Suc i + n then FREE_STR else load32 ?m (p + 4 * of_nat j))"
    by (rule Suc.IH) (use Suc.prems in auto)
  moreover have "load32 ?m (p + 4 * of_nat j) = (if j = i then FREE_STR else load32 m (p + 4 * of_nat j))"
    using Suc.prems by (subst ram.rd_wr) (simp_all add: aligned_cell cell_inj)
  ultimately show ?case by (auto simp: add.commute)
qed auto

lemma kfree_frame:
  assumes "\<not> in_block p 4096 a"
  shows "ram (kfree p s) a = ram s a"
proof -
  have "\<not> in_block p 4 a" using in_page_head assms by blast
  then have "ram (kfree p s) a = poison_loop (ram s) p 0 1024 a"
    by (simp add: kfree_def Let_def PGSIZE_def store32_frame)
  then show ?thesis using poison_loop_frame [of p a 0 1024 "ram s"] assms by simp
qed

lemma kfree_freelist [simp]: "freelist (kfree p s) = p"
  by (simp add: kfree_def Let_def)

lemma kfree_link: "load32 (ram (kfree p s)) p = freelist s"
  by (simp add: kfree_def Let_def)

lemma kfree_poison:
  assumes "aligned 12 p" "0 < j" "j < 1024"
  shows "load32 (ram (kfree p s)) (p + 4 * of_nat j) = FREE_STR"
proof -
  have ne: "p \<noteq> p + 4 * of_nat j" using cell_inj [of 0 j] assms by simp
  have "load32 (ram (kfree p s)) (p + 4 * of_nat j) =
      load32 (poison_loop (ram s) p 0 1024) (p + 4 * of_nat j)"
    using aligned_cell [OF assms(1), of j] aligned_cell [OF assms(1), of 0] ne
    by (simp add: kfree_def Let_def PGSIZE_def)
  then show ?thesis using poison_loop_cell [of p j 0 1024 "ram s"] assms by simp
qed

subsection \<open>The interface of a pool of frames\<close>

text \<open>A client that frees only frames it holds: any interleaving of requests and releases.\<close>

inductive client_run :: "('s \<Rightarrow> u32 \<times> 's) \<Rightarrow> (u32 \<Rightarrow> 's \<Rightarrow> 's) \<Rightarrow> 's \<times> u32 set \<Rightarrow> 's \<times> u32 set \<Rightarrow> bool"
  for alloc free where
  idle: "client_run alloc free (s, held) (s, held)"
| get: "client_run alloc free c (s, held) \<Longrightarrow> alloc s = (p, s') \<Longrightarrow> p \<noteq> 0 \<Longrightarrow>
    client_run alloc free c (s', insert p held)"
| full: "client_run alloc free c (s, held) \<Longrightarrow> alloc s = (0, s') \<Longrightarrow> client_run alloc free c (s', held)"
| put: "client_run alloc free c (s, held) \<Longrightarrow> p \<in> held \<Longrightarrow> client_run alloc free c (free p s, held - {p})"

locale frame_pool =
  fixes alloc :: "'s \<Rightarrow> u32 \<times> 's" and free :: "u32 \<Rightarrow> 's \<Rightarrow> 's"
    and pool :: "'s \<Rightarrow> u32 list \<Rightarrow> bool" and byte :: "'s \<Rightarrow> u32 \<Rightarrow> u8"
  assumes alloc_nil: "pool s [] \<Longrightarrow> alloc s = (0, s)"
    and alloc_head: "pool s (x # xs) \<Longrightarrow> fst (alloc s) = x"
    and alloc_tail: "pool s (x # xs) \<Longrightarrow> pool (snd (alloc s)) xs"
    and alloc_bytes: "byte (snd (alloc s)) a = byte s a"
    and pool_distinct: "pool s xs \<Longrightarrow> distinct xs"
    and pool_frame: "pool s xs \<Longrightarrow> x \<in> set xs \<Longrightarrow> aligned 12 x \<and> x \<noteq> 0"
    and free_cons: "pool s xs \<Longrightarrow> aligned 12 p \<Longrightarrow> p \<noteq> 0 \<Longrightarrow> p \<notin> set xs \<Longrightarrow> pool (free p s) (p # xs)"
    and free_bytes: "\<not> in_block p 4096 a \<Longrightarrow> byte (free p s) a = byte s a"
begin

text \<open>Allocation gives a frame exactly when the pool is not empty, and it leaves the pool.\<close>

lemma alloc_cases:
  assumes "pool s xs"
  obtains "xs = []" "alloc s = (0, s)"
  | x ys s' where "xs = x # ys" "alloc s = (x, s')" "pool s' ys" "x \<noteq> 0" "aligned 12 x" "x \<notin> set ys"
      "\<And>a. byte s' a = byte s a"
proof (cases xs)
  case Nil
  then show ?thesis using that(1) assms alloc_nil by blast
next
  case (Cons x ys)
  then have p: "pool s (x # ys)" using assms by simp
  show ?thesis
    by (rule that(2) [of x ys "snd (alloc s)"])
       (use Cons alloc_head [OF p] alloc_tail [OF p] pool_frame [OF p, of x] pool_distinct [OF p]
          alloc_bytes in \<open>auto simp: prod_eq_iff\<close>)
qed

text \<open>No frame is ever lost, and no frame is ever both free and held.\<close>

lemma client_run_partition:
  assumes "client_run alloc free c d" "pool (fst c) xs" "set xs \<inter> snd c = {}"
    and "\<And>p. p \<in> snd c \<Longrightarrow> aligned 12 p \<and> p \<noteq> 0"
  shows "\<exists>ys. pool (fst d) ys \<and> set ys \<inter> snd d = {} \<and> set ys \<union> snd d = set xs \<union> snd c
    \<and> (\<forall>p \<in> snd d. aligned 12 p \<and> p \<noteq> 0)"
  using assms
proof (induction rule: client_run.induct)
  case (idle s held)
  then show ?case by auto
next
  case (get c s held p s')
  then obtain ys where ys: "pool s ys" "set ys \<inter> held = {}" "set ys \<union> held = set xs \<union> snd c"
    "\<forall>p \<in> held. aligned 12 p \<and> p \<noteq> 0" by auto
  from ys(1) show ?case
  proof (cases rule: alloc_cases)
    case 1
    then show ?thesis using get.hyps by simp
  next
    case (2 x zs s'')
    then have "p = x" "s' = s''" using get.hyps by simp_all
    then show ?thesis using 2 ys by (intro exI [of _ zs]) auto
  qed
next
  case (full c s held s')
  then obtain ys where ys: "pool s ys" "set ys \<inter> held = {}" "set ys \<union> held = set xs \<union> snd c"
    "\<forall>p \<in> held. aligned 12 p \<and> p \<noteq> 0" by auto
  from ys(1) show ?case
    by (cases rule: alloc_cases) (use full.hyps ys in auto)
next
  case (put c s held p)
  then obtain ys where ys: "pool s ys" "set ys \<inter> held = {}" "set ys \<union> held = set xs \<union> snd c"
    "\<forall>p \<in> held. aligned 12 p \<and> p \<noteq> 0" by auto
  then have "pool (free p s) (p # ys)" using put.hyps by (intro free_cons) auto
  then show ?case using ys put.hyps by (intro exI [of _ "p # ys"]) auto
qed

end

lemma kalloc_nil: "free_pages s [] \<Longrightarrow> kalloc s = (0, s)"
  by (simp add: free_pages_def kalloc_def)

lemma kalloc_cons:
  "free_pages s (x # xs) \<Longrightarrow> kalloc s = (x, s\<lparr>freelist := load32 (ram s) x\<rparr>)"
  by (auto simp: free_pages_def kalloc_def)

lemma kfree_cons:
  assumes "free_pages s xs" "aligned 12 p" "p \<noteq> 0" "p \<notin> set xs"
  shows "free_pages (kfree p s) (p # xs)"
proof -
  have "page_chain (ram (kfree p s)) (freelist s) xs"
  proof (rule page_chain_cong)
    fix x a assume "x \<in> set xs" "in_block x 4096 a"
    then have "\<not> in_block p 4096 a"
      using pages_disjoint [of x p a] free_pages_frames [OF assms(1)] assms by auto
    then show "ram (kfree p s) a = ram s a" by (rule kfree_frame)
  qed (use assms(1) in \<open>simp add: free_pages_def\<close>)
  then show ?thesis using assms by (simp add: free_pages_def kfree_link)
qed

interpretation frames: frame_pool kalloc kfree free_pages ram
proof unfold_locales
  fix s :: "'a phys_scheme" and x p a :: u32 and xs :: "u32 list"
  show "free_pages s [] \<Longrightarrow> kalloc s = (0, s)" by (rule kalloc_nil)
  show "free_pages s (x # xs) \<Longrightarrow> fst (kalloc s) = x" by (simp add: kalloc_cons)
  show "free_pages s (x # xs) \<Longrightarrow> free_pages (snd (kalloc s)) xs"
    by (auto simp: kalloc_cons free_pages_def)
  show "ram (snd (kalloc s)) a = ram s a" by (simp add: kalloc_def Let_def)
  show "free_pages s xs \<Longrightarrow> distinct xs" by (simp add: free_pages_def)
  show "free_pages s xs \<Longrightarrow> x \<in> set xs \<Longrightarrow> aligned 12 x \<and> x \<noteq> 0" by (rule free_pages_frames)
  show "free_pages s xs \<Longrightarrow> aligned 12 p \<Longrightarrow> p \<noteq> 0 \<Longrightarrow> p \<notin> set xs \<Longrightarrow> free_pages (kfree p s) (p # xs)"
    by (rule kfree_cons)
  show "\<not> in_block p 4096 a \<Longrightarrow> ram (kfree p s) a = ram s a" by (rule kfree_frame)
qed

subsection \<open>Free ranges and the size of the pool\<close>

lemma kmem_size_loop_chain:
  "page_chain m p xs \<Longrightarrow> kmem_size_loop m p count = Some (count + of_nat (length xs))"
proof (induction xs arbitrary: p count)
  case Nil
  then show ?case by (simp add: kmem_size_loop.simps)
next
  case (Cons x xs)
  then show ?case using Cons.IH [of "load32 m x" "count + 1"]
    by (subst kmem_size_loop.simps) (simp add: add.assoc)
qed


lemma kmem_size_pool:
  assumes "free_pages s xs"
  shows "kmem_size s = Some (of_nat (length xs) * PGSIZE)"
  using assms kmem_size_loop_chain [of "ram s" "freelist s" xs 0]
  by (simp add: kmem_size_def free_pages_def)

text \<open>The pages of a range, in the order the loop visits them.\<close>

primrec pages_from :: "u32 \<Rightarrow> nat \<Rightarrow> u32 list" where
  "pages_from p 0 = []"
| "pages_from p (Suc n) = p # pages_from (p + PGSIZE) n"

lemma length_pages_from [simp]: "length (pages_from p n) = n"
  by (induction n arbitrary: p) auto

lemma set_pages_from: "set (pages_from p n) = (\<lambda>i. p + of_nat i * PGSIZE) ` {..<n}"
proof (induction n arbitrary: p)
  case (Suc n)
  have "{..<Suc n} = insert 0 (Suc ` {..<n})" by (auto simp: image_iff) (metis Suc_less_eq lessThan_iff not0_implies_Suc)
  then have "(\<lambda>i. p + of_nat i * PGSIZE) ` {..<Suc n} =
      insert p ((\<lambda>i. p + PGSIZE + of_nat i * PGSIZE) ` {..<n})"
    by (simp add: image_image algebra_simps)
  then show ?case using Suc by simp
qed simp

lemma page_step_unat:
  assumes "unat p + n * 4096 < 4294967296" "i \<le> n"
  shows "unat (p + of_nat i * PGSIZE) = unat p + i * 4096"
proof -
  have "of_nat i * PGSIZE = (of_nat (i * 4096) :: u32)" by (simp add: PGSIZE_def)
  moreover have "i * 4096 \<le> n * 4096" using assms(2) by simp
  ultimately show ?thesis using assms(1) by (simp add: unat_word_ariths unat_of_nat_u32 del: of_nat_mult)
qed

lemma pages_from_frames:
  assumes "aligned 12 p" "p \<noteq> 0" "unat p + n * 4096 < 4294967296" "x \<in> set (pages_from p n)"
  shows "aligned 12 x \<and> x \<noteq> 0 \<and> unat p \<le> unat x \<and> unat x + 4096 \<le> unat p + n * 4096"
proof -
  obtain i where i: "i < n" "x = p + of_nat i * PGSIZE" using assms(4) by (auto simp: set_pages_from)
  then have u: "unat x = unat p + i * 4096" using page_step_unat [of p n i] assms(3) by simp
  moreover have "unat p \<noteq> 0" using assms(2) by (simp add: unat_eq_zero)
  moreover have "Suc i * 4096 \<le> n * 4096" using i(1) by (intro mult_le_mono1) simp
  ultimately show ?thesis using assms(1) by (auto simp: aligned_def)
qed

lemma distinct_pages_from:
  "aligned 12 p \<Longrightarrow> unat p + n * 4096 < 4294967296 \<Longrightarrow> distinct (pages_from p n)"
proof (induction n arbitrary: p)
  case (Suc n)
  have u: "unat (p + PGSIZE) = unat p + 4096" using page_step_unat [of p "Suc n" 1] Suc.prems by simp
  have al: "aligned 12 (p + PGSIZE)" using Suc.prems u by (simp add: aligned_def)
  have "p \<notin> set (pages_from (p + PGSIZE) n)"
  proof
    assume "p \<in> set (pages_from (p + PGSIZE) n)"
    moreover have "p + PGSIZE \<noteq> 0" using u by (metis add_is_0 unat_0 zero_neq_numeral)
    ultimately have "unat (p + PGSIZE) \<le> unat p"
      using pages_from_frames [OF al] Suc.prems u by fastforce
    then show False using u by simp
  qed
  then show ?case using Suc.IH [OF al] Suc.prems u by simp
qed simp

lemma free_range_loop_pages:
  assumes "unat vend + 4096 < 4294967296" "unat p \<le> unat vend"
  shows "free_range_loop p vend s =
    Some (fold kfree (pages_from p ((unat vend - unat p) div 4096)) s)"
  using assms(2)
proof (induction "(unat vend - unat p) div 4096" arbitrary: p s)
  case 0
  then have "\<not> p + PGSIZE \<le> vend"
    using page_step_unat [of p 1 1] assms(1) by (simp add: word_le_nat_alt div_eq_0_iff)
  then show ?case using 0 by (simp add: free_range_loop.simps)
next
  case (Suc n)
  have u: "unat (p + PGSIZE) = unat p + 4096" using page_step_unat [of p 1 1] assms(1) Suc.prems by simp
  have le: "unat p + 4096 \<le> unat vend" using Suc.hyps(2) by (cases "unat vend - unat p < 4096") auto
  have n: "n = (unat vend - unat (p + PGSIZE)) div 4096"
  proof -
    have "unat vend - unat p = (unat vend - unat (p + PGSIZE)) + 4096" using u le by simp
    then show ?thesis using Suc.hyps(2) by simp
  qed
  have "free_range_loop (p + PGSIZE) vend (kfree p s) =
      Some (fold kfree (pages_from (p + PGSIZE) ((unat vend - unat (p + PGSIZE)) div 4096)) (kfree p s))"
    by (rule Suc.hyps(1) [OF n]) (use u le in simp)
  moreover have "p + PGSIZE \<le> vend" using u le by (simp add: word_le_nat_alt)
  ultimately show ?case using n by (subst free_range_loop.simps) (simp flip: Suc.hyps(2))
qed

lemma fold_kfree_pool:
  assumes "free_pages s xs" "distinct ps" "\<And>p. p \<in> set ps \<Longrightarrow> aligned 12 p \<and> p \<noteq> 0 \<and> p \<notin> set xs"
  shows "free_pages (fold kfree ps s) (rev ps @ xs)"
  using assms
proof (induction ps arbitrary: s xs)
  case (Cons p ps)
  have "free_pages (kfree p s) (p # xs)" using Cons.prems by (intro kfree_cons) auto
  then have "free_pages (fold kfree ps (kfree p s)) (rev ps @ (p # xs))"
    by (rule Cons.IH) (use Cons.prems in auto)
  then show ?case by simp
qed simp

lemma aligned_PGROUNDUP [simp]: "aligned 12 (PGROUNDUP v)"
  using aligned_PGROUNDDOWN [of "v + PGSIZE - 1"] by (simp only: PGROUNDUP_def PGROUNDDOWN_def)

lemma unat_PGROUNDUP:
  assumes "unat v + 4096 \<le> 4294967296"
  shows "unat (PGROUNDUP v) = (unat v + 4095) div 4096 * 4096"
proof -
  have "PGROUNDUP v = PGROUNDDOWN (v + 4095)"
    by (simp add: PGROUNDUP_def PGROUNDDOWN_def PGSIZE_def add_diff_eq [symmetric])
  moreover have "unat (v + 4095) = unat v + 4095" using assms by (simp add: unat_word_ariths)
  ultimately show ?thesis
    by (simp only: unat_PGROUNDDOWN) (metis minus_mod_eq_div_mult)
qed

lemma fold_kfree_more: "phys.more (fold kfree ps s) = phys.more s"
  by (induction ps arbitrary: s) (simp_all add: kfree_def Let_def)

lemma init_memory_step:
  assumes "free_pages s xs" "vstart \<noteq> 0" "unat (PGROUNDUP vstart) \<le> unat vend"
    and "unat vstart + 4096 \<le> 4294967296" "unat vend + 4096 < 4294967296"
    and "\<forall>x \<in> set xs. unat x < unat vstart \<or> unat vend \<le> unat x"
  shows "\<exists>s'. init_physical_memory vstart vend s = Some s'
    \<and> free_pages s' (rev (pages_from (PGROUNDUP vstart) ((unat vend - unat (PGROUNDUP vstart)) div 4096)) @ xs)
    \<and> phys.more s' = phys.more s"
proof -
  let ?p = "PGROUNDUP vstart" and ?n = "(unat vend - unat (PGROUNDUP vstart)) div 4096"
  have up: "unat vstart \<le> unat ?p" using unat_PGROUNDUP [OF assms(4)] by linarith
  have nz: "?p \<noteq> 0" using up assms(2) by (metis le_zero_eq unat_0 unat_eq_zero)
  have n: "unat ?p + ?n * 4096 \<le> unat vend" using assms(3) by (metis div_times_less_eq_dividend
        le_diff_conv2 add.commute)
  then have b: "unat ?p + ?n * 4096 < 4294967296" using assms(5) by simp
  have new: "aligned 12 x \<and> x \<noteq> 0 \<and> x \<notin> set xs" if "x \<in> set (pages_from ?p ?n)" for x
    using pages_from_frames [OF aligned_PGROUNDUP nz b that] up n assms(6) by fastforce
  have "free_pages (fold kfree (pages_from ?p ?n) s) (rev (pages_from ?p ?n) @ xs)"
    using assms(1) distinct_pages_from [OF aligned_PGROUNDUP b] new by (rule fold_kfree_pool)
  moreover have "init_physical_memory vstart vend s = Some (fold kfree (pages_from ?p ?n) s)"
    using free_range_loop_pages [OF assms(5,3)] by (simp add: init_physical_memory_def free_range_def)
  ultimately show ?thesis using fold_kfree_more by blast
qed

subsection \<open>Properties\<close>

text \<open>C10: however a client interleaves allocations with releases of pages it holds, every page
  of the initial pool stays either free or held and never both: kalloc never hands out a page that is
  still in use, and no page is lost.\<close>

theorem kalloc_partitions_pages:
  assumes "free_pages s xs" "client_run kalloc kfree (s, {}) (s', held)"
  shows "\<exists>ys. free_pages s' ys \<and> set ys \<inter> held = {} \<and> set ys \<union> held = set xs
    \<and> fst (kalloc s') \<notin> held"
proof -
  obtain ys where ys: "free_pages s' ys" "set ys \<inter> held = {}" "set ys \<union> held = set xs"
    "\<forall>p \<in> held. aligned 12 p \<and> p \<noteq> 0"
    using frames.client_run_partition [OF assms(2), of xs] assms(1) by auto
  from ys(1) have "fst (kalloc s') \<notin> held"
    by (cases rule: frames.alloc_cases) (use ys in auto)
  then show ?thesis using ys by blast
qed

theorem kalloc_partitions_pages_witness:
  "\<exists>ys. free_pages (kfree 8192 \<lparr>ram = \<lambda>_. 0, freelist = 0\<rparr>) ys \<and> set ys \<inter> {} = {}
    \<and> set ys \<union> {} = {8192} \<and> fst (kalloc (kfree 8192 \<lparr>ram = \<lambda>_. 0, freelist = 0\<rparr>)) \<notin> {}"
proof -
  have "free_pages \<lparr>ram = \<lambda>_. 0, freelist = 0\<rparr> []" by (simp add: free_pages_def)
  then have "free_pages (kfree 8192 \<lparr>ram = \<lambda>_. 0, freelist = 0\<rparr>) [8192]"
    by (rule kfree_cons) (simp_all add: aligned_def)
  from kalloc_partitions_pages [OF this client_run.idle] show ?thesis by simp
qed

text \<open>a page goes round: freeing a page that is not free and allocating again returns that
  page and the rest of the pool as it was; apart from its first word the page is filled with the poison
  value, and no byte outside it has changed.\<close>

theorem kfree_kalloc_roundtrip:
  assumes "free_pages s xs" "aligned 12 p" "p \<noteq> 0" "p \<notin> set xs"
  shows "\<exists>s'. kalloc (kfree p s) = (p, s') \<and> free_pages s' xs \<and> freelist s' = freelist s
    \<and> (\<forall>j. 0 < j \<and> j < 1024 \<longrightarrow> load32 (ram s') (p + 4 * of_nat j) = FREE_STR)
    \<and> (\<forall>a. \<not> in_block p 4096 a \<longrightarrow> ram s' a = ram s a)"
proof -
  have pool: "free_pages (kfree p s) (p # xs)" using assms by (rule kfree_cons)
  let ?s = "kfree p s\<lparr>freelist := load32 (ram (kfree p s)) p\<rparr>"
  have "kalloc (kfree p s) = (p, ?s)" using kalloc_cons [OF pool] .
  moreover have "free_pages ?s xs" using frames.alloc_tail [OF pool] kalloc_cons [OF pool] by simp
  moreover have "freelist ?s = freelist s" by (simp add: kfree_link)
  moreover have "load32 (ram ?s) (p + 4 * of_nat j) = FREE_STR" if "0 < j \<and> j < 1024" for j
    using kfree_poison [OF assms(2), of j s] that by simp
  moreover have "ram ?s a = ram s a" if "\<not> in_block p 4096 a" for a
    using kfree_frame [OF that, of s] by simp
  ultimately show ?thesis by blast
qed

theorem kfree_kalloc_roundtrip_witness:
  "\<exists>s'. kalloc (kfree 8192 \<lparr>ram = \<lambda>_. 0, freelist = 0\<rparr>) = (8192, s') \<and> free_pages s' []
    \<and> freelist s' = freelist \<lparr>ram = \<lambda>_. 0, freelist = 0\<rparr>
    \<and> (\<forall>j. 0 < j \<and> j < 1024 \<longrightarrow> load32 (ram s') (8192 + 4 * of_nat j) = FREE_STR)
    \<and> (\<forall>a. \<not> in_block 8192 4096 a \<longrightarrow> ram s' a = ram \<lparr>ram = \<lambda>_. 0, freelist = 0\<rparr> a)"
  by (rule kfree_kalloc_roundtrip) (simp_all add: free_pages_def aligned_def)

text \<open>C31: init_physical_memory on a range of memory that is not yet free returns, and adds to the
  pool exactly the whole pages between the rounded-up start and the end, last page first; kmem_size then
  reports 4096 bytes for each page of the pool.\<close>

theorem init_physical_memory_pool:
  assumes "free_pages s xs" "vstart \<noteq> 0" "unat (PGROUNDUP vstart) \<le> unat vend"
    and "unat vstart + 4096 \<le> 4294967296" "unat vend + 4096 < 4294967296"
    and "\<forall>x \<in> set xs. unat x < unat vstart \<or> unat vend \<le> unat x"
  shows "\<exists>s'. init_physical_memory vstart vend s = Some s'
    \<and> free_pages s' (rev (pages_from (PGROUNDUP vstart) ((unat vend - unat (PGROUNDUP vstart)) div 4096)) @ xs)
    \<and> kmem_size s' = Some (of_nat ((unat vend - unat (PGROUNDUP vstart)) div 4096 + length xs) * PGSIZE)"
proof -
  obtain s' where "init_physical_memory vstart vend s = Some s'"
    "free_pages s' (rev (pages_from (PGROUNDUP vstart) ((unat vend - unat (PGROUNDUP vstart)) div 4096)) @ xs)"
    using init_memory_step [OF assms] by blast
  then show ?thesis using kmem_size_pool by (fastforce simp: add.commute)
qed

theorem init_physical_memory_pool_witness:
  "\<exists>s'. init_physical_memory 0x80110400 0x80400000 \<lparr>ram = \<lambda>_. 0, freelist = 0\<rparr> = Some s'
    \<and> free_pages s' (rev (pages_from 0x80111000 751) @ []) \<and> kmem_size s' = Some (751 * PGSIZE)"
proof -
  have "PGROUNDUP 0x80110400 = 0x80111000" by (simp add: PGROUNDUP_def PGSIZE_def)
  then show ?thesis
    using init_physical_memory_pool [of "\<lparr>ram = \<lambda>_. 0, freelist = 0\<rparr>" "[]" "0x80110400" "0x80400000"]
    by (simp add: free_pages_def)
qed

end
