(* ===== verification/Vm.thy ===== *)
theory Vm
  imports Kalloc StringLib
begin

section \<open>Page tables\<close>

text \<open>
  \<^verbatim>\<open>kernel/mm/vm.c\<close>: the two-level x86 page tables, kept in pages of the allocator and
  read and written as memory. \<open>lookup\<close> is what the processor's table walk finds for a virtual
  address; \<open>vm_inv\<close> is the well-formedness of an address space (its tables are distinct pages,
  none of them free); the lemmas say what each operation does to \<open>lookup\<close> at every address.

  The end of the kernel text, \<^verbatim>\<open>mem_info.kdata_start_addr\<close>, comes from the linker script
  and is the parameter \<open>kdata\<close>.
\<close>

record kmap =
  virt :: u32
  phys_start :: u32
  phys_end :: u32
  perm :: u32

record vm = phys +
  k_maps :: "kmap list"
  kpgdir :: u32
  cr3 :: u32

subsection \<open>Operations\<close>

definition walk_pgdir :: "u32 \<Rightarrow> u32 \<Rightarrow> int \<Rightarrow> 'a phys_scheme \<Rightarrow> u32 \<times> 'a phys_scheme" where
  "walk_pgdir pgdir va alloc s =
     (let pde = pgdir + 4 * PDX va
      in if load32 (ram s) pde AND PTE_P \<noteq> 0
         then (P2V (PTE_ADDR (load32 (ram s) pde)) + 4 * PTX va, s)
         else if alloc = 0 then (0, s)
         else (let (pgtab, s1) = kalloc s
               in if pgtab = 0 then (0, s1)
                  else (let m1 = snd (memset (ram s1) pgtab 0 PGSIZE);
                            m2 = store32 m1 pde (V2P pgtab OR PTE_P OR PTE_W OR PTE_U)
                        in (pgtab + 4 * PTX va, s1\<lparr>ram := m2\<rparr>))))"

definition msg_remap :: string where
  "msg_remap = [CHR 0xE6, CHR 0x98, CHR 0xA0, CHR 0xE5, CHR 0xB0, CHR 0x84, CHR 0xE5, CHR 0x88, CHR 0xB0,
     CHR 0xE9, CHR 0x87, CHR 0x8D, CHR 0xE5, CHR 0xA4, CHR 0x8D, CHR 0xE7, CHR 0x9A, CHR 0x84,
     CHR 0xE7, CHR 0xA9, CHR 0xBA, CHR 0xE9, CHR 0x97, CHR 0xB4, CHR 0xE4, CHR 0xBA, CHR 0x86]
     @ ''!''"

partial_function (option) map_pages_loop ::
  "u32 \<Rightarrow> u32 \<Rightarrow> u32 \<Rightarrow> u32 \<Rightarrow> u32 \<Rightarrow> 'a phys_scheme \<Rightarrow> (int \<times> 'a phys_scheme) res option" where
  "map_pages_loop pgdir start last_page pa prm s =
     (case walk_pgdir pgdir start 1 s of (pte, s1) \<Rightarrow>
        if pte = 0 then Some (Inr (-1, s1))
        else if load32 (ram s1) pte AND PTE_P \<noteq> 0 then Some (panic msg_remap)
        else (let s2 = s1\<lparr>ram := store32 (ram s1) pte (pa OR prm OR PTE_P)\<rparr>
              in if start = last_page then Some (Inr (0, s2))
                 else map_pages_loop pgdir (start + PGSIZE) last_page (pa + PGSIZE) prm s2))"

definition map_pages :: "u32 \<Rightarrow> u32 \<Rightarrow> u32 \<Rightarrow> u32 \<Rightarrow> u32 \<Rightarrow> 'a phys_scheme \<Rightarrow> (int \<times> 'a phys_scheme) res" where
  "map_pages pgdir va sz pa prm s =
     run_loop (map_pages_loop pgdir (PGROUNDDOWN va) (PGROUNDDOWN (va + sz - 1)) pa prm s)"

definition init_kmappings :: "u32 \<Rightarrow> 'a vm_scheme \<Rightarrow> 'a vm_scheme" where
  "init_kmappings kdata s = s\<lparr>k_maps :=
     [\<lparr>virt = KERNBASE, phys_start = 0, phys_end = EXTMEM, perm = PTE_W\<rparr>,
      \<lparr>virt = KERNLINK, phys_start = V2P KERNLINK, phys_end = V2P kdata, perm = 0\<rparr>,
      \<lparr>virt = kdata, phys_start = V2P kdata, phys_end = PHYSTOP, perm = PTE_W\<rparr>,
      \<lparr>virt = DEVSPACE, phys_start = DEVSPACE, phys_end = 0, perm = PTE_W\<rparr>]\<rparr>"

definition msg_setup_kvm :: string where
  "msg_setup_kvm = ''setup_kvm: map_pages'' @ [CHR 0xE6, CHR 0x98, CHR 0xA0, CHR 0xE5, CHR 0xB0, CHR 0x84,
     CHR 0xE5, CHR 0x87, CHR 0xBA, CHR 0xE9, CHR 0x94, CHR 0x99]"

fun setup_kvm_loop :: "u32 \<Rightarrow> kmap list \<Rightarrow> 'a phys_scheme \<Rightarrow> 'a phys_scheme res" where
  "setup_kvm_loop pgdir [] s = Inr s"
| "setup_kvm_loop pgdir (k # ks) s =
     bindR (map_pages pgdir (virt k) (phys_end k - phys_start k) (phys_start k) (perm k) s)
       (\<lambda>(erro, s1). if erro < 0 then panic msg_setup_kvm else setup_kvm_loop pgdir ks s1)"

definition setup_kvm :: "'a vm_scheme \<Rightarrow> (u32 \<times> 'a vm_scheme) res" where
  "setup_kvm s =
     (let (pgdir, s1) = kalloc s
      in if pgdir = 0 then Inr (0, s1)
         else (let s2 = s1\<lparr>ram := snd (memset (ram s1) pgdir 0 PGSIZE)\<rparr>
               in bindR (setup_kvm_loop pgdir (k_maps s) s2) (\<lambda>s3. Inr (pgdir, s3))))"

definition lcr3 :: "u32 \<Rightarrow> 'a vm_scheme \<Rightarrow> 'a vm_scheme" where
  "lcr3 p_addr s = s\<lparr>cr3 := p_addr\<rparr>"

definition init_kvm :: "u32 \<Rightarrow> 'a vm_scheme \<Rightarrow> 'a vm_scheme res" where
  "init_kvm kdata s =
     bindR (setup_kvm (init_kmappings kdata s))
       (\<lambda>(pgdir, s1). let s2 = s1\<lparr>kpgdir := pgdir\<rparr> in Inr (lcr3 (V2P (kpgdir s2)) s2))"

definition msg_init_uvm :: string where
  "msg_init_uvm = ''init_uvm: more than a page''"

definition init_uvm :: "u32 \<Rightarrow> u32 \<Rightarrow> u32 \<Rightarrow> 'a phys_scheme \<Rightarrow> 'a phys_scheme res" where
  "init_uvm pgdir init sz s =
     (if sz > PGSIZE then panic msg_init_uvm
      else (let (mm, s1) = kalloc s;
                s2 = s1\<lparr>ram := snd (memset (ram s1) mm 0 PGSIZE)\<rparr>
            in bindR (map_pages pgdir 0 PGSIZE (V2P mm) (PTE_W OR PTE_U) s2)
                 (\<lambda>(erro, s3). Inr (s3\<lparr>ram := snd (memmove (ram s3) mm init sz)\<rparr>))))"

definition switch_kvm :: "'a vm_scheme \<Rightarrow> 'a vm_scheme" where
  "switch_kvm s = lcr3 (V2P (kpgdir s)) s"

subsection \<open>The processor's walk and well-formed address spaces\<close>

definition pde_present :: "mem \<Rightarrow> u32 \<Rightarrow> u32 \<Rightarrow> bool" where
  "pde_present m pgdir i \<longleftrightarrow> load32 m (pgdir + 4 * i) AND PTE_P \<noteq> 0"

definition table_of :: "mem \<Rightarrow> u32 \<Rightarrow> u32 \<Rightarrow> u32" where
  "table_of m pgdir i = P2V (PTE_ADDR (load32 m (pgdir + 4 * i)))"

definition lookup :: "mem \<Rightarrow> u32 \<Rightarrow> u32 \<Rightarrow> u32" where
  "lookup m pgdir va =
     (if pde_present m pgdir (PDX va) then load32 m (table_of m pgdir (PDX va) + 4 * PTX va) else 0)"

definition vm_inv :: "'a phys_scheme \<Rightarrow> u32 \<Rightarrow> u32 list \<Rightarrow> bool" where
  "vm_inv s pgdir xs \<longleftrightarrow> free_pages s xs \<and> aligned 12 pgdir \<and> pgdir \<noteq> 0 \<and> pgdir \<notin> set xs
    \<and> (\<forall>i<1024. pde_present (ram s) pgdir i \<longrightarrow>
          table_of (ram s) pgdir i \<notin> {0, pgdir} \<and> table_of (ram s) pgdir i \<notin> set xs)
    \<and> (\<forall>i<1024. \<forall>j<1024. pde_present (ram s) pgdir i \<and> pde_present (ram s) pgdir j
          \<and> table_of (ram s) pgdir i = table_of (ram s) pgdir j \<longrightarrow> i = j)"

lemma PDX_lt: "PDX va < 1024"
proof -
  have "PDX va \<le> 0x3FF" unfolding PDX_def by (rule word_and_le1)
  then show ?thesis by (simp add: word_le_nat_alt word_less_nat_alt)
qed

lemma PTX_lt: "PTX va < 1024"
proof -
  have "PTX va \<le> 0x3FF" unfolding PTX_def by (rule word_and_le1)
  then show ?thesis by (simp add: word_le_nat_alt word_less_nat_alt)
qed

lemma word_of_nat_less: "(i :: u32) < 1024 \<Longrightarrow> i = of_nat (unat i) \<and> unat i < 1024"
  by (simp add: word_less_nat_alt)

lemma aligned_cell_word: "aligned 12 p \<Longrightarrow> i < 1024 \<Longrightarrow> aligned 2 (p + 4 * i)"
  using aligned_cell [of p "unat i"] by simp

lemma cell_in_page:
  assumes "i < 1024" "in_block (p + 4 * i) 4 a"
  shows "in_block p 4096 a"
proof -
  have "4 * i = of_nat (4 * unat i)" by simp
  then have "in_block (p + of_nat (4 * unat i)) 4 a" using assms(2) by simp
  then show ?thesis by (rule in_block_inside) (use word_of_nat_less [OF assms(1)] in auto)
qed

lemma cell_eq_iff:
  assumes "aligned 12 p" "aligned 12 q" "i < 1024" "j < 1024"
  shows "p + 4 * i = q + 4 * j \<longleftrightarrow> p = q \<and> i = j"
proof
  assume eq: "p + 4 * i = q + 4 * j"
  have "in_block p 4096 (p + 4 * i)" "in_block q 4096 (q + 4 * j)"
    using cell_in_page assms(3,4) in_blockI [of 0 4] by fastforce+
  then have pq: "p = q" using eq pages_disjoint [OF assms(1,2)] by metis
  then have "4 * (of_nat (unat i) :: u32) = 4 * of_nat (unat j)" using eq by simp
  then have "unat i = unat j"
    using cell_inj [of "unat i" "unat j"] word_of_nat_less assms(3,4) by force
  then show "p = q \<and> i = j" using pq by (simp only: word_unat_eq_iff)
qed simp

lemma load32_store32_cell:
  assumes "aligned 12 p" "aligned 12 q" "i < 1024" "j < 1024"
  shows "load32 (store32 m (p + 4 * i) v) (q + 4 * j) =
    (if p = q \<and> i = j then v else load32 m (q + 4 * j))"
  using ram.rd_wr [of "p + 4 * i" "q + 4 * j" m v] cell_eq_iff [of q p j i] assms
  by (auto simp: aligned_cell_word)

lemma load32_cell_cong:
  assumes "\<And>a. in_block p 4096 a \<Longrightarrow> m' a = m a" "i < 1024"
  shows "load32 m' (p + 4 * i) = load32 m (p + 4 * i)"
  by (rule load32_cong) (use assms cell_in_page in blast)

lemma aligned_table [simp]: "aligned 12 (table_of m pgdir i)"
  by (simp add: table_of_def PTE_ADDR_eq aligned_P2V)

text \<open>The two indices determine the page of an address.\<close>

lemma mask10: "(0x3FF :: u32) = mask 10"
  by (simp add: mask_eq_exp_minus_1)

lemma same_page_bits: "PGROUNDDOWN a = PGROUNDDOWN b \<longleftrightarrow> (\<forall>n. 12 \<le> n \<and> n < 32 \<longrightarrow> bit a n = bit b n)"
  unfolding PGROUNDDOWN_eq by (auto simp: bit_eq_iff bit_simps)

lemma same_page_iff: "PDX a = PDX b \<and> PTX a = PTX b \<longleftrightarrow> PGROUNDDOWN a = PGROUNDDOWN b"
proof
  assume h: "PDX a = PDX b \<and> PTX a = PTX b"
  show "PGROUNDDOWN a = PGROUNDDOWN b"
    unfolding same_page_bits
  proof (intro allI impI)
    fix n assume n: "12 \<le> n \<and> n < (32::nat)"
    show "bit a n = bit b n"
    proof (cases "n < 22")
      case True
      then have "bit (PTX a) (n - 12) = bit a n" "bit (PTX b) (n - 12) = bit b n"
        using n unfolding PTX_def mask10 by (auto simp: bit_simps)
      then show ?thesis using h by simp
    next
      case False
      then have "bit (PDX a) (n - 22) = bit a n" "bit (PDX b) (n - 22) = bit b n"
        using n unfolding PDX_def mask10 by (auto simp: bit_simps)
      then show ?thesis using h by simp
    qed
  qed
next
  assume "PGROUNDDOWN a = PGROUNDDOWN b"
  then have h: "bit a n = bit b n" if "12 \<le> n" "n < 32" for n using that by (simp add: same_page_bits)
  show "PDX a = PDX b \<and> PTX a = PTX b"
    unfolding PDX_def PTX_def mask10
    by (intro conjI; rule bit_word_eqI) (auto simp: bit_simps h)
qed

subsection \<open>One step of the walk\<close>

lemma vm_invD:
  assumes "vm_inv s pgdir xs"
  shows "free_pages s xs" "aligned 12 pgdir" "pgdir \<noteq> 0" "pgdir \<notin> set xs"
    and "i < 1024 \<Longrightarrow> pde_present (ram s) pgdir i \<Longrightarrow> table_of (ram s) pgdir i \<noteq> 0
      \<and> table_of (ram s) pgdir i \<noteq> pgdir \<and> table_of (ram s) pgdir i \<notin> set xs"
    and "i < 1024 \<Longrightarrow> j < 1024 \<Longrightarrow> pde_present (ram s) pgdir i \<Longrightarrow> pde_present (ram s) pgdir j \<Longrightarrow>
      table_of (ram s) pgdir i = table_of (ram s) pgdir j \<Longrightarrow> i = j"
  using assms unfolding vm_inv_def by blast+

lemma free_page_other:
  assumes "free_pages s xs" "x \<in> set xs" "aligned 12 p" "p \<notin> set xs" "in_block x 4096 a"
  shows "\<not> in_block p 4096 a"
  using assms pages_disjoint [of x p a] free_pages_frames [OF assms(1,2)] by auto

text \<open>A write of an entry into a table in use: \<open>lookup\<close> changes at that page only.\<close>

lemma store_entry:
  fixes e :: u32
  assumes inv: "vm_inv s pgdir xs" and pres: "pde_present (ram s) pgdir (PDX va)"
  defines "s' \<equiv> s\<lparr>ram := store32 (ram s) (table_of (ram s) pgdir (PDX va) + 4 * PTX va) e\<rparr>"
  shows "vm_inv s' pgdir xs"
    and "lookup (ram s') pgdir vb =
      (if PGROUNDDOWN vb = PGROUNDDOWN va then e else lookup (ram s) pgdir vb)"
    and "i < 1024 \<Longrightarrow> pde_present (ram s') pgdir i \<longleftrightarrow> pde_present (ram s) pgdir i"
proof -
  let ?t = "table_of (ram s) pgdir (PDX va)" and ?m = "ram s'"
  have m: "?m = store32 (ram s) (?t + 4 * PTX va) e" by (simp add: s'_def)
  have t: "?t \<noteq> 0" "?t \<noteq> pgdir" "?t \<notin> set xs" using vm_invD(5) [OF inv PDX_lt pres] by auto
  have pde: "load32 ?m (pgdir + 4 * i) = load32 (ram s) (pgdir + 4 * i)" if "i < 1024" for i
    using t that vm_invD(2) [OF inv] unfolding m by (subst load32_store32_cell) (simp_all add: PTX_lt)
  then have pp: "pde_present ?m pgdir i \<longleftrightarrow> pde_present (ram s) pgdir i"
    "table_of ?m pgdir i = table_of (ram s) pgdir i" if "i < 1024" for i
    using that by (simp_all add: pde_present_def table_of_def)
  show "i < 1024 \<Longrightarrow> pde_present ?m pgdir i \<longleftrightarrow> pde_present (ram s) pgdir i" by (rule pp)
  have "free_pages s' xs"
  proof (rule free_pages_cong [OF vm_invD(1) [OF inv]])
    fix x a assume xa: "x \<in> set xs" "in_block x 4096 a"
    then have "\<not> in_block ?t 4096 a"
      using free_page_other [OF vm_invD(1) [OF inv]] t(3) by simp
    then have "\<not> in_block (?t + 4 * PTX va) 4 a" using cell_in_page [OF PTX_lt] by blast
    then show "ram s' a = ram s a" unfolding m by (rule store32_frame)
  qed (simp add: s'_def)
  then show "vm_inv s' pgdir xs"
    using inv unfolding vm_inv_def by (simp add: pp cong: conj_cong imp_cong)
  show "lookup ?m pgdir vb = (if PGROUNDDOWN vb = PGROUNDDOWN va then e else lookup (ram s) pgdir vb)"
  proof (cases "pde_present (ram s) pgdir (PDX vb)")
    case True
    have "load32 ?m (table_of (ram s) pgdir (PDX vb) + 4 * PTX vb) =
      (if ?t = table_of (ram s) pgdir (PDX vb) \<and> PTX va = PTX vb then e
       else load32 (ram s) (table_of (ram s) pgdir (PDX vb) + 4 * PTX vb))"
      unfolding m by (rule load32_store32_cell) (simp_all add: PTX_lt)
    moreover have "?t = table_of (ram s) pgdir (PDX vb) \<longleftrightarrow> PDX va = PDX vb"
      using vm_invD(6) [OF inv PDX_lt PDX_lt pres True] by metis
    ultimately show ?thesis using True same_page_iff [of va vb]
      by (auto simp: lookup_def pp PDX_lt)
  next
    case False
    then have "PGROUNDDOWN vb \<noteq> PGROUNDDOWN va" using pres same_page_iff [of vb va] by metis
    then show ?thesis using False by (simp add: lookup_def pp PDX_lt)
  qed
qed

text \<open>A fresh table: a page of the pool, cleared, entered in the directory. \<open>lookup\<close> does not change.\<close>

lemma new_pde_bits:
  assumes "aligned 12 x"
  shows "(V2P x OR PTE_P OR PTE_W OR PTE_U) AND PTE_P \<noteq> 0"
    and "P2V (PTE_ADDR (V2P x OR PTE_P OR PTE_W OR PTE_U)) = x"
proof -
  have f: "V2P x OR PTE_P OR PTE_W OR PTE_U = V2P x OR 7"
    by (simp add: PTE_P_def PTE_W_def PTE_U_def)
  have "PTE_ADDR (V2P x OR 7) = V2P x"
    by (rule PTE_ADDR_entry) (simp_all add: aligned_V2P assms)
  then show "P2V (PTE_ADDR (V2P x OR PTE_P OR PTE_W OR PTE_U)) = x" unfolding f by simp
  have "bit ((V2P x OR 7) AND PTE_P) 0" by (simp add: PTE_P_def bit_simps)
  then show "(V2P x OR PTE_P OR PTE_W OR PTE_U) AND PTE_P \<noteq> 0" unfolding f by force
qed

lemma cleared_page:
  assumes "x \<noteq> 0"
  shows "snd (memset m x 0 PGSIZE) a = (if in_block x 4096 a then 0 else m a)"
  using assms by (simp add: memset_at PGSIZE_def)

lemma load32_cleared:
  assumes "x \<noteq> 0" "i < 1024"
  shows "load32 (snd (memset m x 0 PGSIZE)) (x + 4 * i) = 0"
proof -
  have "load32 (snd (memset m x 0 PGSIZE)) (x + 4 * i) = load32 (\<lambda>_. 0) (x + 4 * i)"
    by (rule load32_cong) (use cell_in_page [OF assms(2)] cleared_page [OF assms(1)] in auto)
  then show ?thesis by (simp add: load32_def)
qed

lemma new_table:
  assumes inv: "vm_inv s pgdir (x # xs)" and i0: "i0 < 1024" and abs: "\<not> pde_present (ram s) pgdir i0"
  defines "s' \<equiv> s\<lparr>freelist := load32 (ram s) x,
      ram := store32 (snd (memset (ram s) x 0 PGSIZE)) (pgdir + 4 * i0) (V2P x OR PTE_P OR PTE_W OR PTE_U)\<rparr>"
  shows "vm_inv s' pgdir xs" and "lookup (ram s') pgdir vb = lookup (ram s) pgdir vb"
    and "i < 1024 \<Longrightarrow> pde_present (ram s') pgdir i \<longleftrightarrow> i = i0 \<or> pde_present (ram s) pgdir i"
    and "table_of (ram s') pgdir i0 = x"
proof -
  let ?m = "ram s'" and ?m1 = "snd (memset (ram s) x 0 PGSIZE)"
  let ?e = "V2P x OR PTE_P OR PTE_W OR PTE_U"
  have m: "?m = store32 ?m1 (pgdir + 4 * i0) ?e" by (simp add: s'_def)
  have al: "aligned 12 pgdir" using inv by (rule vm_invD(2))
  have fp: "free_pages s (x # xs)" using inv by (rule vm_invD(1))
  have x: "aligned 12 x" "x \<noteq> 0" "x \<notin> set xs" "pgdir \<noteq> x"
    using free_pages_frames [OF fp, of x] frames.pool_distinct [OF fp] vm_invD(4) [OF inv] by auto
  have clr: "load32 ?m1 (p + 4 * i) = load32 (ram s) (p + 4 * i)" if "i < 1024" "aligned 12 p" "p \<noteq> x" for p i
    by (rule load32_cell_cong) (use that x cleared_page pages_disjoint [of p x] in auto)
  have cell: "load32 ?m (p + 4 * i) = (if p = pgdir \<and> i = i0 then ?e else load32 ?m1 (p + 4 * i))"
    if "i < 1024" "aligned 12 p" for p i
    unfolding m using load32_store32_cell [OF al that(2) i0 that(1)] by auto
  have pde: "load32 ?m (pgdir + 4 * i) = (if i = i0 then ?e else load32 (ram s) (pgdir + 4 * i))" if "i < 1024" for i
    using cell [OF that al] clr [OF that al] x by simp
  have pp: "pde_present ?m pgdir i \<longleftrightarrow> i = i0 \<or> pde_present (ram s) pgdir i" if "i < 1024" for i
    using pde [OF that] new_pde_bits(1) [OF x(1)] by (simp add: pde_present_def)
  show "i < 1024 \<Longrightarrow> pde_present ?m pgdir i \<longleftrightarrow> i = i0 \<or> pde_present (ram s) pgdir i" by (rule pp)
  have tt: "table_of ?m pgdir i = (if i = i0 then x else table_of (ram s) pgdir i)" if "i < 1024" for i
    using pde [OF that] new_pde_bits(2) [OF x(1)] by (simp add: table_of_def)
  then show "table_of ?m pgdir i0 = x" using i0 by simp
  have old: "table_of (ram s) pgdir i \<noteq> 0 \<and> table_of (ram s) pgdir i \<noteq> pgdir \<and> table_of (ram s) pgdir i \<noteq> x
      \<and> table_of (ram s) pgdir i \<notin> set xs" if "i < 1024" "pde_present (ram s) pgdir i" for i
    using vm_invD(5) [OF inv that] by simp
  have "free_pages s' xs"
  proof (rule free_pages_cong)
    show "free_pages (s\<lparr>freelist := load32 (ram s) x\<rparr>) xs"
      using frames.alloc_tail [OF fp] by (simp add: kalloc_cons [OF fp])
  next
    fix y a assume ya: "y \<in> set xs" "in_block y 4096 a"
    have "\<not> in_block x 4096 a" using free_page_other [OF fp _ x(1)] ya x
      by (metis free_pages_frames fp list.set_intros(2) pages_disjoint)
    moreover have "\<not> in_block pgdir 4096 a"
      using free_page_other [OF fp _ al] ya vm_invD(4) [OF inv] by auto
    then have "\<not> in_block (pgdir + 4 * i0) 4 a" using cell_in_page [OF i0] by blast
    ultimately show "ram s' a = ram (s\<lparr>freelist := load32 (ram s) x\<rparr>) a"
      using x by (simp add: m store32_frame cleared_page)
  qed (simp add: s'_def)
  then show "vm_inv s' pgdir xs"
    using al vm_invD(3,4,6) [OF inv] old abs x unfolding vm_inv_def
    by (auto simp: pp tt split: if_splits)
  show "lookup ?m pgdir vb = lookup (ram s) pgdir vb"
  proof (cases "PDX vb = i0")
    case True
    have "load32 ?m (x + 4 * PTX vb) = 0"
      using cell [OF PTX_lt x(1)] x load32_cleared [OF x(2) PTX_lt] by simp
    then show ?thesis using True abs by (simp add: lookup_def pp tt i0)
  next
    case False
    have "load32 ?m (table_of (ram s) pgdir (PDX vb) + 4 * PTX vb) =
        load32 (ram s) (table_of (ram s) pgdir (PDX vb) + 4 * PTX vb)"
      if "pde_present (ram s) pgdir (PDX vb)"
      using old [OF PDX_lt that] cell [OF PTX_lt aligned_table] clr [OF PTX_lt aligned_table] by simp
    then show ?thesis using False by (simp add: lookup_def pp tt PDX_lt)
  qed
qed

text \<open>What \<open>walk_pgdir\<close> does when it may allocate.\<close>

lemma walk_present:
  "pde_present (ram s) pgdir (PDX va) \<Longrightarrow>
    walk_pgdir pgdir va alloc s = (table_of (ram s) pgdir (PDX va) + 4 * PTX va, s)"
  by (simp add: walk_pgdir_def pde_present_def table_of_def)

lemma walk_no_alloc:
  "\<not> pde_present (ram s) pgdir (PDX va) \<Longrightarrow> walk_pgdir pgdir va 0 s = (0, s)"
  by (simp add: walk_pgdir_def pde_present_def)

lemma slot_nonzero:
  assumes "aligned 12 t" "t \<noteq> 0" "i < 1024"
  shows "t + 4 * i \<noteq> 0"
  using cell_eq_iff [OF assms(1) aligned_0 assms(3), of 0] assms(2) by simp

lemma walk_absent_nil:
  assumes "free_pages s []" "\<not> pde_present (ram s) pgdir (PDX va)"
  shows "walk_pgdir pgdir va 1 s = (0, s)"
  using assms kalloc_nil [OF assms(1)] by (simp add: walk_pgdir_def pde_present_def Let_def)

lemma walk_absent_cons:
  assumes "free_pages s (x # xs)" "\<not> pde_present (ram s) pgdir (PDX va)"
  shows "walk_pgdir pgdir va 1 s = (x + 4 * PTX va,
    s\<lparr>freelist := load32 (ram s) x,
      ram := store32 (snd (memset (ram s) x 0 PGSIZE)) (pgdir + 4 * PDX va)
               (V2P x OR PTE_P OR PTE_W OR PTE_U)\<rparr>)"
  using assms kalloc_cons [OF assms(1)] free_pages_frames [OF assms(1), of x]
  by (simp add: walk_pgdir_def pde_present_def Let_def)

subsection \<open>Growing an address space\<close>

text \<open>
  \<open>space\<close> is the set of pages an address space is built from, free ones included;
  \<open>budget\<close> says that the pool has a page for every table that is still missing in the part
  \<open>D\<close> of the directory, and \<open>r\<close> pages more; \<open>grows\<close> is what every mapping operation does: the pages stay
  the same set, nothing outside them is written, tables are never lost and the budget is kept.
\<close>

definition space :: "'a phys_scheme \<Rightarrow> u32 \<Rightarrow> u32 list \<Rightarrow> u32 set" where
  "space s pgdir xs = insert pgdir (set xs \<union> table_of (ram s) pgdir ` {i. i < 1024 \<and> pde_present (ram s) pgdir i})"

definition budget :: "u32 set \<Rightarrow> nat \<Rightarrow> 'a phys_scheme \<Rightarrow> u32 \<Rightarrow> u32 list \<Rightarrow> bool" where
  "budget D r s pgdir xs \<longleftrightarrow> (\<forall>i \<in> D. i < 1024) \<and> card {i \<in> D. \<not> pde_present (ram s) pgdir i} + r \<le> length xs"

definition grows :: "u32 set \<Rightarrow> nat \<Rightarrow> u32 \<Rightarrow> 'a phys_scheme \<Rightarrow> u32 list \<Rightarrow> 'a phys_scheme \<Rightarrow> u32 list \<Rightarrow> bool" where
  "grows D r pgdir s xs s' ys \<longleftrightarrow> vm_inv s' pgdir ys \<and> budget D r s' pgdir ys
    \<and> phys.more s' = phys.more s \<and> space s' pgdir ys = space s pgdir xs
    \<and> (\<forall>a. (\<forall>p \<in> space s pgdir xs. \<not> in_block p 4096 a) \<longrightarrow> ram s' a = ram s a)"

lemma grows_refl: "vm_inv s pgdir xs \<Longrightarrow> budget D r s pgdir xs \<Longrightarrow> grows D r pgdir s xs s xs"
  by (simp add: grows_def)

lemma grows_trans:
  "grows D r pgdir s xs s1 ys \<Longrightarrow> grows D r pgdir s1 ys s2 zs \<Longrightarrow> grows D r pgdir s xs s2 zs"
  by (simp add: grows_def)

lemma growsD:
  assumes "grows D r pgdir s xs s' ys"
  shows "vm_inv s' pgdir ys" "budget D r s' pgdir ys" "phys.more s' = phys.more s"
    and "space s' pgdir ys = space s pgdir xs"
    and "\<forall>p \<in> space s pgdir xs. \<not> in_block p 4096 a \<Longrightarrow> ram s' a = ram s a"
  using assms by (auto simp: grows_def)

lemma store_entry_grows:
  fixes e :: u32
  assumes inv: "vm_inv s pgdir xs" and bud: "budget D r s pgdir xs"
    and pres: "pde_present (ram s) pgdir (PDX va)"
  shows "grows D r pgdir s xs (s\<lparr>ram := store32 (ram s) (table_of (ram s) pgdir (PDX va) + 4 * PTX va) e\<rparr>) xs"
proof -
  let ?t = "table_of (ram s) pgdir (PDX va)"
  let ?s = "s\<lparr>ram := store32 (ram s) (?t + 4 * PTX va) e\<rparr>"
  have t: "?t \<noteq> pgdir" using vm_invD(5) [OF inv PDX_lt pres] by simp
  have same: "load32 (ram ?s) (pgdir + 4 * i) = load32 (ram s) (pgdir + 4 * i)" if "i < 1024" for i
    using t that vm_invD(2) [OF inv] by (simp add: load32_store32_cell PTX_lt)
  then have "{i. i < 1024 \<and> pde_present (ram ?s) pgdir i} = {i. i < 1024 \<and> pde_present (ram s) pgdir i}"
    "\<And>i. i < 1024 \<Longrightarrow> table_of (ram ?s) pgdir i = table_of (ram s) pgdir i"
    by (auto simp: pde_present_def table_of_def)
  then have sp: "space ?s pgdir xs = space s pgdir xs" by (simp add: space_def)
  have "{i \<in> D. \<not> pde_present (ram ?s) pgdir i} = {i \<in> D. \<not> pde_present (ram s) pgdir i}"
    using bud same by (auto simp: budget_def pde_present_def)
  then have "budget D r ?s pgdir xs" using bud by (simp add: budget_def)
  moreover have "ram ?s a = ram s a" if a: "\<forall>p \<in> space s pgdir xs. \<not> in_block p 4096 a" for a
  proof -
    have "?t \<in> space s pgdir xs" using pres PDX_lt by (auto simp: space_def)
    then have "\<not> in_block (?t + 4 * PTX va) 4 a" using a cell_in_page [OF PTX_lt] by blast
    then show ?thesis by (simp add: store32_frame)
  qed
  ultimately show ?thesis using store_entry(1) [OF inv pres] sp by (simp add: grows_def)
qed

lemma new_table_grows:
  assumes inv: "vm_inv s pgdir (x # xs)" and bud: "budget D r s pgdir (x # xs)"
    and i0: "i0 \<in> D" and abs: "\<not> pde_present (ram s) pgdir i0"
  defines "s' \<equiv> s\<lparr>freelist := load32 (ram s) x,
      ram := store32 (snd (memset (ram s) x 0 PGSIZE)) (pgdir + 4 * i0) (V2P x OR PTE_P OR PTE_W OR PTE_U)\<rparr>"
  shows "grows D r pgdir s (x # xs) s' xs"
proof -
  have lt: "i0 < 1024" using bud i0 by (simp add: budget_def)
  note nt = new_table [OF inv lt abs, folded s'_def]
  have al: "aligned 12 pgdir" using inv by (rule vm_invD(2))
  have x: "aligned 12 x" "x \<noteq> 0" "x \<noteq> pgdir"
    using free_pages_frames [OF vm_invD(1) [OF inv], of x] vm_invD(4) [OF inv] by auto
  have fin: "finite {i \<in> D. \<not> pde_present (ram s) pgdir i}" by simp
  let ?A = "{i \<in> D. \<not> pde_present (ram s) pgdir i}"
  have A: "{i \<in> D. \<not> pde_present (ram s') pgdir i} = ?A - {i0}"
    using nt(3) bud by (auto simp: budget_def)
  have "0 < card ?A" using i0 abs by (auto simp: card_gt_0_iff)
  moreover have "card ?A + r \<le> Suc (length xs)" "\<forall>i \<in> D. i < 1024" using bud by (simp_all add: budget_def)
  moreover have "card (?A - {i0}) = card ?A - 1" using i0 abs by (intro card_Diff_singleton) simp
  ultimately have bud': "budget D r s' pgdir xs" unfolding budget_def A by simp
  have tab: "table_of (ram s') pgdir i = table_of (ram s) pgdir i" if "i < 1024" "i \<noteq> i0" for i
  proof -
    have "load32 (ram s') (pgdir + 4 * i) = load32 (snd (memset (ram s) x 0 PGSIZE)) (pgdir + 4 * i)"
      using that lt al by (simp add: s'_def load32_store32_cell)
    also have "\<dots> = load32 (ram s) (pgdir + 4 * i)"
      by (rule load32_cell_cong) (use that x al cleared_page pages_disjoint [of pgdir x] in auto)
    finally show ?thesis by (simp add: table_of_def)
  qed
  have "{i. i < 1024 \<and> pde_present (ram s') pgdir i} = insert i0 {i. i < 1024 \<and> pde_present (ram s) pgdir i}"
    using nt(3) lt by auto
  moreover have "table_of (ram s') pgdir ` {i. i < 1024 \<and> pde_present (ram s) pgdir i} =
      table_of (ram s) pgdir ` {i. i < 1024 \<and> pde_present (ram s) pgdir i}"
    by (rule image_cong) (use tab abs in auto)
  ultimately have sp: "space s' pgdir xs = space s pgdir (x # xs)"
    using nt(4) by (simp add: space_def insert_commute)
  have "ram s' a = ram s a" if a: "\<forall>p \<in> space s pgdir (x # xs). \<not> in_block p 4096 a" for a
  proof -
    have "\<not> in_block x 4096 a" "\<not> in_block pgdir 4096 a" using a by (auto simp: space_def)
    moreover from this(2) have "\<not> in_block (pgdir + 4 * i0) 4 a" using cell_in_page [OF lt] by blast
    ultimately show ?thesis using x by (simp add: s'_def store32_frame cleared_page)
  qed
  then show ?thesis using nt(1) bud' sp by (simp add: grows_def) (simp add: s'_def)
qed

lemma walk_alloc:
  assumes inv: "vm_inv s pgdir xs" and bud: "budget D r s pgdir xs" and va: "PDX va \<in> D"
  shows "\<exists>s1 ys. walk_pgdir pgdir va 1 s = (table_of (ram s1) pgdir (PDX va) + 4 * PTX va, s1)
    \<and> pde_present (ram s1) pgdir (PDX va) \<and> grows D r pgdir s xs s1 ys
    \<and> (\<forall>vb. lookup (ram s1) pgdir vb = lookup (ram s) pgdir vb)"
proof (cases "pde_present (ram s) pgdir (PDX va)")
  case True
  then show ?thesis using walk_present grows_refl [OF inv bud] by blast
next
  case False
  then have "{i \<in> D. \<not> pde_present (ram s) pgdir i} \<noteq> {}" using va by auto
  then have "0 < card {i \<in> D. \<not> pde_present (ram s) pgdir i}" by (simp add: card_gt_0_iff)
  then have "0 < length xs" using bud unfolding budget_def by linarith
  then obtain x zs where xs: "xs = x # zs" by (cases xs) simp_all
  let ?s = "s\<lparr>freelist := load32 (ram s) x,
      ram := store32 (snd (memset (ram s) x 0 PGSIZE)) (pgdir + 4 * PDX va) (V2P x OR PTE_P OR PTE_W OR PTE_U)\<rparr>"
  note i = inv [unfolded xs] and b = bud [unfolded xs]
  note nt = new_table [OF i PDX_lt False]
  have "walk_pgdir pgdir va 1 s = (table_of (ram ?s) pgdir (PDX va) + 4 * PTX va, ?s)"
    using walk_absent_cons [OF vm_invD(1) [OF i] False] nt(4) by simp
  moreover have "grows D r pgdir s xs ?s zs" unfolding xs by (rule new_table_grows [OF i b va False])
  moreover have "pde_present (ram ?s) pgdir (PDX va)" using nt(3) [OF PDX_lt] by simp
  ultimately show ?thesis using nt(2) by blast
qed

subsection \<open>Mapping a range of pages\<close>

text \<open>
  \<open>map_pages_loop_maps\<close>: on a range of whole pages that is not mapped yet, with enough free pages
  for the missing tables, the loop returns 0 and afterwards \<open>lookup\<close> finds the new entries in the
  range and the old ones everywhere else.
\<close>

definition in_pages :: "u32 \<Rightarrow> nat \<Rightarrow> u32 \<Rightarrow> bool" where
  "in_pages start n va \<longleftrightarrow> (\<exists>i\<le>n. PGROUNDDOWN va = start + of_nat i * PGSIZE)"

lemma in_pages_Suc:
  "in_pages start (Suc n) va \<longleftrightarrow> PGROUNDDOWN va = start \<or> in_pages (start + PGSIZE) n va"
proof -
  have "(\<exists>i\<le>Suc n. P i) \<longleftrightarrow> P 0 \<or> (\<exists>i\<le>n. P (Suc i))" for P
    by (metis Suc_le_mono bot_nat_0.extremum not0_implies_Suc)
  then show ?thesis unfolding in_pages_def by (simp add: algebra_simps)
qed

lemma in_pages_iff:
  assumes "aligned 12 start" "n < 1048576"
  shows "in_pages start n va \<longleftrightarrow> unat (PGROUNDDOWN va - start) \<le> n * 4096"
proof
  assume "in_pages start n va"
  then obtain i where i: "i \<le> n" "PGROUNDDOWN va - start = of_nat (i * 4096)"
    by (auto simp: in_pages_def PGSIZE_def)
  then have "unat (PGROUNDDOWN va - start) = i * 4096" using assms(2) by (simp only: unat_of_nat_u32)
  then show "unat (PGROUNDDOWN va - start) \<le> n * 4096" using i(1) by simp
next
  assume le: "unat (PGROUNDDOWN va - start) \<le> n * 4096"
  have "aligned 12 (PGROUNDDOWN va - start)" using assms(1) by (intro aligned_minus) simp_all
  then obtain i where i: "unat (PGROUNDDOWN va - start) = i * 4096"
    by (auto simp: aligned_def mod_eq_0_iff_dvd dvd_def mult.commute)
  then have "PGROUNDDOWN va - start = of_nat (i * 4096)" by (metis of_nat_unat ucast_id)
  then have "PGROUNDDOWN va = start + of_nat i * PGSIZE" by (simp add: PGSIZE_def diff_eq_eq add.commute)
  then show "in_pages start n va" using le i unfolding in_pages_def by (intro exI [of _ i]) simp
qed

lemma aligned_PGSIZE [simp]: "aligned 12 PGSIZE"
  by (simp add: aligned_def PGSIZE_def)

lemma entry_present: "(e OR PTE_P) AND PTE_P \<noteq> 0"
proof -
  have "bit ((e OR PTE_P) AND PTE_P) 0" by (simp add: PTE_P_def bit_simps)
  then show ?thesis by force
qed

lemma step_ne:
  assumes "n < 1048576" "i < n"
  shows "start + of_nat (Suc i) * PGSIZE \<noteq> start"
proof
  assume "start + of_nat (Suc i) * PGSIZE = start"
  then have "of_nat (Suc i * 4096) = (of_nat 0 :: u32)" by (simp add: PGSIZE_def)
  moreover have "Suc i * 4096 < 4294967296" using assms by simp
  ultimately show False by (subst (asm) of_nat_inj_u32) simp_all
qed

lemma slot_of_present:
  assumes "vm_inv s pgdir xs" "pde_present (ram s) pgdir (PDX va)"
  shows "table_of (ram s) pgdir (PDX va) + 4 * PTX va \<noteq> 0"
    and "load32 (ram s) (table_of (ram s) pgdir (PDX va) + 4 * PTX va) = lookup (ram s) pgdir va"
  using vm_invD(5) [OF assms(1) PDX_lt assms(2)] assms(2)
  by (simp_all add: slot_nonzero PTX_lt lookup_def)

lemma PGROUNDDOWN_offset:
  "in_block (PGROUNDDOWN vb) 4096 vb"
  by (rule in_page_PGROUNDDOWN)

lemma lookup_page: "PGROUNDDOWN va = PGROUNDDOWN vb \<Longrightarrow> lookup m pgdir va = lookup m pgdir vb"
  using same_page_iff [of va vb] by (simp add: lookup_def)

definition new_entry :: "u32 \<Rightarrow> u32 \<Rightarrow> u32 \<Rightarrow> u32 \<Rightarrow> u32" where
  "new_entry start pa prm va = (pa + (PGROUNDDOWN va - start)) OR prm OR PTE_P"

lemma map_pages_loop_maps:
  assumes "vm_inv s pgdir xs" "budget D r s pgdir xs" "aligned 12 start" "n < 1048576"
    and "\<forall>va. in_pages start n va \<longrightarrow> PDX va \<in> D \<and> lookup (ram s) pgdir va AND PTE_P = 0"
  shows "\<exists>s' ys. map_pages_loop pgdir start (start + of_nat n * PGSIZE) pa prm s = Some (Inr (0, s'))
    \<and> grows D r pgdir s xs s' ys
    \<and> (\<forall>va. lookup (ram s') pgdir va =
          (if in_pages start n va then new_entry start pa prm va else lookup (ram s) pgdir va))"
  using assms
proof (induction n arbitrary: start pa s xs)
  case 0
  have st: "in_pages start 0 va \<longleftrightarrow> PGROUNDDOWN va = start" for va by (auto simp: in_pages_def)
  then have D: "PDX start \<in> D" and fresh: "lookup (ram s) pgdir start AND PTE_P = 0"
    using 0 PGROUNDDOWN_aligned [of start] by auto
  obtain s1 ys where w: "walk_pgdir pgdir start 1 s = (table_of (ram s1) pgdir (PDX start) + 4 * PTX start, s1)"
      "pde_present (ram s1) pgdir (PDX start)" "grows D r pgdir s xs s1 ys"
      "\<And>vb. lookup (ram s1) pgdir vb = lookup (ram s) pgdir vb"
    using walk_alloc [OF 0(1,2) D] by blast
  note inv1 = growsD(1) [OF w(3)] and bud1 = growsD(2) [OF w(3)]
  let ?s2 = "s1\<lparr>ram := store32 (ram s1) (table_of (ram s1) pgdir (PDX start) + 4 * PTX start) (pa OR prm OR PTE_P)\<rparr>"
  have "map_pages_loop pgdir start start pa prm s = Some (Inr (0, ?s2))"
    using slot_of_present [OF inv1 w(2)] fresh by (subst map_pages_loop.simps) (simp add: w)
  moreover have "grows D r pgdir s xs ?s2 ys"
    using w(3) store_entry_grows [OF inv1 bud1 w(2)] by (rule grows_trans)
  moreover have "lookup (ram ?s2) pgdir va = (if in_pages start 0 va then new_entry start pa prm va
      else lookup (ram s) pgdir va)" for va
    using store_entry(2) [OF inv1 w(2)] 0(3) by (simp add: st w new_entry_def)
  ultimately show ?case by auto
next
  case (Suc n)
  have st: "in_pages start (Suc n) start" using Suc.prems(3) by (simp add: in_pages_Suc)
  then have D: "PDX start \<in> D" and fresh: "lookup (ram s) pgdir start AND PTE_P = 0"
    using Suc.prems by auto
  obtain s1 ys where w: "walk_pgdir pgdir start 1 s = (table_of (ram s1) pgdir (PDX start) + 4 * PTX start, s1)"
      "pde_present (ram s1) pgdir (PDX start)" "grows D r pgdir s xs s1 ys"
      "\<And>vb. lookup (ram s1) pgdir vb = lookup (ram s) pgdir vb"
    using walk_alloc [OF Suc.prems(1,2) D] by blast
  note inv1 = growsD(1) [OF w(3)] and bud1 = growsD(2) [OF w(3)]
  let ?s2 = "s1\<lparr>ram := store32 (ram s1) (table_of (ram s1) pgdir (PDX start) + 4 * PTX start) (pa OR prm OR PTE_P)\<rparr>"
  have g2: "grows D r pgdir s xs ?s2 ys"
    using w(3) store_entry_grows [OF inv1 bud1 w(2)] by (rule grows_trans)
  have l2: "lookup (ram ?s2) pgdir va = (if PGROUNDDOWN va = start then new_entry start pa prm va
      else lookup (ram s) pgdir va)" for va
    using store_entry(2) [OF inv1 w(2)] Suc.prems(3) by (simp add: w new_entry_def)
  have rest: "\<not> in_pages (start + PGSIZE) n va" if pg: "PGROUNDDOWN va = start" for va
  proof
    assume "in_pages (start + PGSIZE) n va"
    then obtain i where i: "i \<le> n" "start = start + PGSIZE + of_nat i * PGSIZE"
      using pg unfolding in_pages_def by metis
    have "start + of_nat (Suc i) * PGSIZE = start + PGSIZE + of_nat i * PGSIZE" by (simp add: algebra_simps)
    then have "start + of_nat (Suc i) * PGSIZE = start" using i(2) by simp
    then show False using i(1) using step_ne [of "Suc n" i start] Suc.prems(4) by simp
  qed
  have al: "aligned 12 (start + PGSIZE)" using Suc.prems(3) by (intro aligned_add) simp_all
  have fr: "\<forall>va. in_pages (start + PGSIZE) n va \<longrightarrow> PDX va \<in> D \<and> lookup (ram ?s2) pgdir va AND PTE_P = 0"
    using Suc.prems(5) rest l2 by (simp add: in_pages_Suc) 
  have "\<exists>s' zs. map_pages_loop pgdir (start + PGSIZE) (start + PGSIZE + of_nat n * PGSIZE) (pa + PGSIZE) prm ?s2
        = Some (Inr (0, s')) \<and> grows D r pgdir ?s2 ys s' zs
      \<and> (\<forall>va. lookup (ram s') pgdir va = (if in_pages (start + PGSIZE) n va
            then new_entry (start + PGSIZE) (pa + PGSIZE) prm va else lookup (ram ?s2) pgdir va))"
    by (rule Suc.IH) (use growsD(1,2) [OF g2] al Suc.prems(4) fr in auto)
  then obtain s' zs where IH: "map_pages_loop pgdir (start + PGSIZE) (start + PGSIZE + of_nat n * PGSIZE)
        (pa + PGSIZE) prm ?s2 = Some (Inr (0, s'))" "grows D r pgdir ?s2 ys s' zs"
      "\<And>va. lookup (ram s') pgdir va = (if in_pages (start + PGSIZE) n va
            then new_entry (start + PGSIZE) (pa + PGSIZE) prm va else lookup (ram ?s2) pgdir va)"
    by blast
  have e: "start + PGSIZE + of_nat n * PGSIZE = start + of_nat (Suc n) * PGSIZE" by (simp add: algebra_simps)
  have "start + of_nat (Suc n) * PGSIZE \<noteq> start" using step_ne [of "Suc n" n start] Suc.prems(4) by simp
  then have "map_pages_loop pgdir start (start + of_nat (Suc n) * PGSIZE) pa prm s = Some (Inr (0, s'))"
    using slot_of_present [OF inv1 w(2)] fresh IH(1)
    unfolding e by (subst map_pages_loop.simps) (auto simp: w Let_def)
  moreover have "grows D r pgdir s xs s' zs" using g2 IH(2) by (rule grows_trans)
  moreover have "lookup (ram s') pgdir va = (if in_pages start (Suc n) va then new_entry start pa prm va
      else lookup (ram s) pgdir va)" for va
    unfolding IH(3) l2 in_pages_Suc using rest by (auto simp: new_entry_def)
  ultimately show ?case by blast
qed

text \<open>The pages of a byte range that does not run over the end of the address space.\<close>

definition region :: "u32 \<Rightarrow> u32 \<Rightarrow> u32 \<Rightarrow> bool" where
  "region va sz vb \<longleftrightarrow> PGROUNDDOWN va \<le> vb \<and> PGROUNDDOWN vb \<le> va + sz - 1"

lemma region_in_pages:
  assumes "sz \<noteq> 0" "unat va + unat sz \<le> 4294967296"
  defines "n \<equiv> unat (PGROUNDDOWN (va + sz - 1) - PGROUNDDOWN va) div 4096"
  shows "n < 1048576" "PGROUNDDOWN (va + sz - 1) = PGROUNDDOWN va + of_nat n * PGSIZE"
    and "in_pages (PGROUNDDOWN va) n vb \<longleftrightarrow> region va sz vb"
proof -
  let ?e = "va + sz - 1"
  have "unat sz \<noteq> 0" using assms(1) by (simp add: unat_eq_zero)
  moreover have "unat (va + (sz - 1)) = unat va + (unat sz - 1)"
    using assms(1,2) unat_minus_one [of sz] calculation by (simp add: unat_word_ariths)
  ultimately have e: "unat ?e = unat va + unat sz - 1" "va \<le> ?e"
    by (simp_all add: word_le_nat_alt add_diff_eq [symmetric])
  have d: "unat (PGROUNDDOWN x) = unat x div 4096 * 4096" for x
    by (simp add: unat_PGROUNDDOWN minus_mod_eq_div_mult)
  have div: "unat va div 4096 \<le> unat ?e div 4096"
    using e(2) by (intro div_le_mono) (simp add: word_le_nat_alt)
  have diff: "unat (PGROUNDDOWN x - PGROUNDDOWN va) = (unat x div 4096 - unat va div 4096) * 4096"
    if "unat va div 4096 \<le> unat x div 4096" for x
    using that by (subst unat_sub) (simp_all add: word_le_nat_alt d diff_mult_distrib)
  have n: "n = unat ?e div 4096 - unat va div 4096" unfolding n_def diff [OF div] by simp
  have "unat ?e div 4096 < 1048576" using unat_lt_u32 [of ?e] by simp
  then show n': "n < 1048576" unfolding n by simp
  have "PGROUNDDOWN ?e - PGROUNDDOWN va = of_nat (n * 4096)"
    using diff [OF div] n by (metis of_nat_unat ucast_id)
  then show "PGROUNDDOWN ?e = PGROUNDDOWN va + of_nat n * PGSIZE"
    by (simp add: PGSIZE_def diff_eq_eq add.commute)
  have "in_pages (PGROUNDDOWN va) n vb \<longleftrightarrow> unat (PGROUNDDOWN vb - PGROUNDDOWN va) \<le> n * 4096"
    by (rule in_pages_iff) (simp_all add: n')
  also have "\<dots> \<longleftrightarrow> region va sz vb"
  proof (cases "unat va div 4096 \<le> unat vb div 4096")
    case True
    have "PGROUNDDOWN va \<le> vb" using True by (simp add: word_le_nat_alt d)
    moreover have "PGROUNDDOWN vb \<le> ?e \<longleftrightarrow> unat vb div 4096 \<le> unat ?e div 4096"
      by (simp add: word_le_nat_alt d) linarith
    ultimately show ?thesis using diff [OF True] True div by (simp add: region_def n) linarith
  next
    case False
    then have "\<not> PGROUNDDOWN va \<le> vb" by (simp add: word_le_nat_alt d)
    moreover have "\<not> unat (PGROUNDDOWN vb - PGROUNDDOWN va) \<le> n * 4096"
    proof
      assume le: "unat (PGROUNDDOWN vb - PGROUNDDOWN va) \<le> n * 4096"
      have "PGROUNDDOWN vb = PGROUNDDOWN va + (PGROUNDDOWN vb - PGROUNDDOWN va)" by simp
      moreover have "unat (PGROUNDDOWN va) + n * 4096 < 4294967296"
        using div unat_lt_u32 [of ?e] unfolding n d by linarith
      then have "unat (PGROUNDDOWN va + (PGROUNDDOWN vb - PGROUNDDOWN va)) =
          unat (PGROUNDDOWN va) + unat (PGROUNDDOWN vb - PGROUNDDOWN va)"
        using le by (subst unat_word_ariths) simp
      ultimately have "unat (PGROUNDDOWN va) \<le> unat (PGROUNDDOWN vb)" by (metis le_add1)
      then show False using False unfolding d by simp
    qed
    ultimately show ?thesis by (simp add: region_def)
  qed
  finally show "in_pages (PGROUNDDOWN va) n vb \<longleftrightarrow> region va sz vb" .
qed

lemma map_pages_maps:
  assumes "vm_inv s pgdir xs" "budget D r s pgdir xs" "sz \<noteq> 0" "unat va + unat sz \<le> 4294967296"
    and "\<forall>vb. region va sz vb \<longrightarrow> PDX vb \<in> D \<and> lookup (ram s) pgdir vb AND PTE_P = 0"
  shows "\<exists>s' ys. map_pages pgdir va sz pa prm s = Inr (0, s') \<and> grows D r pgdir s xs s' ys
    \<and> (\<forall>vb. lookup (ram s') pgdir vb = (if region va sz vb then new_entry (PGROUNDDOWN va) pa prm vb
          else lookup (ram s) pgdir vb))"
proof -
  let ?n = "unat (PGROUNDDOWN (va + sz - 1) - PGROUNDDOWN va) div 4096"
  note r = region_in_pages [OF assms(3,4)]
  have "\<exists>s' ys. map_pages_loop pgdir (PGROUNDDOWN va) (PGROUNDDOWN va + of_nat ?n * PGSIZE) pa prm s = Some (Inr (0, s'))
    \<and> grows D r pgdir s xs s' ys
    \<and> (\<forall>vb. lookup (ram s') pgdir vb = (if in_pages (PGROUNDDOWN va) ?n vb
          then new_entry (PGROUNDDOWN va) pa prm vb else lookup (ram s) pgdir vb))"
    by (rule map_pages_loop_maps) (use assms r in auto)
  then show ?thesis unfolding r(3) map_pages_def r(2) [symmetric] by auto
qed

subsection \<open>The kernel's mappings\<close>

abbreviation kregion :: "kmap \<Rightarrow> u32 \<Rightarrow> bool" where
  "kregion k \<equiv> region (virt k) (phys_end k - phys_start k)"

definition kmap_ok :: "kmap \<Rightarrow> bool" where
  "kmap_ok k \<longleftrightarrow> phys_end k \<noteq> phys_start k \<and> unat (virt k) + unat (phys_end k - phys_start k) \<le> 4294967296"

fun kmap_entry :: "kmap list \<Rightarrow> u32 \<Rightarrow> u32 \<Rightarrow> u32" where
  "kmap_entry [] old va = old"
| "kmap_entry (k # ks) old va =
    (if kregion k va then new_entry (PGROUNDDOWN (virt k)) (phys_start k) (perm k) va else kmap_entry ks old va)"

lemma kmap_entry_none: "\<forall>k \<in> set ks. \<not> kregion k va \<Longrightarrow> kmap_entry ks old va = old"
  by (induction ks) simp_all

lemma setup_kvm_loop_maps:
  assumes "vm_inv s pgdir xs" "budget D r s pgdir xs"
    and "\<forall>k \<in> set ks. kmap_ok k \<and> (\<forall>va. kregion k va \<longrightarrow> PDX va \<in> D \<and> lookup (ram s) pgdir va AND PTE_P = 0)"
    and "sorted_wrt (\<lambda>k k'. \<forall>va. \<not> (kregion k va \<and> kregion k' va)) ks"
  shows "\<exists>s' ys. setup_kvm_loop pgdir ks s = Inr s' \<and> grows D r pgdir s xs s' ys
    \<and> (\<forall>va. lookup (ram s') pgdir va = kmap_entry ks (lookup (ram s) pgdir va) va)"
  using assms
proof (induction ks arbitrary: s xs)
  case Nil
  then show ?case using grows_refl by fastforce
next
  case (Cons k ks)
  have "\<exists>s1 ys. map_pages pgdir (virt k) (phys_end k - phys_start k) (phys_start k) (perm k) s = Inr (0, s1)
      \<and> grows D r pgdir s xs s1 ys
      \<and> (\<forall>va. lookup (ram s1) pgdir va = (if kregion k va
            then new_entry (PGROUNDDOWN (virt k)) (phys_start k) (perm k) va else lookup (ram s) pgdir va))"
    by (rule map_pages_maps) (use Cons.prems in \<open>auto simp: kmap_ok_def\<close>)
  then obtain s1 ys where m: "map_pages pgdir (virt k) (phys_end k - phys_start k) (phys_start k) (perm k) s = Inr (0, s1)"
      "grows D r pgdir s xs s1 ys"
      "\<And>va. lookup (ram s1) pgdir va = (if kregion k va
            then new_entry (PGROUNDDOWN (virt k)) (phys_start k) (perm k) va else lookup (ram s) pgdir va)"
    by blast
  have "\<exists>s' zs. setup_kvm_loop pgdir ks s1 = Inr s' \<and> grows D r pgdir s1 ys s' zs
      \<and> (\<forall>va. lookup (ram s') pgdir va = kmap_entry ks (lookup (ram s1) pgdir va) va)"
    by (rule Cons.IH) (use Cons.prems growsD(1,2) [OF m(2)] m(3) in auto)
  then obtain s' zs where IH: "setup_kvm_loop pgdir ks s1 = Inr s'" "grows D r pgdir s1 ys s' zs"
      "\<And>va. lookup (ram s') pgdir va = kmap_entry ks (lookup (ram s1) pgdir va) va"
    by blast
  have "kmap_entry ks (lookup (ram s1) pgdir va) va = kmap_entry (k # ks) (lookup (ram s) pgdir va) va" for va
    using Cons.prems(4) by (cases "kregion k va") (auto simp: m(3) kmap_entry_none)
  then show ?case using IH m(1) grows_trans [OF m(2) IH(2)] by (intro exI [of _ s'] exI [of _ zs]) simp
qed

lemma clear_pgdir:
  assumes "free_pages s (p # xs)"
  defines "s' \<equiv> s\<lparr>freelist := load32 (ram s) p, ram := snd (memset (ram s) p 0 PGSIZE)\<rparr>"
  shows "vm_inv s' p xs" "lookup (ram s') p va = 0" "i < 1024 \<Longrightarrow> \<not> pde_present (ram s') p i"
proof -
  have p: "aligned 12 p" "p \<noteq> 0" "p \<notin> set xs"
    using free_pages_frames [OF assms(1), of p] frames.pool_distinct [OF assms(1)] by auto
  have ab: "\<not> pde_present (ram s') p i" if "i < 1024" for i
    using load32_cleared [OF p(2) that] by (simp add: s'_def pde_present_def)
  then show "i < 1024 \<Longrightarrow> \<not> pde_present (ram s') p i" .
  show "lookup (ram s') p va = 0" using ab [OF PDX_lt] by (simp add: lookup_def)
  have "free_pages s' xs"
  proof (rule free_pages_cong)
    show "free_pages (s\<lparr>freelist := load32 (ram s) p\<rparr>) xs"
      using frames.alloc_tail [OF assms(1)] by (simp add: kalloc_cons [OF assms(1)])
  next
    fix y a assume ya: "y \<in> set xs" "in_block y 4096 a"
    then have "aligned 12 y" using free_pages_frames [OF assms(1)] by simp
    then have "\<not> in_block p 4096 a" using ya p pages_disjoint [of p y a] by auto
    then show "ram s' a = ram (s\<lparr>freelist := load32 (ram s) p\<rparr>) a" using p by (simp add: s'_def cleared_page)
  qed (simp add: s'_def)
  then show "vm_inv s' p xs" using p ab by (simp add: vm_inv_def)
qed

text \<open>The address space the kernel promises: what the walk finds at each virtual address.\<close>

definition kernel_entry :: "u32 \<Rightarrow> u32 \<Rightarrow> u32" where
  "kernel_entry kdata va =
     (if va < KERNBASE then 0
      else if va < KERNLINK then V2P (PGROUNDDOWN va) OR PTE_W OR PTE_P
      else if va < kdata then V2P (PGROUNDDOWN va) OR PTE_P
      else if va < P2V PHYSTOP then V2P (PGROUNDDOWN va) OR PTE_W OR PTE_P
      else if va < DEVSPACE then 0
      else PGROUNDDOWN va OR PTE_W OR PTE_P)"

definition kernel_maps :: "u32 \<Rightarrow> kmap list" where
  "kernel_maps kdata = k_maps (init_kmappings kdata \<lparr>ram = \<lambda>_. 0, freelist = 0, k_maps = [], kpgdir = 0, cr3 = 0\<rparr>)"

lemma region_aligned:
  assumes "aligned 12 va" "aligned 12 (va + sz)"
  shows "region va sz vb \<longleftrightarrow> va \<le> vb \<and> (va + sz = 0 \<or> vb < va + sz)"
proof -
  have "PGROUNDDOWN vb \<le> e - 1 \<longleftrightarrow> vb < e" if e: "aligned 12 e" "e \<noteq> 0" for e :: u32
  proof -
    obtain k where k: "unat e = k * 4096" using e(1) by (auto simp: aligned_def mod_eq_0_iff_dvd dvd_def mult.commute)
    have "unat e \<noteq> 0" using e(2) by (simp add: unat_eq_zero)
    then have "PGROUNDDOWN vb \<le> e - 1 \<longleftrightarrow> unat vb div 4096 * 4096 < unat e"
      using unat_minus_one [OF e(2)] by (auto simp: word_le_nat_alt unat_PGROUNDDOWN minus_mod_eq_div_mult)
    also have "\<dots> \<longleftrightarrow> unat vb < unat e" unfolding k by (simp add: div_less_iff_less_mult)
    finally show ?thesis by (simp add: word_less_nat_alt)
  qed
  then show ?thesis using assms by (cases "va + sz = 0") (simp_all add: region_def)
qed

lemma unat_PDX: "unat (PDX va) = unat va div 4194304"
proof -
  have "PDX va = drop_bit 22 va"
    unfolding PDX_def mask10 by (rule bit_word_eqI) (auto simp: bit_simps dest: bit_imp_le_length)
  then have "unat (PDX va) = drop_bit 22 (unat va)" by (simp only: unat_drop_bit_eq)
  then show ?thesis by (simp add: drop_bit_eq_div)
qed

definition kdata_ok :: "u32 \<Rightarrow> bool" where
  "kdata_ok kdata \<longleftrightarrow> aligned 12 kdata \<and> KERNLINK < kdata \<and> kdata < P2V PHYSTOP"

lemma kernel_bounds: "kdata_ok kdata \<Longrightarrow> KERNBASE < KERNLINK \<and> KERNLINK < kdata \<and> kdata < P2V PHYSTOP \<and> P2V PHYSTOP < DEVSPACE"
  by (simp add: kdata_ok_def) (simp add: mmu_consts P2V_def)

lemma kregions:
  assumes kdata: "kdata_ok kdata"
  shows "region KERNBASE (EXTMEM - 0) va \<longleftrightarrow> KERNBASE \<le> va \<and> va < KERNLINK"
  "region KERNLINK (V2P kdata - V2P KERNLINK) va \<longleftrightarrow> KERNLINK \<le> va \<and> va < kdata"
  "region kdata (PHYSTOP - V2P kdata) va \<longleftrightarrow> kdata \<le> va \<and> va < P2V PHYSTOP"
  "region DEVSPACE (0 - DEVSPACE) va \<longleftrightarrow> DEVSPACE \<le> va"
proof -
  have "kdata \<noteq> 0" "aligned 12 kdata" using kdata by (auto simp: kdata_ok_def)
  then show "region KERNBASE (EXTMEM - 0) va \<longleftrightarrow> KERNBASE \<le> va \<and> va < KERNLINK"
    "region KERNLINK (V2P kdata - V2P KERNLINK) va \<longleftrightarrow> KERNLINK \<le> va \<and> va < kdata"
    "region kdata (PHYSTOP - V2P kdata) va \<longleftrightarrow> kdata \<le> va \<and> va < P2V PHYSTOP"
    "region DEVSPACE (0 - DEVSPACE) va \<longleftrightarrow> DEVSPACE \<le> va"
    by (subst region_aligned; simp add: V2P_def P2V_def mmu_consts aligned_def)+
qed

lemma kernel_maps_ok:
  assumes "kdata_ok kdata" "k \<in> set (kernel_maps kdata)"
  shows "kmap_ok k"
proof -
  have "unat KERNLINK < unat kdata" "unat kdata < unat (P2V PHYSTOP)"
    using kernel_bounds [OF assms(1)] by (simp_all only: word_less_nat_alt)
  then have b: "0x80100000 < unat kdata" "unat kdata < 0x8E000000" by (simp_all add: mmu_consts P2V_def)
  then have "unat (kdata - 0x80100000) = unat kdata - 0x80100000"
    "unat (0x8E000000 - kdata) = 0x8E000000 - unat kdata"
    by (subst unat_sub; simp add: word_le_nat_alt)+
  moreover have "kdata \<noteq> 0x80100000" "kdata \<noteq> 0x8E000000" using b by auto
  ultimately show ?thesis
    using assms(2) b by (auto simp: kernel_maps_def init_kmappings_def kmap_ok_def V2P_def mmu_consts)
qed

lemma five_ranges:
  fixes v :: "'a::linorder"
  assumes "a < b \<and> b < c \<and> c < d \<and> d < e"
  shows "(if a \<le> v \<and> v < b then A else if b \<le> v \<and> v < c then B else if c \<le> v \<and> v < d then C
      else if e \<le> v then E else Z) =
    (if v < a then Z else if v < b then A else if v < c then B else if v < d then C else if v < e then Z else E)"
  using assms by auto

lemma kernel_maps_entry:
  assumes "kdata_ok kdata"
  shows "kmap_entry (kernel_maps kdata) 0 va = kernel_entry kdata va"
proof -
  have al: "aligned 12 kdata" "aligned 12 KERNBASE" "aligned 12 KERNLINK" "aligned 12 DEVSPACE"
    using assms by (simp_all add: kdata_ok_def) (simp_all add: mmu_consts aligned_def)
  have "kmap_entry (kernel_maps kdata) 0 va =
    (if KERNBASE \<le> va \<and> va < KERNLINK then new_entry KERNBASE 0 PTE_W va
     else if KERNLINK \<le> va \<and> va < kdata then new_entry KERNLINK (V2P KERNLINK) 0 va
     else if kdata \<le> va \<and> va < P2V PHYSTOP then new_entry kdata (V2P kdata) PTE_W va
     else if DEVSPACE \<le> va then new_entry DEVSPACE DEVSPACE PTE_W va else 0)"
    by (simp only: kernel_maps_def init_kmappings_def vm.simps kmap.simps kmap_entry.simps kregions [OF assms]
        PGROUNDDOWN_aligned [OF al(1)] PGROUNDDOWN_aligned [OF al(2)] PGROUNDDOWN_aligned [OF al(3)]
        PGROUNDDOWN_aligned [OF al(4)])
  then show ?thesis
    unfolding five_ranges [OF kernel_bounds [OF assms]] kernel_entry_def
    by (simp add: new_entry_def V2P_def)
qed

lemma kernel_maps_disjoint:
  assumes "kdata_ok kdata"
  shows "sorted_wrt (\<lambda>k k'. \<forall>va. \<not> (kregion k va \<and> kregion k' va)) (kernel_maps kdata)"
  using kernel_bounds [OF assms]
  by (simp only: kernel_maps_def init_kmappings_def vm.simps kmap.simps sorted_wrt.simps list.set ball_simps
      kregions [OF assms]) auto

definition kernel_dirs :: "u32 set" where
  "kernel_dirs = {i. 512 \<le> i \<and> i \<le> 567 \<or> 1016 \<le> i \<and> i \<le> 1023}"

lemma kernel_maps_dirs:
  assumes "kdata_ok kdata" "k \<in> set (kernel_maps kdata)" "kregion k va"
  shows "PDX va \<in> kernel_dirs"
proof -
  have "KERNBASE \<le> va \<and> va < P2V PHYSTOP \<or> DEVSPACE \<le> va"
    using assms(2,3) kernel_bounds [OF assms(1)]
    by (auto simp only: kernel_maps_def init_kmappings_def vm.simps kmap.simps list.set kregions [OF assms(1)])
  then have "0x80000000 \<le> unat va \<and> unat va < 0x8E000000 \<or> 0xFE000000 \<le> unat va \<and> unat va < 4294967296"
    using unat_lt_u32 [of va] by (simp add: mmu_consts P2V_def word_le_nat_alt word_less_nat_alt)
  then have "512 \<le> unat (PDX va) \<and> unat (PDX va) \<le> 567 \<or> 1016 \<le> unat (PDX va) \<and> unat (PDX va) \<le> 1023"
    unfolding unat_PDX by auto
  then show ?thesis by (simp add: kernel_dirs_def word_le_nat_alt)
qed

lemma card_kernel_dirs: "card kernel_dirs \<le> 64" "\<forall>i \<in> kernel_dirs. i < 1024"
proof -
  have sub: "unat ` kernel_dirs \<subseteq> {512..567} \<union> {1016..1023}"
    by (auto simp: kernel_dirs_def word_le_nat_alt)
  have "card kernel_dirs = card (unat ` kernel_dirs)"
    by (rule card_image [symmetric]) (meson inj_onI word_unat_eq_iff)
  also have "\<dots> \<le> card ({512..567::nat} \<union> {1016..1023})" using sub by (rule card_mono [rotated]) simp
  also have "\<dots> \<le> 64" using card_Un_le [of "{512..567::nat}" "{1016..1023}"] by simp
  finally show "card kernel_dirs \<le> 64" .
  show "\<forall>i \<in> kernel_dirs. i < 1024" by (auto simp: kernel_dirs_def word_le_nat_alt word_less_nat_alt)
qed

lemma kalloc_more [simp]: "phys.more (snd (kalloc s)) = phys.more s"
  by (simp add: kalloc_def Let_def)

lemma setup_kvm_maps:
  assumes "free_pages s xs" "65 + r \<le> length xs" "kdata_ok kdata" "k_maps s = kernel_maps kdata"
  shows "\<exists>s' ys. setup_kvm s = Inr (hd xs, s') \<and> vm_inv s' (hd xs) ys \<and> phys.more s' = phys.more s
    \<and> (\<forall>va. lookup (ram s') (hd xs) va = kernel_entry kdata va)
    \<and> r \<le> length ys \<and> space s' (hd xs) ys = set xs
    \<and> (\<forall>a. (\<forall>p \<in> set xs. \<not> in_block p 4096 a) \<longrightarrow> ram s' a = ram s a)"
proof -
  obtain p zs where xs: "xs = p # zs" using assms(2) by (cases xs) auto
  note fp = assms(1) [unfolded xs]
  have p: "p \<noteq> 0" using free_pages_frames [OF fp] by simp
  let ?s = "s\<lparr>freelist := load32 (ram s) p, ram := snd (memset (ram s) p 0 PGSIZE)\<rparr>"
  note clr = clear_pgdir [OF fp]
  have "card {i \<in> kernel_dirs. \<not> pde_present (ram ?s) p i} \<le> card kernel_dirs" by (rule card_mono) auto
  then have bud: "budget kernel_dirs r ?s p zs"
    using card_kernel_dirs assms(2) by (simp add: budget_def xs)
  have "\<exists>s' ys. setup_kvm_loop p (kernel_maps kdata) ?s = Inr s' \<and> grows kernel_dirs r p ?s zs s' ys
    \<and> (\<forall>va. lookup (ram s') p va = kmap_entry (kernel_maps kdata) (lookup (ram ?s) p va) va)"
    by (rule setup_kvm_loop_maps)
      (use clr(1,2) bud kernel_maps_ok [OF assms(3)] kernel_maps_dirs [OF assms(3)] kernel_maps_disjoint [OF assms(3)] in auto)
  then obtain s' ys where s': "setup_kvm_loop p (kernel_maps kdata) ?s = Inr s'" "grows kernel_dirs r p ?s zs s' ys"
    "\<And>va. lookup (ram s') p va = kernel_entry kdata va"
    unfolding clr(2) kernel_maps_entry [OF assms(3)] by blast
  have "setup_kvm s = Inr (p, s')"
    using s'(1) assms(4) p by (simp add: setup_kvm_def kalloc_cons [OF fp] Let_def)
  moreover have "phys.more s' = phys.more s" using growsD(3) [OF s'(2)] by simp
  moreover have sp: "space ?s p zs = set xs" using clr(3) by (auto simp: space_def xs)
  moreover have "r \<le> length ys" using growsD(2) [OF s'(2)] by (simp add: budget_def)
  moreover have "ram s' a = ram s a" if a: "\<forall>q \<in> set xs. \<not> in_block q 4096 a" for a
  proof -
    have "ram s' a = ram ?s a" using growsD(5) [OF s'(2)] a sp by simp
    then show ?thesis using a p by (simp add: cleared_page xs)
  qed
  ultimately show ?thesis using growsD(1,4) [OF s'(2)] s'(3) by (auto simp: xs)
qed

lemma fresh_pool:
  assumes "freelist s = 0" "aligned 12 p" "p \<noteq> 0" "unat p + n * 4096 < 4294967296"
  shows "free_pages (fold kfree (pages_from p n) s) (rev (pages_from p n))"
proof -
  have "free_pages s []" using assms(1) by (simp add: free_pages_def)
  then have "free_pages (fold kfree (pages_from p n) s) (rev (pages_from p n) @ [])"
    by (rule fold_kfree_pool) (use assms distinct_pages_from pages_from_frames [OF assms(2-4)] in auto)
  then show ?thesis by simp
qed

text \<open>Writes outside the pages of an address space change nothing in it.\<close>

lemma vm_inv_frame:
  assumes inv: "vm_inv s pgdir xs" and fl: "freelist s' = freelist s"
    and fr: "\<forall>p \<in> space s pgdir xs. \<forall>a. in_block p 4096 a \<longrightarrow> ram s' a = ram s a"
  shows "vm_inv s' pgdir xs" "space s' pgdir xs = space s pgdir xs"
    and "lookup (ram s') pgdir va = lookup (ram s) pgdir va"
    and "i < 1024 \<Longrightarrow> pde_present (ram s') pgdir i = pde_present (ram s) pgdir i"
proof -
  have "load32 (ram s') (pgdir + 4 * i) = load32 (ram s) (pgdir + 4 * i)" if "i < 1024" for i
    by (rule load32_cell_cong) (use fr that in \<open>auto simp: space_def\<close>)
  then have pp: "pde_present (ram s') pgdir i = pde_present (ram s) pgdir i"
    "table_of (ram s') pgdir i = table_of (ram s) pgdir i" if "i < 1024" for i
    using that by (simp_all add: pde_present_def table_of_def)
  then show "i < 1024 \<Longrightarrow> pde_present (ram s') pgdir i = pde_present (ram s) pgdir i" by simp
  show "space s' pgdir xs = space s pgdir xs" using pp by (auto simp: space_def image_iff)
  have "free_pages s' xs"
    by (rule free_pages_cong [OF vm_invD(1) [OF inv] fl]) (use fr in \<open>auto simp: space_def\<close>)
  then show "vm_inv s' pgdir xs" using inv by (simp add: vm_inv_def pp)
  show "lookup (ram s') pgdir va = lookup (ram s) pgdir va"
  proof (cases "pde_present (ram s) pgdir (PDX va)")
    case True
    then have "table_of (ram s) pgdir (PDX va) \<in> space s pgdir xs" using PDX_lt by (auto simp: space_def)
    then have "load32 (ram s') (table_of (ram s) pgdir (PDX va) + 4 * PTX va) =
        load32 (ram s) (table_of (ram s) pgdir (PDX va) + 4 * PTX va)"
      using fr by (intro load32_cell_cong PTX_lt) blast
    then show ?thesis using True by (simp add: lookup_def pp PDX_lt)
  qed (simp add: lookup_def pp PDX_lt)
qed

lemma vm_inv_alloc:
  assumes "vm_inv s pgdir (x # xs)"
  shows "vm_inv (s\<lparr>freelist := load32 (ram s) x\<rparr>) pgdir xs" "x \<notin> space (s\<lparr>freelist := f\<rparr>) pgdir xs"
    and "space s pgdir (x # xs) = insert x (space (s\<lparr>freelist := f\<rparr>) pgdir xs)"
proof -
  note fp = vm_invD(1) [OF assms]
  have "free_pages (s\<lparr>freelist := load32 (ram s) x\<rparr>) xs"
    using frames.alloc_tail [OF fp] by (simp add: kalloc_cons [OF fp])
  then show "vm_inv (s\<lparr>freelist := load32 (ram s) x\<rparr>) pgdir xs" using assms by (simp add: vm_inv_def)
  show "x \<notin> space (s\<lparr>freelist := f\<rparr>) pgdir xs"
    using frames.pool_distinct [OF fp] vm_invD(4,5) [OF assms] by (force simp: space_def)
  show "space s pgdir (x # xs) = insert x (space (s\<lparr>freelist := f\<rparr>) pgdir xs)"
    by (auto simp: space_def)
qed

lemma space_aligned: "vm_inv s pgdir xs \<Longrightarrow> p \<in> space s pgdir xs \<Longrightarrow> aligned 12 p"
  using vm_invD(1,2) free_pages_frames by (fastforce simp: space_def)

lemma first_page: "region 0 PGSIZE va \<longleftrightarrow> PGROUNDDOWN va = 0"
proof -
  have "region 0 PGSIZE va \<longleftrightarrow> unat va < 4096"
    by (subst region_aligned) (simp_all add: PGSIZE_def aligned_def word_less_nat_alt)
  also have "\<dots> \<longleftrightarrow> unat (PGROUNDDOWN va) = 0"
    by (simp add: unat_PGROUNDDOWN minus_mod_eq_div_mult div_eq_0_iff)
  finally show ?thesis by (simp add: unat_eq_zero)
qed

text \<open>\<^verbatim>\<open>init_uvm\<close> up to the mapping: the head of the pool is cleared and mapped at address 0.\<close>

lemma first_page_mapped:
  assumes "vm_inv s pgdir (x # xs)" "xs \<noteq> []" "\<forall>va. PGROUNDDOWN va = 0 \<longrightarrow> lookup (ram s) pgdir va = 0"
    and "s2 = s\<lparr>freelist := load32 (ram s) x, ram := snd (memset (ram s) x 0 PGSIZE)\<rparr>"
  shows "\<exists>s3 ys. map_pages pgdir 0 PGSIZE (V2P x) (PTE_W OR PTE_U) s2 = Inr (0, s3) \<and> vm_inv s3 pgdir ys \<and> phys.more s3 = phys.more s
    \<and> (\<forall>va. lookup (ram s3) pgdir va = (if PGROUNDDOWN va = 0 then V2P x OR PTE_W OR PTE_U OR PTE_P else lookup (ram s) pgdir va))
    \<and> space s3 pgdir ys = space s pgdir (x # xs) - {x}
    \<and> (\<forall>a. (\<forall>p \<in> space s pgdir (x # xs) - {x}. \<not> in_block p 4096 a) \<longrightarrow> ram s3 a = ram s2 a)"
proof -
  note fp = vm_invD(1) [OF assms(1)]
  have x: "aligned 12 x" "x \<noteq> 0" using free_pages_frames [OF fp] by auto
  let ?s1 = "s\<lparr>freelist := load32 (ram s) x\<rparr>"
  note al = vm_inv_alloc [OF assms(1)]
  have sp1: "space ?s1 pgdir xs = space s pgdir (x # xs) - {x}" using al(2) unfolding al(3) [of "load32 (ram s) x"] by blast
  have apart: "\<not> in_block x 4096 a" if "p \<in> space ?s1 pgdir xs" "in_block p 4096 a" for p a
    using that al(2) pages_disjoint [OF x(1) space_aligned [OF al(1)], of p a] by metis
  have fr2: "\<forall>p \<in> space ?s1 pgdir xs. \<forall>a. in_block p 4096 a \<longrightarrow> ram s2 a = ram ?s1 a"
    using apart by (simp add: cleared_page x assms(4))
  have fl2: "freelist s2 = freelist ?s1" by (simp add: assms(4))
  note i2 = vm_inv_frame [OF al(1) fl2 fr2]
  have "card {i \<in> {0}. \<not> pde_present (ram s2) pgdir i} \<le> card {0 :: u32}" by (rule card_mono) auto
  then have bud: "budget {0} 0 s2 pgdir xs" using assms(2) by (cases xs) (auto simp: budget_def)
  have pz: "PGSIZE \<noteq> 0" "unat PGSIZE = 4096" by (simp_all add: PGSIZE_def)
  have "PDX va = 0" if "PGROUNDDOWN va = 0" for va
    using that same_page_iff [of va 0] by (simp add: PDX_def PGROUNDDOWN_def)
  then have "\<exists>s3 ys. map_pages pgdir 0 PGSIZE (V2P x) (PTE_W OR PTE_U) s2 = Inr (0, s3) \<and> grows {0} 0 pgdir s2 xs s3 ys
      \<and> (\<forall>va. lookup (ram s3) pgdir va = (if region 0 PGSIZE va
            then new_entry (PGROUNDDOWN 0) (V2P x) (PTE_W OR PTE_U) va else lookup (ram s2) pgdir va))"
    using i2(1,3) assms(3) bud by (intro map_pages_maps) (simp_all add: first_page pz)
  then obtain s3 ys where m: "map_pages pgdir 0 PGSIZE (V2P x) (PTE_W OR PTE_U) s2 = Inr (0, s3)" "grows {0} 0 pgdir s2 xs s3 ys"
      "\<And>va. lookup (ram s3) pgdir va = (if PGROUNDDOWN va = 0 then V2P x OR PTE_W OR PTE_U OR PTE_P else lookup (ram s) pgdir va)"
    using i2(3) by (auto simp: first_page new_entry_def or.assoc)
  have sp3: "space s3 pgdir ys = space s pgdir (x # xs) - {x}" using growsD(4) [OF m(2)] i2(2) sp1 by simp
  have "\<forall>a. (\<forall>p \<in> space s pgdir (x # xs) - {x}. \<not> in_block p 4096 a) \<longrightarrow> ram s3 a = ram s2 a"
    using growsD(5) [OF m(2)] i2(2) sp1 by simp
  moreover have "phys.more s3 = phys.more s" using growsD(3) [OF m(2)] by (simp add: assms(4))
  ultimately show ?thesis using m(1,3) sp3 growsD(1) [OF m(2)] by blast
qed

lemma init_uvm_state:
  assumes "vm_inv s pgdir (x # xs)" "xs \<noteq> []" "sz \<le> PGSIZE" "init \<noteq> 0" "unat init + unat sz \<le> 4294967296"
    and "\<forall>va. PGROUNDDOWN va = 0 \<longrightarrow> lookup (ram s) pgdir va = 0"
    and "\<forall>a p. in_block init (unat sz) a \<and> p \<in> space s pgdir (x # xs) \<longrightarrow> \<not> in_block p 4096 a"
  shows "\<exists>s' ys. init_uvm pgdir init sz s = Inr s' \<and> vm_inv s' pgdir ys
    \<and> (\<forall>va. lookup (ram s') pgdir va =
          (if PGROUNDDOWN va = 0 then V2P x OR PTE_W OR PTE_U OR PTE_P else lookup (ram s) pgdir va))
    \<and> (\<forall>i<4096. ram s' (x + of_nat i) = (if i < unat sz then ram s (init + of_nat i) else 0))
    \<and> phys.more s' = phys.more s \<and> space s' pgdir ys = space s pgdir (x # xs) - {x}
    \<and> (\<forall>a. (\<forall>p \<in> space s pgdir (x # xs). \<not> in_block p 4096 a) \<longrightarrow> ram s' a = ram s a)"
proof -
  note fp = vm_invD(1) [OF assms(1)]
  have x: "aligned 12 x" "x \<noteq> 0" using free_pages_frames [OF fp] by auto
  let ?sp = "space s pgdir (x # xs)"
  let ?s2 = "s\<lparr>freelist := load32 (ram s) x, ram := snd (memset (ram s) x 0 PGSIZE)\<rparr>"
  obtain s3 ys where s3: "map_pages pgdir 0 PGSIZE (V2P x) (PTE_W OR PTE_U) ?s2 = Inr (0, s3)" "vm_inv s3 pgdir ys"
      "phys.more s3 = phys.more s"
      "\<forall>va. lookup (ram s3) pgdir va = (if PGROUNDDOWN va = 0 then V2P x OR PTE_W OR PTE_U OR PTE_P else lookup (ram s) pgdir va)"
      "space s3 pgdir ys = ?sp - {x}" "\<forall>a. (\<forall>p \<in> ?sp - {x}. \<not> in_block p 4096 a) \<longrightarrow> ram s3 a = ram ?s2 a"
    using first_page_mapped [OF assms(1,2,6) refl] by blast
  have inx: "x \<in> ?sp" by (simp add: space_def)
  have apart: "\<not> in_block x 4096 a" if "p \<in> ?sp - {x}" "in_block p 4096 a" for p a
    using that pages_disjoint [OF x(1) space_aligned [OF assms(1)], of p a] by blast
  have page: "unat sz \<le> 4096" "unat x + unat sz \<le> 4294967296"
    using x(1) unat_lt_u32 [of x] assms(3) by (auto simp: aligned_def PGSIZE_def word_le_nat_alt)
  have in_x: "in_block x (unat sz) a \<Longrightarrow> in_block x 4096 a" for a using in_block_mono page(1) by blast
  let ?s4 = "s3\<lparr>ram := snd (memmove (ram s3) x init sz)\<rparr>"
  have mv: "ram ?s4 a = (if in_block x (unat sz) a then ram s3 (init + (a - x)) else ram s3 a)" for a
    using memmove_at [OF x(2) assms(4) page(2) assms(5)] by simp
  have "\<forall>p \<in> space s3 pgdir ys. \<forall>a. in_block p 4096 a \<longrightarrow> ram ?s4 a = ram s3 a"
    using apart in_x unfolding mv s3(5) by auto
  from vm_inv_frame [OF s3(2) _ this] have i4: "vm_inv ?s4 pgdir ys" "space ?s4 pgdir ys = ?sp - {x}"
    "\<And>va. lookup (ram ?s4) pgdir va = lookup (ram s3) pgdir va" using s3(5) by simp_all
  have out: "ram s3 a = ram s a" if "\<forall>p \<in> ?sp. \<not> in_block p 4096 a" for a
    using that s3(6) inx by (simp add: cleared_page x)
  have "ram ?s4 (x + of_nat i) = (if i < unat sz then ram s (init + of_nat i) else 0)" if "i < 4096" for i
  proof -
    have xi: "in_block x 4096 (x + of_nat i)" using that by (intro in_blockI) simp_all
    then have "\<forall>p \<in> ?sp - {x}. \<not> in_block p 4096 (x + of_nat i)" using apart by blast
    then have z: "ram s3 (x + of_nat i) = 0" using s3(6) xi by (simp add: cleared_page x)
    have "ram s3 (init + of_nat i) = ram s (init + of_nat i)" if "i < unat sz"
      using that unat_lt_u32 [of sz] assms(7) in_blockI [of i "unat sz" init] by (intro out) simp
    moreover have "in_block x (unat sz) (x + of_nat i) \<longleftrightarrow> i < unat sz" using that by (simp add: in_block_def unat_of_nat_u32)
    ultimately show ?thesis using z unfolding mv by simp
  qed
  moreover have "init_uvm pgdir init sz s = Inr ?s4"
    using assms(3) s3(1) by (simp add: init_uvm_def kalloc_cons [OF fp] Let_def not_less)
  moreover have "ram ?s4 a = ram s a" if "\<forall>p \<in> ?sp. \<not> in_block p 4096 a" for a
    using that out inx in_x unfolding mv by auto
  ultimately show ?thesis using i4 s3(3,4) by (intro exI [of _ ?s4] exI [of _ ys] conjI) auto
qed

subsection \<open>Properties\<close>

text \<open>C6: init_kvm builds the kernel address space: from a pool of at least 65 pages and a
  page-aligned start of the kernel data it returns, the directory is loaded into cr3, its tables are
  well formed, and the processor's walk finds at every virtual address exactly the promised entry:
  low memory and kernel data writable, kernel text read-only, devices identity mapped and writable, no
  mapping for user addresses and none with the user bit.\<close>

theorem init_kvm_maps_kernel:
  assumes "free_pages s xs" "65 \<le> length xs" "aligned 12 kdata" "KERNLINK < kdata" "kdata < P2V PHYSTOP"
  shows "\<exists>s' ys. init_kvm kdata s = Inr s' \<and> kpgdir s' = hd xs \<and> cr3 s' = V2P (kpgdir s')
    \<and> vm_inv s' (kpgdir s') ys \<and> (\<forall>va. lookup (ram s') (kpgdir s') va = kernel_entry kdata va)"
proof -
  have kd: "kdata_ok kdata" using assms(3-5) by (simp add: kdata_ok_def)
  have "free_pages (init_kmappings kdata s) xs"
    by (rule free_pages_cong [OF assms(1)]) (simp_all add: init_kmappings_def)
  moreover have "k_maps (init_kmappings kdata s) = kernel_maps kdata"
    by (simp add: kernel_maps_def init_kmappings_def)
  moreover have "65 + 0 \<le> length xs" using assms(2) by simp
  ultimately obtain s1 ys where s1: "setup_kvm (init_kmappings kdata s) = Inr (hd xs, s1)" "vm_inv s1 (hd xs) ys"
      "\<And>va. lookup (ram s1) (hd xs) va = kernel_entry kdata va"
    using setup_kvm_maps [of "init_kmappings kdata s" xs 0 kdata] kd by blast
  let ?s = "lcr3 (V2P (hd xs)) (s1\<lparr>kpgdir := hd xs\<rparr>)"
  have "vm_inv ?s (hd xs) ys"
    using s1(2) by (simp add: vm_inv_def free_pages_def lcr3_def)
  moreover have "init_kvm kdata s = Inr ?s" by (simp add: init_kvm_def s1(1) Let_def)
  ultimately show ?thesis using s1(3) by (intro exI [of _ ?s] exI [of _ ys]) (simp add: lcr3_def)
qed

theorem init_kvm_maps_kernel_witness:
  "\<exists>s s' pgdir. init_kvm 0x80110000 (s :: vm) = Inr s' \<and> kpgdir s' = pgdir
    \<and> lookup (ram s') pgdir 0x80100234 = 0x100001 \<and> lookup (ram s') pgdir 0x1000 = 0"
proof -
  let ?s = "\<lparr>ram = \<lambda>_. 0, freelist = 0, k_maps = [], kpgdir = 0, cr3 = 0\<rparr> :: vm"
  have "free_pages (fold kfree (pages_from 0x80400000 65) ?s) (rev (pages_from 0x80400000 65))"
    by (rule fresh_pool) (simp_all add: aligned_def)
  from init_kvm_maps_kernel [OF this, of "0x80110000"]
  obtain s' where "init_kvm 0x80110000 (fold kfree (pages_from 0x80400000 65) ?s) = Inr s'"
      "\<forall>va. lookup (ram s') (kpgdir s') va = kernel_entry 0x80110000 va"
    by (auto simp: aligned_def mmu_consts P2V_def)
  then show ?thesis
    by (intro exI [of _ "fold kfree (pages_from 0x80400000 65) ?s"] exI [of _ s'] exI [of _ "kpgdir s'"])
      (simp add: kernel_entry_def mmu_consts V2P_def PGROUNDDOWN_def)
qed

text \<open>init_uvm gives a process its first page: with an address space that maps nothing in
  the first page, a pool with a page for the code and one for a table, and code of at most one page lying
  outside the pages it uses, address 0 maps a page taken from the pool, writable for the user, that
  holds the code followed by zeros, and every other mapping is as before.\<close>

theorem init_uvm_loads_code:
  assumes "vm_inv s pgdir (x # xs)" "xs \<noteq> []" "sz \<le> PGSIZE" "init \<noteq> 0" "unat init + unat sz \<le> 4294967296"
    and "\<forall>va. PGROUNDDOWN va = 0 \<longrightarrow> lookup (ram s) pgdir va = 0"
    and "\<forall>a p. in_block init (unat sz) a \<and> p \<in> space s pgdir (x # xs) \<longrightarrow> \<not> in_block p 4096 a"
  shows "\<exists>s' ys. init_uvm pgdir init sz s = Inr s' \<and> vm_inv s' pgdir ys
    \<and> (\<forall>va. lookup (ram s') pgdir va =
          (if PGROUNDDOWN va = 0 then V2P x OR PTE_W OR PTE_U OR PTE_P else lookup (ram s) pgdir va))
    \<and> (\<forall>i<4096. ram s' (x + of_nat i) = (if i < unat sz then ram s (init + of_nat i) else 0))"
  using init_uvm_state [OF assms] by blast

theorem init_uvm_loads_code_witness:
  "\<exists>s s' ys. init_uvm 0x80402000 0x80110000 48 (s :: phys) = Inr s' \<and> vm_inv s' 0x80402000 ys
    \<and> lookup (ram s') 0x80402000 0x123 = 0x401007"
proof -
  let ?s = "fold kfree (pages_from 0x80400000 3) \<lparr>ram = \<lambda>_. 0, freelist = 0\<rparr> :: phys"
  have "free_pages ?s (rev (pages_from 0x80400000 3))"
    by (rule fresh_pool) (simp_all add: aligned_def)
  then have "free_pages ?s (0x80402000 # [0x80401000, 0x80400000])"
    by (simp add: numeral_3_eq_3 PGSIZE_def)
  note c = clear_pgdir [OF this]
  let ?t = "?s\<lparr>freelist := load32 (ram ?s) 0x80402000, ram := snd (memset (ram ?s) 0x80402000 0 PGSIZE)\<rparr>"
  have sp: "space ?t 0x80402000 [0x80401000, 0x80400000] = {0x80402000, 0x80401000, 0x80400000}"
    using c(3) by (auto simp: space_def)
  have far: "\<not> in_block p 4096 a" if ap: "in_block 0x80110000 48 a" "p \<in> {0x80402000, 0x80401000, 0x80400000}" for a p
  proof -
    obtain i where "i < 48" "a = 0x80110000 + of_nat i" using ap(1) by (auto simp: in_block_iff)
    then have "unat a < 0x80110030" by (simp add: unat_word_ariths unat_of_nat_u32)
    moreover have "unat p \<le> unat a" if "in_block p 4096 a" "unat p + 4096 \<le> 4294967296" for p
      using that by (auto simp: in_block_iff unat_word_ariths unat_of_nat_u32)
    ultimately show ?thesis using ap(2) by fastforce
  qed
  have "\<exists>s' ys. init_uvm 0x80402000 0x80110000 48 ?t = Inr s' \<and> vm_inv s' 0x80402000 ys
    \<and> (\<forall>va. lookup (ram s') 0x80402000 va =
          (if PGROUNDDOWN va = 0 then V2P 0x80401000 OR PTE_W OR PTE_U OR PTE_P else lookup (ram ?t) 0x80402000 va))
    \<and> (\<forall>i<4096. ram s' (0x80401000 + of_nat i) = (if i < unat (48 :: u32) then ram ?t (0x80110000 + of_nat i) else 0))"
    by (rule init_uvm_loads_code [OF c(1)]) (use c(2) far sp in \<open>auto simp: PGSIZE_def\<close>)
  then obtain s' ys where "init_uvm 0x80402000 0x80110000 48 ?t = Inr s'" "vm_inv s' 0x80402000 ys"
      "lookup (ram s') 0x80402000 0x123 = V2P 0x80401000 OR PTE_W OR PTE_U OR PTE_P"
    by (auto simp: PGROUNDDOWN_def PGSIZE_def)
  then show ?thesis by (intro exI [of _ ?t] exI [of _ s'] exI [of _ ys]) (simp add: mmu_consts V2P_def)
qed

end
