(* ===== verification/Gdt.thy ===== *)
theory Gdt
  imports Prelude
begin

section \<open>Segment descriptors\<close>

text \<open>
  \<^verbatim>\<open>include/Tuix/gdt.h\<close> and \<^verbatim>\<open>kernel/sys/gdt.c\<close>: the descriptor table of a processor,
  its entries as the packed structure of the source, and what the processor reads out of an entry
  (\<open>seg_base\<close>, \<open>seg_limit\<close>, \<open>seg_dpl\<close>). The table is the array \<^verbatim>\<open>c->gdt\<close> of the
  current processor; its address is the parameter \<open>gdt_addr\<close> of \<open>init_gdt\<close>.
\<close>

definition KER_CI :: nat where "KER_CI = 1"
definition KER_DI :: nat where "KER_DI = 2"
definition USR_CI :: nat where "USR_CI = 3"
definition USR_DI :: nat where "USR_DI = 4"
definition TSS_I :: nat where "TSS_I = 5"
definition KER_CS :: u16 where "KER_CS = push_bit 3 (of_nat KER_CI)"
definition KER_DS :: u16 where "KER_DS = push_bit 3 (of_nat KER_DI)"
definition USR_DPL :: u16 where "USR_DPL = 3"
definition FL_IF :: u32 where "FL_IF = 0x00000200"

text \<open>
  The macros are not parenthesised: \<^verbatim>\<open>USR_CS | USR_DPL\<close> is \<^verbatim>\<open>3 << 3 | 3\<close>, which C reads as
  \<open>(3 << 3) | 3\<close>, as meant.
\<close>

definition USR_CS :: u16 where "USR_CS = push_bit 3 (of_nat USR_CI)"
definition USR_DS :: u16 where "USR_DS = push_bit 3 (of_nat USR_DI)"
definition TSS_S :: u16 where "TSS_S = push_bit 3 (of_nat TSS_I)"
definition MAX_SEGS :: nat where "MAX_SEGS = 6"

lemmas gdt_consts = KER_CI_def KER_DI_def USR_CI_def USR_DI_def TSS_I_def KER_CS_def KER_DS_def
  USR_CS_def USR_DS_def TSS_S_def USR_DPL_def MAX_SEGS_def

record gdt_entry =
  limit_low :: u16
  base_low :: u16
  base_middle :: u8
  access :: u8
  granularity :: u8
  base_high :: u8

record gdt_ptr =
  gp_limit :: u16
  gp_base :: u32

record tss_entry =
  prev_tss :: u32
  esp0 :: u32
  ss0 :: u16
  esp1 :: u32
  ss1 :: u16
  esp2 :: u32
  ss2 :: u16
  ts_cr3 :: u32
  ts_eip :: u32
  ts_eflags :: u32
  ts_eax :: u32
  ts_ecx :: u32
  ts_edx :: u32
  ts_ebx :: u32
  ts_esp :: u32
  ts_ebp :: u32
  ts_esi :: u32
  ts_edi :: u32
  ts_es :: u16
  ts_cs :: u16
  ts_ss :: u16
  ts_ds :: u16
  ts_fs :: u16
  ts_gs :: u16
  ldtr :: u16
  ts_trap :: u16
  iomap_base :: u16

text \<open>As the loader leaves it; padding is not modelled.\<close>

definition zero_tss :: tss_entry where
  "zero_tss = \<lparr>prev_tss = 0, esp0 = 0, ss0 = 0, esp1 = 0, ss1 = 0, esp2 = 0, ss2 = 0, ts_cr3 = 0, ts_eip = 0, ts_eflags = 0, 
     ts_eax = 0, ts_ecx = 0, ts_edx = 0, ts_ebx = 0, ts_esp = 0, ts_ebp = 0, ts_esi = 0, ts_edi = 0, ts_es = 0, ts_cs = 0, ts_ss = 0, ts_ds = 0, ts_fs = 0,
     ts_gs = 0, ldtr = 0, ts_trap = 0, iomap_base = 0\<rparr>"

definition init_gdt :: "u32 \<Rightarrow> gdt_entry list \<Rightarrow> gdt_ptr \<times> gdt_entry list" where
  "init_gdt gdt_addr gdt =
     (let g0 = gdt[0 := \<lparr>limit_low = 0x0000, base_low = 0x0000, base_middle = 0x00, access = 0x00,
            granularity = 0x00, base_high = 0x00\<rparr>];
          g1 = g0[KER_CI := \<lparr>limit_low = 0xFFFF, base_low = 0x0000, base_middle = 0x00, access = 0x9A,
            granularity = 0xCF, base_high = 0x00\<rparr>];
          g2 = g1[KER_DI := \<lparr>limit_low = 0xFFFF, base_low = 0x0000, base_middle = 0x00, access = 0x92,
            granularity = 0xCF, base_high = 0x00\<rparr>];
          g3 = g2[USR_CI := \<lparr>limit_low = 0xFFFF, base_low = 0x0000, base_middle = 0x00, access = 0xFA,
            granularity = 0xCF, base_high = 0x00\<rparr>];
          g4 = g3[USR_DI := \<lparr>limit_low = 0xFFFF, base_low = 0x0000, base_middle = 0x00, access = 0xF2,
            granularity = 0xCF, base_high = 0x00\<rparr>]
      in (\<lparr>gp_limit = of_nat (8 * MAX_SEGS - 1), gp_base = gdt_addr\<rparr>, g4))"

definition set_tss_entry :: "nat \<Rightarrow> u32 \<Rightarrow> u32 \<Rightarrow> u8 \<Rightarrow> u8 \<Rightarrow> gdt_entry list \<Rightarrow> gdt_entry list" where
  "set_tss_entry num base limit acc gran gdt =
     gdt[num := (gdt ! num)\<lparr>base_low := ucast (base AND 0xFFFF),
       base_middle := ucast (drop_bit 16 base AND 0xFF),
       base_high := ucast (drop_bit 24 base AND 0xFF),
       limit_low := ucast (limit AND 0xFFFF),
       granularity := ucast (drop_bit 16 limit AND 0x0F) OR (gran AND 0xF0),
       access := acc\<rparr>]"

subsection \<open>What the processor reads\<close>

definition seg_base :: "gdt_entry \<Rightarrow> u32" where
  "seg_base e = ucast (base_low e) OR push_bit 16 (ucast (base_middle e)) OR push_bit 24 (ucast (base_high e))"

definition seg_limit :: "gdt_entry \<Rightarrow> u32" where
  "seg_limit e = ucast (limit_low e) OR push_bit 16 (ucast (granularity e AND 0x0F))"

definition seg_dpl :: "gdt_entry \<Rightarrow> nat" where
  "seg_dpl e = unat (drop_bit 5 (access e) AND 3)"

text \<open>The last byte of a segment: with the granularity flag the limit counts pages.\<close>

definition seg_last :: "gdt_entry \<Rightarrow> nat" where
  "seg_last e = (if bit (granularity e) 7 then unat (seg_limit e) * 4096 + 4095 else unat (seg_limit e))"

lemma masks:
  "(0xFFFF :: u32) = mask 16" "(0xFF :: u32) = mask 8" "(0x0F :: u32) = mask 4"
  "(0x0F :: u8) = mask 4"
  by (simp_all add: mask_eq_exp_minus_1)

lemma seg_base_set:
  assumes "num < length gdt"
  shows "seg_base (set_tss_entry num base limit acc gran gdt ! num) = base"
proof -
  have "seg_base (set_tss_entry num base limit acc gran gdt ! num) =
      ucast (ucast (base AND mask 16) :: u16) OR push_bit 16 (ucast (ucast (drop_bit 16 base AND mask 8) :: u8))
      OR push_bit 24 (ucast (ucast (drop_bit 24 base AND mask 8) :: u8))"
    using assms by (simp add: set_tss_entry_def seg_base_def masks)
  also have "\<dots> = base"
  proof (rule bit_word_eqI)
    fix n assume n: "n < LENGTH(32)"
    then consider "n < 16" | "16 \<le> n" "n < 24" | "24 \<le> n" "n < 32" by force
    then show "bit (ucast (ucast (base AND mask 16) :: u16) OR push_bit 16 (ucast (ucast (drop_bit 16 base AND mask 8) :: u8))
        OR push_bit 24 (ucast (ucast (drop_bit 24 base AND mask 8) :: u8)) :: u32) n = bit base n"
      by cases (auto simp: bit_simps)
  qed
  finally show ?thesis .
qed

lemma nibble_bits: "(a AND mask 4 OR (g AND 0xF0)) AND mask 4 = (a AND mask 4 :: u8)"
proof (rule bit_word_eqI)
  fix n assume "n < LENGTH(8)"
  have "\<not> bit (0xF0 :: u8) n" if "n < 4"
  proof -
    have "(0xF0 :: u8) = push_bit 4 0xF" by simp
    then show ?thesis using that by (simp only: bit_push_bit_iff) simp
  qed
  then show "bit ((a AND mask 4 OR (g AND 0xF0)) AND mask 4) n = bit (a AND mask 4) n"
    by (auto simp: bit_simps)
qed

lemma seg_limit_set:
  assumes "num < length gdt" "limit < 0x100000"
  shows "seg_limit (set_tss_entry num base limit acc gran gdt ! num) = limit"
proof -
  have top: "\<not> bit limit n" if "20 \<le> n" for n
  proof -
    have "unat limit < 2 ^ 20" using assms(2) by (simp add: word_less_nat_alt)
    also have "\<dots> \<le> 2 ^ n" by (rule power_increasing [OF that]) simp
    finally have "\<not> bit (unat limit) n" by (simp add: bit_iff_odd)
    then show ?thesis by (simp add: bit_unsigned_iff)
  qed
  have c: "ucast (drop_bit 16 limit AND mask 4) = (ucast (drop_bit 16 limit) AND mask 4 :: u8)"
    by (rule bit_word_eqI) (auto simp: bit_simps)
  have "seg_limit (set_tss_entry num base limit acc gran gdt ! num) =
      ucast (ucast (limit AND mask 16) :: u16) OR push_bit 16 (ucast (ucast (drop_bit 16 limit) AND mask 4 :: u8))"
    using assms(1) by (simp add: set_tss_entry_def seg_limit_def masks c nibble_bits)
  also have "\<dots> = limit"
  proof (rule bit_word_eqI)
    fix n assume n: "n < LENGTH(32)"
    then consider "n < 16" | "16 \<le> n" "n < 20" | "20 \<le> n" "n < 32" by force
    then show "bit (ucast (ucast (limit AND mask 16) :: u16)
        OR push_bit 16 (ucast (ucast (drop_bit 16 limit) AND mask 4 :: u8)) :: u32) n = bit limit n"
      by cases (use top in \<open>auto simp: bit_simps\<close>)
  qed
  finally show ?thesis .
qed

subsection \<open>Properties\<close>

text \<open>a task descriptor reads back: for an index in the table and a limit of at most 20 bits
  the processor finds in the entry exactly the base, limit and access byte that were given, and no other
  entry changes.\<close>

theorem set_tss_entry_roundtrip:
  assumes "num < length gdt" "limit < 0x100000"
  shows "seg_base (set_tss_entry num base limit acc gran gdt ! num) = base
    \<and> seg_limit (set_tss_entry num base limit acc gran gdt ! num) = limit
    \<and> access (set_tss_entry num base limit acc gran gdt ! num) = acc
    \<and> length (set_tss_entry num base limit acc gran gdt) = length gdt
    \<and> (\<forall>i. i \<noteq> num \<longrightarrow> set_tss_entry num base limit acc gran gdt ! i = gdt ! i)"
  using seg_base_set [OF assms(1)] seg_limit_set [OF assms] assms(1)
  by (simp add: set_tss_entry_def)

theorem set_tss_entry_roundtrip_witness:
  "seg_base (set_tss_entry TSS_I 0x80112340 103 0x89 0x40 (replicate 6 \<lparr>limit_low = 1, base_low = 2, base_middle = 3, access = 4, granularity = 0x5A, base_high = 6\<rparr>) ! TSS_I) = 0x80112340
    \<and> seg_limit (set_tss_entry TSS_I 0x80112340 103 0x89 0x40 (replicate 6 \<lparr>limit_low = 1, base_low = 2, base_middle = 3, access = 4, granularity = 0x5A, base_high = 6\<rparr>) ! TSS_I) = 103"
  using set_tss_entry_roundtrip [of TSS_I "replicate 6 \<lparr>limit_low = 1, base_low = 2, base_middle = 3, access = 4, granularity = 0x5A, base_high = 6\<rparr>" 103 "0x80112340" "0x89" "0x40"]
  by (simp add: TSS_I_def)

text \<open>init_gdt sets up flat segments: from any table of six entries, the kernel and the user
  code and data segments start at 0 and end at the last byte of the address space, the kernel's with
  privilege level 0 and the user's with level 3, entry 0 is null, the task entry is kept, and the table
  register describes the whole table.\<close>

theorem init_gdt_flat:
  assumes "length gdt = MAX_SEGS"
  shows "let (ptr, g) = init_gdt gdt_addr gdt in
    gp_base ptr = gdt_addr \<and> unat (gp_limit ptr) = 8 * length g - 1 \<and> length g = MAX_SEGS \<and> g ! TSS_I = gdt ! TSS_I
    \<and> (\<forall>i \<in> {KER_CI, KER_DI, USR_CI, USR_DI}. seg_base (g ! i) = 0 \<and> seg_last (g ! i) = 4294967295)
    \<and> seg_dpl (g ! KER_CI) = 0 \<and> seg_dpl (g ! KER_DI) = 0 \<and> seg_dpl (g ! USR_CI) = 3 \<and> seg_dpl (g ! USR_DI) = 3
    \<and> access (g ! 0) = 0"
  using assms by (simp add: init_gdt_def Let_def gdt_consts seg_base_def seg_last_def seg_limit_def seg_dpl_def)

theorem init_gdt_flat_witness:
  "seg_dpl (snd (init_gdt 0x80113000 (replicate 6 \<lparr>limit_low = 0, base_low = 0, base_middle = 0, access = 0, granularity = 0, base_high = 0\<rparr>)) ! USR_CI) = 3"
  using init_gdt_flat [of "replicate 6 \<lparr>limit_low = 0, base_low = 0, base_middle = 0, access = 0, granularity = 0, base_high = 0\<rparr>" "0x80113000"] by (simp add: MAX_SEGS_def case_prod_beta Let_def)

end
