(* ===== verification/Spinlock.thy ===== *)
theory Spinlock
  imports Vm Serial Gdt
begin

section \<open>Processors and spin locks\<close>

text \<open>
  The per-processor state of \<^verbatim>\<open>include/Tuix/process.h\<close>, the flag register of
  \<^verbatim>\<open>include/arch/x86.h\<close> and \<^verbatim>\<open>kernel/sys/spinlock.c\<close>. A pointer to a processor is its
  index in \<^verbatim>\<open>cpus\<close>, a pointer to a process its index in the process table, \<open>None\<close> for
  \<^verbatim>\<open>NULL\<close>; a pointer to a lock names the lock. \<open>lock_state\<close> is the abstract state of the locks:
  the stack of locks this processor holds and whether interrupts were on before the first of them.
\<close>

record spinlock =
  locked :: u32
  lock_name :: string
  lock_cpu :: "nat option"

datatype lock = Ptable_lock | Ide_lock | Lock_at u32

record cpu =
  gdt :: "gdt_entry list"
  scheduler :: u32
  started :: u32
  cur_proc :: "nat option"
  ts :: tss_entry
  ncli :: int
  intena :: int
  cpu_pid :: int

record machine = vm +
  ports :: io
  eflags :: u32
  cpus :: "nat \<Rightarrow> cpu"
  cpu_id :: u8
  locks :: "lock \<Rightarrow> spinlock"

definition c_cpu :: "'a machine_scheme \<Rightarrow> nat" where
  "c_cpu s = unat (cpu_id s)"

abbreviation this_cpu :: "'a machine_scheme \<Rightarrow> cpu" where
  "this_cpu s \<equiv> cpus s (c_cpu s)"

definition set_cpu :: "(cpu \<Rightarrow> cpu) \<Rightarrow> 'a machine_scheme \<Rightarrow> 'a machine_scheme" where
  "set_cpu f s = s\<lparr>cpus := (cpus s)(c_cpu s := f (this_cpu s))\<rparr>"

definition set_lock :: "lock \<Rightarrow> (spinlock \<Rightarrow> spinlock) \<Rightarrow> 'a machine_scheme \<Rightarrow> 'a machine_scheme" where
  "set_lock lk f s = s\<lparr>locks := (locks s)(lk := f (locks s lk))\<rparr>"

subsection \<open>Operations\<close>

definition cli :: "'a machine_scheme \<Rightarrow> 'a machine_scheme" where
  "cli s = s\<lparr>eflags := eflags s AND NOT FL_IF\<rparr>"

definition sti :: "'a machine_scheme \<Rightarrow> 'a machine_scheme" where
  "sti s = s\<lparr>eflags := eflags s OR FL_IF\<rparr>"

definition reade_flags :: "'a machine_scheme \<Rightarrow> u32" where
  "reade_flags s = eflags s"

definition xchg_locked :: "lock \<Rightarrow> u32 \<Rightarrow> 'a machine_scheme \<Rightarrow> u32 \<times> 'a machine_scheme" where
  "xchg_locked lk newval s = (locked (locks s lk), set_lock lk (\<lambda>l. l\<lparr>locked := newval\<rparr>) s)"

definition init_lock :: "lock \<Rightarrow> string \<Rightarrow> 'a machine_scheme \<Rightarrow> 'a machine_scheme" where
  "init_lock lk nm s = set_lock lk (\<lambda>l. l\<lparr>lock_name := nm, locked := 0, lock_cpu := None\<rparr>) s"

definition pushcli :: "'a machine_scheme \<Rightarrow> 'a machine_scheme" where
  "pushcli s =
     (let flags = reade_flags s;
          s1 = cli s;
          s2 = (if ncli (this_cpu s1) = 0 then set_cpu (\<lambda>c. c\<lparr>intena := uint (flags AND FL_IF)\<rparr>) s1 else s1)
      in set_cpu (\<lambda>c. c\<lparr>ncli := wrap32 (ncli c + 1)\<rparr>) s2)"

definition popcli :: "'a machine_scheme \<Rightarrow> 'a machine_scheme res" where
  "popcli s =
     (if reade_flags s AND FL_IF \<noteq> 0 then panic ''popcli - interruptible''
      else (let s1 = set_cpu (\<lambda>c. c\<lparr>ncli := wrap32 (ncli c - 1)\<rparr>) s
            in if ncli (this_cpu s1) < 0 then panic ''popcli''
               else if ncli (this_cpu s1) = 0 \<and> intena (this_cpu s1) \<noteq> 0 then Inr (sti s1)
               else Inr s1))"

definition holding :: "lock \<Rightarrow> 'a machine_scheme \<Rightarrow> (bool \<times> 'a machine_scheme) res" where
  "holding lk s =
     (let s1 = pushcli s;
          r = (locked (locks s1 lk) \<noteq> 0 \<and> lock_cpu (locks s1 lk) = Some (c_cpu s1))
      in bindR (popcli s1) (\<lambda>s2. Inr (r, s2)))"

partial_function (option) spin :: "lock \<Rightarrow> 'a machine_scheme \<Rightarrow> 'a machine_scheme option" where
  "spin lk s = (case xchg_locked lk 1 s of (old, s1) \<Rightarrow> if old \<noteq> 0 then spin lk s1 else Some s1)"

definition acquire :: "lock \<Rightarrow> 'a machine_scheme \<Rightarrow> 'a machine_scheme res" where
  "acquire lk s =
     bindR (holding lk (pushcli s)) (\<lambda>(r, s1).
       if r then panic ''acquire''
       else bindR (from_loop (spin lk s1)) (\<lambda>s2. Inr (set_lock lk (\<lambda>l. l\<lparr>lock_cpu := Some (c_cpu s2)\<rparr>) s2)))"

definition release :: "lock \<Rightarrow> 'a machine_scheme \<Rightarrow> 'a machine_scheme res" where
  "release lk s =
     bindR (holding lk s) (\<lambda>(r, s1).
       if \<not> r then panic ''release''
       else popcli (set_lock lk (\<lambda>l. l\<lparr>locked := 0\<rparr>) (set_lock lk (\<lambda>l. l\<lparr>lock_cpu := None\<rparr>) s1)))"

subsection \<open>The abstract state of the locks\<close>

definition if_on :: "'a machine_scheme \<Rightarrow> bool" where
  "if_on s \<longleftrightarrow> eflags s AND FL_IF \<noteq> 0"

definition lock_state :: "'a machine_scheme \<Rightarrow> lock list \<Rightarrow> bool \<Rightarrow> bool" where
  "lock_state s hs b \<longleftrightarrow> distinct hs \<and> ncli (this_cpu s) = int (length hs)
    \<and> (\<forall>l. locked (locks s l) = (if l \<in> set hs then 1 else 0))
    \<and> (\<forall>l \<in> set hs. lock_cpu (locks s l) = Some (c_cpu s))
    \<and> (if hs = [] then if_on s = b else \<not> if_on s \<and> (intena (this_cpu s) \<noteq> 0) = b)"

lemma bit_FL_IF: "bit FL_IF n \<longleftrightarrow> n = 9"
proof -
  have e: "FL_IF = 2 ^ 9" by (simp add: FL_IF_def)
  show ?thesis unfolding e bit_exp_iff by (auto simp: possible_bit_def)
qed

lemma nonzero_bit: "(w :: u32) \<noteq> 0 \<longleftrightarrow> (\<exists>n. bit w n)"
  using bit_imp_le_length by (fastforce simp: bit_eq_iff)

lemma if_on_bit: "if_on s \<longleftrightarrow> bit (eflags s) 9"
  unfolding if_on_def nonzero_bit by (auto simp: bit_and_iff bit_FL_IF)

lemma if_on_simps [simp]:
  "\<not> if_on (cli s)" "if_on (sti s)"
  "if_on (set_cpu f s) = if_on s" "if_on (set_lock l g s) = if_on s"
  by (simp_all add: if_on_bit cli_def sti_def set_cpu_def set_lock_def bit_FL_IF bit_simps)

lemma cpu_simps [simp]:
  "c_cpu (cli s) = c_cpu s" "c_cpu (sti s) = c_cpu s" "c_cpu (set_cpu f s) = c_cpu s" "c_cpu (set_lock l g s) = c_cpu s"
  "cpus (cli s) = cpus s" "cpus (sti s) = cpus s" "cpus (set_lock l g s) = cpus s"
  "cpus (set_cpu f s) = (cpus s)(c_cpu s := f (this_cpu s))"
  "locks (cli s) = locks s" "locks (sti s) = locks s" "locks (set_cpu f s) = locks s"
  "locks (set_lock l g s) = (locks s)(l := g (locks s l))"
  by (simp_all add: c_cpu_def cli_def sti_def set_cpu_def set_lock_def)

lemma set_cpu_twice [simp]: "set_cpu f (set_cpu g s) = set_cpu (\<lambda>c. f (g c)) s"
  by (simp add: set_cpu_def c_cpu_def)

text \<open>What no lock operation touches: \<open>erase\<close> forgets the flags, the nesting counters and the locks.\<close>

definition erase :: "'a machine_scheme \<Rightarrow> 'a machine_scheme" where
  "erase s = s\<lparr>eflags := 0, cpus := (\<lambda>i. cpus s i\<lparr>ncli := 0, intena := 0\<rparr>), locks := (\<lambda>_. \<lparr>locked = 0, lock_name = [], lock_cpu = None\<rparr>)\<rparr>"

lemma erase_simps [simp]:
  "erase (cli s) = erase s" "erase (sti s) = erase s" "erase (set_lock l g s) = erase s"
  "(\<And>c. f c\<lparr>ncli := 0, intena := 0\<rparr> = c\<lparr>ncli := 0, intena := 0\<rparr>) \<Longrightarrow> erase (set_cpu f s) = erase s"
  by (simp_all add: erase_def cli_def sti_def set_lock_def set_cpu_def fun_eq_iff)

lemma erase_eqD:
  assumes "erase s' = erase s"
  shows "ram s' = ram s" "freelist s' = freelist s" "k_maps s' = k_maps s" "kpgdir s' = kpgdir s" "cr3 s' = cr3 s"
    "ports s' = ports s" "cpu_id s' = cpu_id s" "c_cpu s' = c_cpu s" "machine.more s' = machine.more s"
    "cur_proc (cpus s' i) = cur_proc (cpus s i)" "scheduler (cpus s' i) = scheduler (cpus s i)"
    "gdt (cpus s' i) = gdt (cpus s i)" "ts (cpus s' i) = ts (cpus s i)" "cpu_pid (cpus s' i) = cpu_pid (cpus s i)"
proof -
  have "cpus (erase s') i = cpus (erase s) i" using assms by simp
  then have c: "(cpus s' i)\<lparr>ncli := 0, intena := 0\<rparr> = (cpus s i)\<lparr>ncli := 0, intena := 0\<rparr>" by (simp add: erase_def)
  show "cur_proc (cpus s' i) = cur_proc (cpus s i)" "scheduler (cpus s' i) = scheduler (cpus s i)"
    "gdt (cpus s' i) = gdt (cpus s i)" "ts (cpus s' i) = ts (cpus s i)" "cpu_pid (cpus s' i) = cpu_pid (cpus s i)"
    using arg_cong [OF c, of cur_proc] arg_cong [OF c, of scheduler] arg_cong [OF c, of gdt]
      arg_cong [OF c, of ts] arg_cong [OF c, of cpu_pid] by simp_all
  have "ram (erase s') = ram (erase s)" "freelist (erase s') = freelist (erase s)" "k_maps (erase s') = k_maps (erase s)"
    "kpgdir (erase s') = kpgdir (erase s)" "cr3 (erase s') = cr3 (erase s)" "ports (erase s') = ports (erase s)"
    "cpu_id (erase s') = cpu_id (erase s)" "machine.more (erase s') = machine.more (erase s)" using assms by simp_all
  then show "ram s' = ram s" "freelist s' = freelist s" "k_maps s' = k_maps s" "kpgdir s' = kpgdir s" "cr3 s' = cr3 s"
    "ports s' = ports s" "cpu_id s' = cpu_id s" "c_cpu s' = c_cpu s" "machine.more s' = machine.more s"
    by (simp_all add: erase_def c_cpu_def)
qed

subsection \<open>Nested disabling of interrupts\<close>

definition cli_state :: "'a machine_scheme \<Rightarrow> nat \<Rightarrow> bool \<Rightarrow> bool" where
  "cli_state s n b \<longleftrightarrow> ncli (this_cpu s) = int n
    \<and> (if n = 0 then if_on s = b else \<not> if_on s \<and> (intena (this_cpu s) \<noteq> 0) = b)"

lemma pushcli_state:
  assumes "cli_state s n b" "n < 2147483647"
  shows "cli_state (pushcli s) (Suc n) b" "locks (pushcli s) = locks s" "c_cpu (pushcli s) = c_cpu s"
    "erase (pushcli s) = erase s"
proof -
  have w: "wrap32 (int n + 1) = int n + 1" using assms(2) by simp
  have f: "uint (eflags s AND FL_IF) \<noteq> 0 \<longleftrightarrow> if_on s" by (simp add: if_on_def unsigned_eq_0_iff)
  show "cli_state (pushcli s) (Suc n) b" using assms(1) w f
    by (cases "n = 0") (auto simp: cli_state_def pushcli_def Let_def reade_flags_def)
  show "locks (pushcli s) = locks s" "c_cpu (pushcli s) = c_cpu s" "erase (pushcli s) = erase s"
    by (simp_all add: pushcli_def Let_def)
qed

lemma popcli_state:
  assumes "cli_state s (Suc n) b" "n < 2147483647"
  shows "\<exists>s'. popcli s = Inr s' \<and> cli_state s' n b \<and> locks s' = locks s \<and> c_cpu s' = c_cpu s \<and> erase s' = erase s"
proof -
  have w: "wrap32 (int n) = int n" using assms(2) by simp
  have off: "\<not> if_on s" and nc: "ncli (this_cpu s) = int n + 1" and ie: "(intena (this_cpu s) \<noteq> 0) = b"
    using assms(1) by (auto simp: cli_state_def)
  let ?s1 = "set_cpu (\<lambda>c. c\<lparr>ncli := wrap32 (ncli c - 1)\<rparr>) s"
  have "popcli s = Inr (if n = 0 \<and> b then sti ?s1 else ?s1)"
    using off nc ie w by (auto simp: popcli_def reade_flags_def if_on_def Let_def)
  moreover have "cli_state (if n = 0 \<and> b then sti ?s1 else ?s1) n b"
    using off nc ie w by (auto simp: cli_state_def)
  ultimately show ?thesis by auto
qed

lemma popcli_unbalanced:
  "if_on s \<Longrightarrow> popcli s = panic ''popcli - interruptible''"
  "\<not> if_on s \<Longrightarrow> ncli (this_cpu s) = 0 \<Longrightarrow> popcli s = panic ''popcli''"
  by (simp_all add: popcli_def if_on_def reade_flags_def Let_def)

lemma holding_state:
  assumes "cli_state s n b" "n < 2147483646"
  shows "\<exists>s'. holding lk s = Inr (locked (locks s lk) \<noteq> 0 \<and> lock_cpu (locks s lk) = Some (c_cpu s), s')
    \<and> cli_state s' n b \<and> locks s' = locks s \<and> c_cpu s' = c_cpu s \<and> erase s' = erase s"
proof -
  have n: "n < 2147483647" using assms(2) by simp
  note p = pushcli_state [OF assms(1) n]
  obtain s' where "popcli (pushcli s) = Inr s'" "cli_state s' n b" "locks s' = locks s" "c_cpu s' = c_cpu s" "erase s' = erase s"
    using popcli_state [OF p(1) n] p by auto
  then show ?thesis using p by (intro exI [of _ s']) (simp add: holding_def Let_def)
qed

subsection \<open>Spinning\<close>

lemma spin_free: "locked (locks s lk) = 0 \<Longrightarrow> spin lk s = Some (set_lock lk (\<lambda>l. l\<lparr>locked := 1\<rparr>) s)"
  by (subst spin.simps) (simp add: xchg_locked_def)

text \<open>On one processor with interrupts off nobody else can store 0 into the lock word.\<close>

lemma spin_taken:
  assumes "locked (locks s lk) \<noteq> 0"
  shows "spin lk s = None"
proof -
  have "locked (locks s lk) = 0" if e: "spin lk s = Some s'" for s'
  proof (rule spin.raw_induct [OF _ e, where P = "\<lambda>lk s _. locked (locks s lk) = 0"])
    fix rec :: "lock \<Rightarrow> 'a machine_scheme \<Rightarrow> 'a machine_scheme option" and lk s s'
    assume IH: "\<And>lk s s'. rec lk s = Some s' \<Longrightarrow> locked (locks s lk) = 0"
      and step: "(case xchg_locked lk 1 s of (old, s1) \<Rightarrow> if old \<noteq> 0 then rec lk s1 else Some s1) = Some s'"
    show "locked (locks s lk) = 0"
      using step IH [of lk "set_lock lk (\<lambda>l. l\<lparr>locked := 1\<rparr>) s" s'] by (auto simp: xchg_locked_def split: if_splits)
  qed
  then show ?thesis using assms by (cases "spin lk s") auto
qed

subsection \<open>The interface of the locks\<close>

text \<open>
  What the code that uses locks relies on. \<open>legal\<close> is the discipline of the source: a lock is not
  acquired twice, and only a lock that is held is released; the order of releases is free, as in
  \<^verbatim>\<open>sleep\<close>, which takes the lock of the process table before it gives up its argument.
\<close>

datatype lock_op = Acq lock | Rel lock

fun legal :: "lock_op list \<Rightarrow> lock list \<Rightarrow> lock list option" where
  "legal [] hs = Some hs"
| "legal (Acq l # ops) hs = (if l \<in> set hs then None else legal ops (l # hs))"
| "legal (Rel l # ops) hs = (if l \<in> set hs then legal ops (remove1 l hs) else None)"

fun run_ops :: "(lock \<Rightarrow> 's \<Rightarrow> 's res) \<Rightarrow> (lock \<Rightarrow> 's \<Rightarrow> 's res) \<Rightarrow> lock_op list \<Rightarrow> 's \<Rightarrow> 's res" where
  "run_ops acq rel [] s = Inr s"
| "run_ops acq rel (Acq l # ops) s = bindR (acq l s) (run_ops acq rel ops)"
| "run_ops acq rel (Rel l # ops) s = bindR (rel l s) (run_ops acq rel ops)"

locale lock_manager =
  fixes acq rel :: "lock \<Rightarrow> 's \<Rightarrow> 's res" and st :: "'s \<Rightarrow> lock list \<Rightarrow> bool \<Rightarrow> bool" and bound :: nat
  assumes acq_free: "st s hs b \<Longrightarrow> l \<notin> set hs \<Longrightarrow> length hs < bound \<Longrightarrow> \<exists>s'. acq l s = Inr s' \<and> st s' (l # hs) b"
    and rel_held: "st s hs b \<Longrightarrow> l \<in> set hs \<Longrightarrow> length hs < bound \<Longrightarrow> \<exists>s'. rel l s = Inr s' \<and> st s' (remove1 l hs) b"
begin

lemma critical_section:
  assumes "st s hs b" "l \<notin> set hs" "Suc (length hs) < bound"
  shows "\<exists>s' s''. acq l s = Inr s' \<and> st s' (l # hs) b \<and> rel l s' = Inr s'' \<and> st s'' hs b"
proof -
  obtain s' where s': "acq l s = Inr s'" "st s' (l # hs) b" using acq_free [OF assms(1,2)] assms(3) by auto
  then show ?thesis using rel_held [OF s'(2), of l] assms(3) by auto
qed

lemma run_legal:
  "st s hs b \<Longrightarrow> legal ops hs = Some hs' \<Longrightarrow> length hs + length ops < bound \<Longrightarrow>
    \<exists>s'. run_ops acq rel ops s = Inr s' \<and> st s' hs' b"
proof (induction ops arbitrary: s hs)
  case Nil
  then show ?case by auto
next
  case (Cons op ops)
  show ?case
  proof (cases op)
    case (Acq l)
    then have l: "l \<notin> set hs" "legal ops (l # hs) = Some hs'" using Cons.prems(2) by (simp_all split: if_splits)
    obtain s1 where s1: "acq l s = Inr s1" "st s1 (l # hs) b"
      using acq_free [OF Cons.prems(1) l(1)] Cons.prems(3) by auto
    then show ?thesis using Cons.IH [OF s1(2) l(2)] Cons.prems(3) Acq by simp
  next
    case (Rel l)
    then have l: "l \<in> set hs" "legal ops (remove1 l hs) = Some hs'" using Cons.prems(2) by (simp_all split: if_splits)
    obtain s1 where s1: "rel l s = Inr s1" "st s1 (remove1 l hs) b"
      using rel_held [OF Cons.prems(1) l(1)] Cons.prems(3) by auto
    have "length (remove1 l hs) + length ops < bound" using Cons.prems(3) by (auto simp: length_remove1)
    then show ?thesis using Cons.IH [OF s1(2) l(2)] s1(1) Rel by simp
  qed
qed

end

subsection \<open>The kernel's locks keep the interface\<close>

lemma lock_state_cli: "lock_state s hs b \<Longrightarrow> cli_state s (length hs) b"
  by (auto simp: lock_state_def cli_state_def)

lemma lock_stateI:
  assumes "cli_state s (length hs) b" "distinct hs" "\<forall>l. locked (locks s l) = (if l \<in> set hs then 1 else 0)"
    "\<forall>l \<in> set hs. lock_cpu (locks s l) = Some (c_cpu s)"
  shows "lock_state s hs b"
  using assms by (auto simp: lock_state_def cli_state_def)

lemma cli_state_set_lock [simp]: "cli_state (set_lock l f s) n b = cli_state s n b"
  by (simp add: cli_state_def)

lemma acquire_state:
  assumes "lock_state s hs b" "lk \<notin> set hs" "length hs < 2147483645"
  shows "\<exists>s'. acquire lk s = Inr s' \<and> lock_state s' (lk # hs) b \<and> erase s' = erase s"
proof -
  note c = lock_state_cli [OF assms(1)]
  have n: "length hs < 2147483647" "Suc (length hs) < 2147483646" using assms(3) by simp_all
  note p = pushcli_state [OF c n(1)]
  have free: "locked (locks s lk) = 0" using assms(1,2) by (simp add: lock_state_def)
  obtain s1 where s1: "holding lk (pushcli s) = Inr (False, s1)" "cli_state s1 (Suc (length hs)) b"
      "locks s1 = locks s" "c_cpu s1 = c_cpu s" "erase s1 = erase s"
    using holding_state [OF p(1) n(2), of lk] p free by auto
  let ?s = "set_lock lk (\<lambda>l. l\<lparr>lock_cpu := Some (c_cpu s1)\<rparr>) (set_lock lk (\<lambda>l. l\<lparr>locked := 1\<rparr>) s1)"
  have "acquire lk s = Inr ?s"
    using s1 free by (simp add: acquire_def spin_free)
  moreover have "lock_state ?s (lk # hs) b"
    using assms s1 by (intro lock_stateI) (auto simp: lock_state_def)
  ultimately show ?thesis using s1(5) by auto
qed

lemma release_state:
  assumes "lock_state s hs b" "lk \<in> set hs" "length hs < 2147483645"
  shows "\<exists>s'. release lk s = Inr s' \<and> lock_state s' (remove1 lk hs) b \<and> erase s' = erase s"
proof -
  note c = lock_state_cli [OF assms(1)]
  obtain s1 where s1: "holding lk s = Inr (True, s1)" "cli_state s1 (length hs) b"
      "locks s1 = locks s" "c_cpu s1 = c_cpu s" "erase s1 = erase s"
    using holding_state [OF c, of lk] assms by (auto simp: lock_state_def)
  have len: "length hs = Suc (length (remove1 lk hs))" using assms(2) by (simp add: length_remove1) (cases hs; simp)
  let ?s2 = "set_lock lk (\<lambda>l. l\<lparr>locked := 0\<rparr>) (set_lock lk (\<lambda>l. l\<lparr>lock_cpu := None\<rparr>) s1)"
  have "cli_state ?s2 (Suc (length (remove1 lk hs))) b" using s1(2) len by simp
  then obtain s' where s': "popcli ?s2 = Inr s'" "cli_state s' (length (remove1 lk hs)) b" "locks s' = locks ?s2"
      "c_cpu s' = c_cpu ?s2" "erase s' = erase ?s2"
    using popcli_state [of ?s2 "length (remove1 lk hs)" b] assms(3) len by auto
  have "lock_state s' (remove1 lk hs) b"
    using assms s1 s' by (intro lock_stateI) (auto simp: lock_state_def)
  then show ?thesis using s1 s' by (intro exI [of _ s']) (simp add: release_def)
qed

interpretation spinlocks: lock_manager "acquire :: lock \<Rightarrow> 'a machine_scheme \<Rightarrow> _" release lock_state 2147483645
  using acquire_state release_state by unfold_locales blast+

text \<open>Outside the discipline: a second acquire panics, so does the release of a lock not held, and a lock
  somebody else holds is waited for without end.\<close>

lemma acquire_twice:
  assumes "lock_state s hs b" "lk \<in> set hs" "length hs < 2147483645"
  shows "acquire lk s = panic ''acquire''"
proof -
  note c = lock_state_cli [OF assms(1)]
  have n: "length hs < 2147483647" "Suc (length hs) < 2147483646" using assms(3) by simp_all
  note p = pushcli_state [OF c n(1)]
  show ?thesis using holding_state [OF p(1) n(2), of lk] p assms(1,2) by (auto simp: lock_state_def acquire_def)
qed

lemma release_not_held:
  assumes "lock_state s hs b" "lk \<notin> set hs" "length hs < 2147483645"
  shows "release lk s = panic ''release''"
  using holding_state [OF lock_state_cli [OF assms(1)], of lk] assms by (auto simp: lock_state_def release_def)

lemma acquire_foreign:
  assumes "cli_state s n b" "n < 2147483645" "locked (locks s lk) \<noteq> 0" "lock_cpu (locks s lk) \<noteq> Some (c_cpu s)"
  shows "acquire lk s = Inl Hang"
proof -
  have n: "n < 2147483647" "Suc n < 2147483646" using assms(2) by simp_all
  note p = pushcli_state [OF assms(1) n(1)]
  show ?thesis using holding_state [OF p(1) n(2), of lk] p assms(3,4)
    by (auto simp: acquire_def spin_taken)
qed

subsection \<open>Properties\<close>

text \<open>C12: nested critical sections: from a state where this processor holds the locks hs, every
  sequence of acquire and release that takes no lock twice and releases only held locks runs without
  panic or hang; afterwards exactly the expected locks are held, interrupts are off while any lock is
  held, and when the last one is released the interrupt flag is what it was before the first was taken.\<close>

theorem locks_nest:
  assumes "lock_state s hs b" "legal ops hs = Some hs'" "length hs + length ops < 2147483645"
  shows "\<exists>s'. run_ops acquire release ops s = Inr s' \<and> ncli (this_cpu s') = int (length hs')
    \<and> (\<forall>l. locked (locks s' l) \<noteq> 0 \<longleftrightarrow> l \<in> set hs')
    \<and> (if hs' = [] then if_on s' = b else \<not> if_on s')"
proof -
  obtain s' where "run_ops acquire release ops s = Inr s'" "lock_state s' hs' b"
    using spinlocks.run_legal [OF assms] by blast
  then show ?thesis by (intro exI [of _ s']) (simp add: lock_state_def)
qed

definition idle_machine :: machine where
  "idle_machine = \<lparr>ram = \<lambda>_. 0, freelist = 0, k_maps = [], kpgdir = 0, cr3 = 0,
     ports = \<lparr>dev = \<lambda>_ _. 0x60, trace = []\<rparr>, eflags = 0x202,
     cpus = \<lambda>_. \<lparr>gdt = [], scheduler = 0, started = 0, cur_proc = None, ts = zero_tss,
       ncli = 0, intena = 0, cpu_pid = 0\<rparr>,
     cpu_id = 0, locks = \<lambda>_. \<lparr>locked = 0, lock_name = [], lock_cpu = None\<rparr>\<rparr>"

lemma idle_machine_state: "lock_state idle_machine [] True"
  by (simp add: lock_state_def idle_machine_def if_on_def FL_IF_def)

theorem locks_nest_witness:
  "\<exists>s'. run_ops acquire release [Acq Ide_lock, Acq Ptable_lock, Rel Ide_lock, Rel Ptable_lock] idle_machine = Inr s'
    \<and> ncli (this_cpu s') = 0 \<and> (\<forall>l. locked (locks s' l) = 0) \<and> if_on s'"
  using locks_nest [OF idle_machine_state, of "[Acq Ide_lock, Acq Ptable_lock, Rel Ide_lock, Rel Ptable_lock]" "[]"]
  by simp

text \<open>C38: misuse of a lock never passes silently: acquiring a lock this processor holds panics,
  releasing one it does not hold panics, and a lock word taken by anybody else is waited for without end.\<close>

theorem lock_misuse:
  assumes "lock_state s hs b" "length hs < 2147483645"
  shows "(lk \<in> set hs \<longrightarrow> acquire lk s = panic ''acquire'')
    \<and> (lk \<notin> set hs \<longrightarrow> release lk s = panic ''release'')
    \<and> (lk \<notin> set hs \<longrightarrow> acquire lk (set_lock lk (\<lambda>l. l\<lparr>locked := 1, lock_cpu := None\<rparr>) s) = Inl Hang)"
  using acquire_twice [OF assms(1) _ assms(2)] release_not_held [OF assms(1) _ assms(2)]
    acquire_foreign [of "set_lock lk (\<lambda>l. l\<lparr>locked := 1, lock_cpu := None\<rparr>) s" "length hs" b lk]
    lock_state_cli [OF assms(1)] assms(2) by simp

theorem lock_misuse_witness:
  "release Ide_lock idle_machine = panic ''release''"
  using lock_misuse [OF idle_machine_state, of Ide_lock] by simp

end
