(* ===== verification/Entry.thy ===== *)
theory Entry
  imports Memory Gdt
begin

section \<open>Register contexts: switch.asm and trap.asm\<close>

text \<open>
  The assembly the C code of the kernel is entered and left by: \<^verbatim>\<open>kernel/asm/switch.asm\<close>
  (\<open>switch_to\<close>), the stubs of \<^verbatim>\<open>kernel/trap/isr.c\<close> with \<^verbatim>\<open>kernel/asm/trap.asm\<close>
  (\<open>trap_enter\<close>, \<open>trap_leave\<close>), and what the processor itself pushes and pops at an interrupt
  and at \<^verbatim>\<open>iret\<close>. The state is memory and the registers; the offsets of
  \<^verbatim>\<open>struct context\<close> and \<^verbatim>\<open>struct trap_frame\<close> are the \<open>tf_\<close> and \<open>ctx_\<close>
  definitions.
\<close>

record regs =
  r_eax :: u32
  r_ebx :: u32
  r_ecx :: u32
  r_edx :: u32
  r_esi :: u32
  r_edi :: u32
  r_ebp :: u32
  r_esp :: u32
  r_eip :: u32
  r_flags :: u32
  r_cs :: u16
  r_ds :: u16
  r_es :: u16
  r_fs :: u16
  r_gs :: u16
  r_ss :: u16

type_synonym core = "mem \<times> regs"

definition push :: "u32 \<Rightarrow> core \<Rightarrow> core" where
  "push v = (\<lambda>(m, r). (store32 m (r_esp r - 4) v, r\<lparr>r_esp := r_esp r - 4\<rparr>))"

definition pop :: "(u32 \<Rightarrow> regs \<Rightarrow> regs) \<Rightarrow> core \<Rightarrow> core" where
  "pop set_reg = (\<lambda>(m, r). (m, set_reg (load32 m (r_esp r)) (r\<lparr>r_esp := r_esp r + 4\<rparr>)))"

subsection \<open>Switching kernel stacks\<close>

text \<open>Called with the return address on top of the stack; returns the stack pointer to store in
  \<^verbatim>\<open>*prev\<close> and the core as it runs on after \<^verbatim>\<open>ret\<close> in the next context.\<close>

definition switch_to :: "u32 \<Rightarrow> core \<Rightarrow> u32 \<times> core" where
  "switch_to next c =
     (let c1 = push (r_ebp (snd c)) c;
          c2 = push (r_ebx (snd c1)) c1;
          c3 = push (r_esi (snd c2)) c2;
          (m, r) = push (r_edi (snd c3)) c3;
          c4 = (m, r\<lparr>r_esp := next\<rparr>);
          c5 = pop (\<lambda>v r. r\<lparr>r_edi := v\<rparr>) c4;
          c6 = pop (\<lambda>v r. r\<lparr>r_esi := v\<rparr>) c5;
          c7 = pop (\<lambda>v r. r\<lparr>r_ebx := v\<rparr>) c6;
          c8 = pop (\<lambda>v r. r\<lparr>r_ebp := v\<rparr>) c7
      in (r_esp r, pop (\<lambda>v r. r\<lparr>r_eip := v\<rparr>) c8))"

definition ctx_edi :: u32 where "ctx_edi = 0"
definition ctx_esi :: u32 where "ctx_esi = 4"
definition ctx_ebx :: u32 where "ctx_ebx = 8"
definition ctx_ebp :: u32 where "ctx_ebp = 12"
definition ctx_eip :: u32 where "ctx_eip = 16"
definition sizeof_context :: u32 where "sizeof_context = 20"

subsection \<open>Trap frames\<close>

definition tf_eax :: u32 where "tf_eax = 28"
definition tf_ebx :: u32 where "tf_ebx = 16"
definition tf_ecx :: u32 where "tf_ecx = 24"
definition tf_edx :: u32 where "tf_edx = 20"
definition tf_es :: u32 where "tf_es = 40"
definition tf_ds :: u32 where "tf_ds = 44"
definition tf_int_no :: u32 where "tf_int_no = 48"
definition tf_err_code :: u32 where "tf_err_code = 52"
definition tf_eip :: u32 where "tf_eip = 56"
definition tf_cs :: u32 where "tf_cs = 60"
definition tf_eflags :: u32 where "tf_eflags = 64"
definition tf_user_esp :: u32 where "tf_user_esp = 68"
definition tf_ss :: u32 where "tf_ss = 72"
definition sizeof_trap_frame :: u32 where "sizeof_trap_frame = 76"

lemmas frame_offsets = tf_eax_def tf_ebx_def tf_ecx_def tf_edx_def tf_es_def tf_ds_def tf_int_no_def
  tf_err_code_def tf_eip_def tf_cs_def tf_eflags_def tf_user_esp_def tf_ss_def sizeof_trap_frame_def
  ctx_edi_def ctx_esi_def ctx_ebx_def ctx_ebp_def ctx_eip_def sizeof_context_def

definition user_mode :: "regs \<Rightarrow> bool" where
  "user_mode r \<longleftrightarrow> r_cs r AND 3 = 3"

text \<open>The processor takes an interrupt: from user mode it switches to the stack the task segment
  names first; interrupts go off, because every gate is an interrupt gate.\<close>

definition cpu_interrupt :: "tss_entry \<Rightarrow> core \<Rightarrow> core" where
  "cpu_interrupt t c =
     (let r = snd c;
          c1 = (if user_mode r
                then push (r_esp r) (push (ucast (r_ss r)) (fst c, r\<lparr>r_esp := esp0 t, r_ss := ss0 t\<rparr>))
                else c);
          (m, r') = push (r_eip r) (push (ucast (r_cs r)) (push (r_flags r) c1))
      in (m, r'\<lparr>r_flags := r_flags r' AND NOT FL_IF, r_cs := KER_CS\<rparr>))"

text \<open>\<^verbatim>\<open>isr_<name>_stub\<close>: every stub pushes a zero error code and its number.\<close>

definition isr_stub :: "nat \<Rightarrow> core \<Rightarrow> core" where
  "isr_stub num c = push (of_nat num) (push 0 c)"

definition pusha :: "core \<Rightarrow> core" where
  "pusha c = (let r = snd c in push (r_edi r) (push (r_esi r) (push (r_ebp r) (push (r_esp r)
     (push (r_ebx r) (push (r_edx r) (push (r_ecx r) (push (r_eax r) c))))))))"

definition popa :: "core \<Rightarrow> core" where
  "popa c = pop (\<lambda>v r. r\<lparr>r_eax := v\<rparr>) (pop (\<lambda>v r. r\<lparr>r_ecx := v\<rparr>) (pop (\<lambda>v r. r\<lparr>r_edx := v\<rparr>)
     (pop (\<lambda>v r. r\<lparr>r_ebx := v\<rparr>) (pop (\<lambda>v r. r) (pop (\<lambda>v r. r\<lparr>r_ebp := v\<rparr>)
     (pop (\<lambda>v r. r\<lparr>r_esi := v\<rparr>) (pop (\<lambda>v r. r\<lparr>r_edi := v\<rparr>) c)))))))"

text \<open>\<^verbatim>\<open>trap\<close> up to the call of \<^verbatim>\<open>isr_handler\<close>: the stack pointer is then the address of the
  frame, which is the argument of the handler.\<close>

definition trap_enter :: "tss_entry \<Rightarrow> nat \<Rightarrow> core \<Rightarrow> core" where
  "trap_enter t num c =
     (let c1 = isr_stub num (cpu_interrupt t c);
          r = snd c1;
          (m, r') = pusha (push (ucast (r_gs r)) (push (ucast (r_fs r)) (push (ucast (r_es r)) (push (ucast (r_ds r)) c1))))
      in (m, r'\<lparr>r_ds := 0x10, r_es := 0x10, r_fs := 0x10, r_gs := 0x10\<rparr>))"

definition iret :: "core \<Rightarrow> core" where
  "iret c =
     (let c1 = pop (\<lambda>v r. r\<lparr>r_flags := v\<rparr>) (pop (\<lambda>v r. r\<lparr>r_cs := ucast v\<rparr>) (pop (\<lambda>v r. r\<lparr>r_eip := v\<rparr>) c))
      in if user_mode (snd c1)
         then (let esp' = load32 (fst c1) (r_esp (snd c1)); ss' = load32 (fst c1) (r_esp (snd c1) + 4)
               in (fst c1, (snd c1)\<lparr>r_esp := esp', r_ss := ucast ss'\<rparr>))
         else c1)"

text \<open>\<^verbatim>\<open>trap_ret\<close>, entered with the stack pointer at the frame.\<close>

definition trap_leave :: "core \<Rightarrow> core" where
  "trap_leave c =
     (let c1 = popa c;
          c2 = pop (\<lambda>v r. r\<lparr>r_gs := ucast v\<rparr>) c1;
          c3 = pop (\<lambda>v r. r\<lparr>r_fs := ucast v\<rparr>) c2;
          c4 = pop (\<lambda>v r. r\<lparr>r_es := ucast v\<rparr>) c3;
          (m, r) = pop (\<lambda>v r. r\<lparr>r_ds := ucast v\<rparr>) c4
      in iret (m, r\<lparr>r_esp := r_esp r + 8\<rparr>))"

subsection \<open>Stack words\<close>

lemma aligned_minus_word: "aligned 2 x \<Longrightarrow> aligned 2 w \<Longrightarrow> aligned 2 (x - w)"
  by (rule aligned_minus) simp_all

lemma aligned_plus_word: "aligned 2 x \<Longrightarrow> aligned 2 w \<Longrightarrow> aligned 2 (x + w)"
  by (rule aligned_add) simp_all

lemma aligned_numeral [simp]: "aligned 2 (numeral n) \<longleftrightarrow> unat (numeral n :: u32) mod 4 = 0"
  by (simp add: aligned_def)

lemma ucast_16_32 [simp]: "ucast (ucast (w :: u16) :: u32) = w"
  by (rule bit_word_eqI) (auto simp: bit_simps)

lemma push_pair: "push v (m, r) = (store32 m (r_esp r - 4) v, r\<lparr>r_esp := r_esp r - 4\<rparr>)"
  by (simp add: push_def)

lemma pop_pair: "pop f (m, r) = (m, f (load32 m (r_esp r)) (r\<lparr>r_esp := r_esp r + 4\<rparr>))"
  by (simp add: pop_def)

lemmas stack_simps = push_pair pop_pair Let_def aligned_minus_word aligned_plus_word diff_diff_eq

text \<open>A run of pushes is a list of words below the stack pointer it starts from.\<close>

primrec pushes :: "u32 list \<Rightarrow> u32 \<Rightarrow> mem \<Rightarrow> mem" where
  "pushes [] e m = m"
| "pushes (w # ws) e m = pushes ws (e - 4) (store32 m (e - 4) w)"

lemma load_pushes_above:
  "aligned 2 e \<Longrightarrow> length ws + j < 1000 \<Longrightarrow> load32 (pushes ws e m) (e + 4 * of_nat j) = load32 m (e + 4 * of_nat j)"
proof (induction ws arbitrary: e m j)
  case (Cons w ws)
  have "unat (4 * of_nat j :: u32) = 4 * j" using Cons.prems(2) unat_of_nat_u32 [of "4 * j"] by simp
  then have "aligned 2 (4 * of_nat j)" by (simp add: aligned_def)
  then have al: "aligned 2 (e - 4)" "aligned 2 (e + 4 * of_nat j)"
    using Cons.prems(1) by (simp_all add: aligned_minus_word aligned_plus_word)
  have eq: "e + 4 * of_nat j = e - 4 + 4 * of_nat (Suc j)" by simp
  have "(of_nat (4 * Suc j) :: u32) \<noteq> 0" using Cons.prems(2) of_nat_inj_u32 [of "4 * Suc j" 0] by simp
  moreover have "(of_nat (4 * Suc j) :: u32) = (e + 4 * of_nat j) - (e - 4)" by simp
  ultimately have "e + 4 * of_nat j \<noteq> e - 4" by (metis diff_self)
  then have "load32 (store32 m (e - 4) w) (e + 4 * of_nat j) = load32 m (e + 4 * of_nat j)"
    using load32_store32_other [OF al] by metis
  moreover have "load32 (pushes ws (e - 4) (store32 m (e - 4) w)) (e - 4 + 4 * of_nat (Suc j))
      = load32 (store32 m (e - 4) w) (e - 4 + 4 * of_nat (Suc j))"
    using Cons.IH [OF al(1), of "Suc j"] Cons.prems(2) by simp
  ultimately show ?case unfolding pushes.simps eq [symmetric] by (rule trans [rotated])
qed simp

lemma load_pushes:
  "aligned 2 e \<Longrightarrow> length ws < 1000 \<Longrightarrow> k < length ws \<Longrightarrow> load32 (pushes ws e m) (e - 4 * of_nat (Suc k)) = ws ! k"
proof (induction ws arbitrary: e m k)
  case (Cons w ws)
  have al: "aligned 2 (e - 4)" using Cons.prems(1) by (simp add: aligned_minus_word)
  show ?case
  proof (cases k)
    case 0
    then show ?thesis using load_pushes_above [OF al, of ws 0 "store32 m (e - 4) w"] Cons.prems(2) al by simp
  next
    case (Suc k')
    have eq: "e - 4 * of_nat (Suc k) = e - 4 - 4 * of_nat (Suc k')" by (simp add: Suc algebra_simps)
    then show ?thesis using Cons.IH [OF al, of k' "store32 m (e - 4) w"] Cons.prems(2,3) unfolding eq unfolding Suc pushes.simps nth_Cons_Suc by simp
  qed
qed simp

lemma trap_enter_pushes:
  assumes "user_mode r"
  shows "trap_enter t num (m, r) = (pushes [ucast (r_ss r), r_esp r, r_flags r, ucast (r_cs r), r_eip r, 0, of_nat num,
      ucast (r_ds r), ucast (r_es r), ucast (r_fs r), ucast (r_gs r), r_eax r, r_ecx r, r_edx r, r_ebx r,
      esp0 t - 44, r_ebp r, r_esi r, r_edi r] (esp0 t) m, (snd (trap_enter t num (m, r)))\<lparr>r_esp := esp0 t - 76\<rparr>)"
  using assms by (simp add: trap_enter_def isr_stub_def cpu_interrupt_def pusha_def push_pair Let_def diff_diff_eq)

lemma trap_frame_cells:
  fixes m :: mem and num :: nat
  assumes "user_mode r" "aligned 2 (esp0 t)"
  defines "e \<equiv> esp0 t" and "c \<equiv> trap_enter t num (m, r)"
  shows "r_esp (snd c) = e - 76"
    and "load32 (fst c) (e - 76) = r_edi r" "load32 (fst c) (e - 72) = r_esi r" "load32 (fst c) (e - 68) = r_ebp r"
    and "load32 (fst c) (e - 60) = r_ebx r" "load32 (fst c) (e - 56) = r_edx r" "load32 (fst c) (e - 52) = r_ecx r"
    and "load32 (fst c) (e - 48) = r_eax r" "load32 (fst c) (e - 44) = ucast (r_gs r)" "load32 (fst c) (e - 40) = ucast (r_fs r)"
    and "load32 (fst c) (e - 36) = ucast (r_es r)" "load32 (fst c) (e - 32) = ucast (r_ds r)"
    and "load32 (fst c) (e - 28) = of_nat num" "load32 (fst c) (e - 24) = 0" "load32 (fst c) (e - 20) = r_eip r"
    and "load32 (fst c) (e - 16) = ucast (r_cs r)" "load32 (fst c) (e - 12) = r_flags r" "load32 (fst c) (e - 8) = r_esp r"
    and "load32 (fst c) (e - 4) = ucast (r_ss r)"
proof -
  note al = assms(2) [folded e_def] and tp = trap_enter_pushes [OF assms(1), of t num m, folded c_def e_def]
  show "r_esp (snd c) = e - 76" by (subst tp) simp
  note ld = load_pushes [OF al, of "[ucast (r_ss r), r_esp r, r_flags r, ucast (r_cs r), r_eip r, 0, of_nat num,
      ucast (r_ds r), ucast (r_es r), ucast (r_fs r), ucast (r_gs r), r_eax r, r_ecx r, r_edx r, r_ebx r,
      e - 44, r_ebp r, r_esi r, r_edi r]" _ m]
  show "load32 (fst c) (e - 76) = r_edi r" "load32 (fst c) (e - 72) = r_esi r" "load32 (fst c) (e - 68) = r_ebp r"
    "load32 (fst c) (e - 60) = r_ebx r" "load32 (fst c) (e - 56) = r_edx r" "load32 (fst c) (e - 52) = r_ecx r"
    using ld [of 18] ld [of 17] ld [of 16] ld [of 14] ld [of 13] ld [of 12] by (subst tp; simp)+
  show "load32 (fst c) (e - 48) = r_eax r" "load32 (fst c) (e - 44) = ucast (r_gs r)" "load32 (fst c) (e - 40) = ucast (r_fs r)"
    "load32 (fst c) (e - 36) = ucast (r_es r)" "load32 (fst c) (e - 32) = ucast (r_ds r)" "load32 (fst c) (e - 28) = of_nat num"
    using ld [of 11] ld [of 10] ld [of 9] ld [of 8] ld [of 7] ld [of 6] by (subst tp; simp)+
  show "load32 (fst c) (e - 24) = 0" "load32 (fst c) (e - 20) = r_eip r" "load32 (fst c) (e - 16) = ucast (r_cs r)"
    "load32 (fst c) (e - 12) = r_flags r" "load32 (fst c) (e - 8) = r_esp r" "load32 (fst c) (e - 4) = ucast (r_ss r)"
    using ld [of 5] ld [of 4] ld [of 3] ld [of 2] ld [of 1] ld [of 0] by (subst tp; simp)+
qed


lemma frame_steps:
  "(e :: u32) - 76 + 4 = e - 72" "e - 72 + 4 = e - 68" "e - 68 + 4 = e - 64" "e - 64 + 4 = e - 60"
  "e - 60 + 4 = e - 56" "e - 56 + 4 = e - 52" "e - 52 + 4 = e - 48" "e - 48 + 4 = e - 44" "e - 44 + 4 = e - 40"
  "e - 40 + 4 = e - 36" "e - 36 + 4 = e - 32" "e - 32 + 4 = e - 28" "e - 28 + 8 = e - 20" "e - 20 + 4 = e - 16"
  "e - 16 + 4 = e - 12" "e - 12 + 4 = e - 8" "e - 8 + 4 = e - 4"
  "e - 16 + 8 = e - 8" "e - 16 + 12 = e - 4" "e - 16 + 16 = e"
  "e - 76 + 28 = e - 48" "e - 76 + 56 = e - 20" "e - 76 + 48 = e - 28"
  by simp_all

lemma popa_pair: "popa (m, r) = (m, r\<lparr>r_esp := r_esp r + 32, r_edi := load32 m (r_esp r), r_esi := load32 m (r_esp r + 4),
   r_ebp := load32 m (r_esp r + 8), r_ebx := load32 m (r_esp r + 16), r_edx := load32 m (r_esp r + 20),
   r_ecx := load32 m (r_esp r + 24), r_eax := load32 m (r_esp r + 28)\<rparr>)"
  by (simp add: popa_def pop_pair add.assoc)
lemma iret_pair: "iret (m, r) = (m, let r1 = r\<lparr>r_esp := r_esp r + 12, r_eip := load32 m (r_esp r), r_cs := ucast (load32 m (r_esp r + 4)),
   r_flags := load32 m (r_esp r + 8)\<rparr> in if user_mode r1 then r1\<lparr>r_esp := load32 m (r_esp r + 12), r_ss := ucast (load32 m (r_esp r + 16))\<rparr> else r1)"
  by (simp add: iret_def pop_pair add.assoc Let_def user_mode_def)
lemma trap_leave_pair: "trap_leave (m, r) = iret (m, r\<lparr>r_esp := r_esp r + 56, r_edi := load32 m (r_esp r),
   r_esi := load32 m (r_esp r + 4), r_ebp := load32 m (r_esp r + 8), r_ebx := load32 m (r_esp r + 16),
   r_edx := load32 m (r_esp r + 20), r_ecx := load32 m (r_esp r + 24), r_eax := load32 m (r_esp r + 28),
   r_gs := ucast (load32 m (r_esp r + 32)), r_fs := ucast (load32 m (r_esp r + 36)),
   r_es := ucast (load32 m (r_esp r + 40)), r_ds := ucast (load32 m (r_esp r + 44))\<rparr>)"
  by (cases r) (simp add: trap_leave_def popa_pair pop_pair add.assoc Let_def)



lemma trap_leave_user:
  assumes "(ucast (load32 m (r_esp r + 60)) :: u16) AND 3 = 3"
  shows "trap_leave (m, r) = (m, \<lparr>r_eax = load32 m (r_esp r + 28), r_ebx = load32 m (r_esp r + 16),
    r_ecx = load32 m (r_esp r + 24), r_edx = load32 m (r_esp r + 20), r_esi = load32 m (r_esp r + 4),
    r_edi = load32 m (r_esp r), r_ebp = load32 m (r_esp r + 8), r_esp = load32 m (r_esp r + 68),
    r_eip = load32 m (r_esp r + 56), r_flags = load32 m (r_esp r + 64), r_cs = ucast (load32 m (r_esp r + 60)),
    r_ds = ucast (load32 m (r_esp r + 44)), r_es = ucast (load32 m (r_esp r + 40)),
    r_fs = ucast (load32 m (r_esp r + 36)), r_gs = ucast (load32 m (r_esp r + 32)),
    r_ss = ucast (load32 m (r_esp r + 72))\<rparr>)"
  using assms by (cases r) (simp add: trap_leave_pair iret_pair add.assoc Let_def user_mode_def)

lemma trap_leave_regs:
  assumes "r_esp r' = e" "load32 m e = edi" "load32 m (e + 4) = esi" "load32 m (e + 8) = ebp"
    "load32 m (e + 16) = ebx" "load32 m (e + 20) = edx" "load32 m (e + 24) = ecx" "load32 m (e + 28) = eax"
    "load32 m (e + 32) = ucast (gs :: u16)" "load32 m (e + 36) = ucast (fs :: u16)" "load32 m (e + 40) = ucast (es :: u16)"
    "load32 m (e + 44) = ucast (ds :: u16)" "load32 m (e + 56) = eip" "load32 m (e + 60) = ucast (cs :: u16)"
    "load32 m (e + 64) = fl" "load32 m (e + 68) = esp" "load32 m (e + 72) = ucast (ss :: u16)" "cs AND 3 = 3"
  shows "trap_leave (m, r') = (m, \<lparr>r_eax = eax, r_ebx = ebx, r_ecx = ecx, r_edx = edx, r_esi = esi, r_edi = edi,
    r_ebp = ebp, r_esp = esp, r_eip = eip, r_flags = fl, r_cs = cs, r_ds = ds, r_es = es, r_fs = fs, r_gs = gs, r_ss = ss\<rparr>)"
proof -
  have "(ucast (load32 m (r_esp r' + 60)) :: u16) AND 3 = 3" by (simp only: assms ucast_16_32)
  from trap_leave_user [OF this] show ?thesis by (simp only: assms ucast_16_32)
qed

lemma trap_enter_frame:
  assumes "user_mode r" "\<not> in_block (esp0 t - 76) 76 a"
  shows "fst (trap_enter t num (m, r)) a = m a"
proof -
  have out: "\<not> in_block (esp0 t - 76 + of_nat k) 4 a" if "k + 4 \<le> 76" for k
    using in_block_inside [of "esp0 t - 76" k 4 a 76] that assms(2) by auto
  have "\<not> in_block (esp0 t - 4) 4 a" "\<not> in_block (esp0 t - 8) 4 a" "\<not> in_block (esp0 t - 12) 4 a" "\<not> in_block (esp0 t - 16) 4 a" "\<not> in_block (esp0 t - 20) 4 a" "\<not> in_block (esp0 t - 24) 4 a" "\<not> in_block (esp0 t - 28) 4 a" "\<not> in_block (esp0 t - 32) 4 a" "\<not> in_block (esp0 t - 36) 4 a" "\<not> in_block (esp0 t - 40) 4 a"
    "\<not> in_block (esp0 t - 44) 4 a" "\<not> in_block (esp0 t - 48) 4 a" "\<not> in_block (esp0 t - 52) 4 a" "\<not> in_block (esp0 t - 56) 4 a" "\<not> in_block (esp0 t - 60) 4 a" "\<not> in_block (esp0 t - 64) 4 a" "\<not> in_block (esp0 t - 68) 4 a" "\<not> in_block (esp0 t - 72) 4 a" "\<not> in_block (esp0 t - 76) 4 a"
    using out [of 0] out [of 4] out [of 8] out [of 12] out [of 16] out [of 20] out [of 24] out [of 28] out [of 32] out [of 36] out [of 40] out [of 44] out [of 48] out [of 52] out [of 56] out [of 60] out [of 64] out [of 68] out [of 72] by simp_all
  then show ?thesis using assms(1)
    by (simp add: trap_enter_def isr_stub_def cpu_interrupt_def pusha_def push_pair Let_def diff_diff_eq store32_frame)
qed

subsection \<open>Properties\<close>



text \<open>C29: a switch of kernel stacks is undone by switching back: switch_to saves the context below
  the stack pointer it returns; a later switch_to to that pointer, made on any stack whose pushes miss the
  saved words, resumes after the first call with ebx, esi, edi, ebp and the stack pointer as they were.\<close>

theorem switch_to_resumes:
  assumes "aligned 2 (r_esp r)" "switch_to next (m, r) = (saved, c1)"
    and "\<forall>w \<in> {0, 4, 8, 12, 16}. load32 m2 (saved + w) = load32 (fst c1) (saved + w)"
    and "aligned 2 (r_esp r2)" "\<forall>w \<in> {4, 8, 12, 16}. \<forall>v \<in> {0, 4, 8, 12, 16}. r_esp r2 - w \<noteq> saved + v"
  shows "let r' = snd (snd (switch_to saved (m2, r2))) in
    r_ebx r' = r_ebx r \<and> r_esi r' = r_esi r \<and> r_edi r' = r_edi r \<and> r_ebp r' = r_ebp r
    \<and> r_esp r' = r_esp r + 4 \<and> r_eip r' = load32 m (r_esp r)"
proof -
  let ?e = "r_esp r"
  let ?m = "fst c1"
  have sv: "saved = ?e - 16" using assms(2) by (auto simp: switch_to_def stack_simps)
  have al: "aligned 2 (?e - 4)" "aligned 2 (?e - 8)" "aligned 2 (?e - 12)" "aligned 2 (?e - 16)"
    using assms(1) by (simp_all add: aligned_minus_word)
  have "?m = store32 (store32 (store32 (store32 m (?e - 4) (r_ebp r)) (?e - 8) (r_ebx r)) (?e - 12) (r_esi r)) (?e - 16) (r_edi r)"
    using assms(2) by (auto simp: switch_to_def stack_simps)
  then have "load32 ?m (?e - 16) = r_edi r" "load32 ?m (?e - 12) = r_esi r" "load32 ?m (?e - 8) = r_ebx r"
    "load32 ?m (?e - 4) = r_ebp r" "load32 ?m ?e = load32 m ?e"
    using al assms(1) by simp_all
  then have l2: "load32 m2 (?e - 16) = r_edi r" "load32 m2 (?e - 12) = r_esi r" "load32 m2 (?e - 8) = r_ebx r"
    "load32 m2 (?e - 4) = r_ebp r" "load32 m2 ?e = load32 m ?e"
    using assms(3) by (simp_all add: sv frame_steps)
  have ne: "r_esp r2 - w \<noteq> ?e - 16" "r_esp r2 - w \<noteq> ?e - 12" "r_esp r2 - w \<noteq> ?e - 8" "r_esp r2 - w \<noteq> ?e - 4"
    "r_esp r2 - w \<noteq> ?e" if "w \<in> {4, 8, 12, 16}" for w
    using assms(5) that by (auto simp: sv frame_steps)
  have al2: "aligned 2 (r_esp r2 - 4)" "aligned 2 (r_esp r2 - 8)" "aligned 2 (r_esp r2 - 12)" "aligned 2 (r_esp r2 - 16)"
    using assms(4) by (simp_all add: aligned_minus_word)
  show ?thesis
    using l2 al al2 assms(1) ne
    by (simp add: switch_to_def stack_simps sv frame_steps)
qed

theorem switch_to_resumes_witness:
  "r_ebx (snd (snd (switch_to 0x8FF0 (store32 (fst (snd (switch_to 0xA000 (store32 (\<lambda>_. 0) 0x9000 0x1234,
        \<lparr>r_eax = 0, r_ebx = 77, r_ecx = 2, r_edx = 3, r_esi = 4, r_edi = 5, r_ebp = 6, r_esp = 0x9000, r_eip = 0,
        r_flags = 2, r_cs = 8, r_ds = 16, r_es = 16, r_fs = 16, r_gs = 16, r_ss = 16\<rparr>)))) 0xB000 9,
      \<lparr>r_eax = 0, r_ebx = 0, r_ecx = 0, r_edx = 0, r_esi = 0, r_edi = 0, r_ebp = 0, r_esp = 0xB000, r_eip = 0,
        r_flags = 2, r_cs = 8, r_ds = 16, r_es = 16, r_fs = 16, r_gs = 16, r_ss = 16\<rparr>)))) = 77"
proof -
  let ?r = "\<lparr>r_eax = 0, r_ebx = 77, r_ecx = 2, r_edx = 3, r_esi = 4, r_edi = 5, r_ebp = 6, r_esp = 0x9000, r_eip = 0,
        r_flags = 2, r_cs = 8, r_ds = 16, r_es = 16, r_fs = 16, r_gs = 16, r_ss = 16\<rparr>"
  obtain saved c1 where s: "switch_to 0xA000 (store32 (\<lambda>_. 0) 0x9000 0x1234, ?r) = (saved, c1)" by (metis surj_pair)
  then have "saved = 0x8FF0" by (auto simp: switch_to_def stack_simps)
  then show ?thesis
    using switch_to_resumes [OF _ s, of "store32 (fst c1) 0xB000 9"] s by (simp add: Let_def)
qed

end
