(* ===== verification/Process.thy ===== *)
theory Process
  imports Spinlock Entry StringLib
begin

section \<open>Processes\<close>

text \<open>
  \<^verbatim>\<open>include/Tuix/process.h\<close> and the creation of processes in \<^verbatim>\<open>kernel/sys/process.c\<close>,
  with \<^verbatim>\<open>switch_uvm\<close> of \<^verbatim>\<open>kernel/mm/vm.c\<close>. A process is its entry in the table; its
  trap frame and its context are where they are in the code, in the page of its kernel stack, so that the
  theorems about \<^verbatim>\<open>switch_to\<close> and \<^verbatim>\<open>trap_ret\<close> apply to the bytes
  \<^verbatim>\<open>config_proc_kstack\<close> and \<^verbatim>\<open>init_user\<close> write there. Addresses the linker chooses
  (code symbols, the task segment, the table of descriptors) are the record \<open>image\<close>.
\<close>

datatype proc_state = UNUSED | EMBRYO | SLEEPING | RUNNABLE | RUNNING | ZOMBIE

record proc =
  pid :: int
  state :: proc_state
  psize :: u32
  pgdir :: u32
  parent :: "nat option"
  tf :: u32
  ctx :: u32
  killed :: int
  pname :: "u8 list"
  kstack :: u32
  kstack_size :: u32
  ofile :: "u32 list"
  chan :: u32

record kernel = machine +
  ptable :: "proc list"
  proc_first :: "nat option"
  next_pid :: int
  fork_first :: bool

record image =
  trap_ret :: u32
  fork_ret :: u32
  user_init_code :: u32
  user_init_code_size :: u32
  ts_addr :: u32
  boot_stack :: u32

definition MAX_PROC :: nat where "MAX_PROC = 64"
definition KSTACK_SIZE :: u32 where "KSTACK_SIZE = 4096"
definition sizeof_tss :: u32 where "sizeof_tss = 104"

definition set_proc :: "nat \<Rightarrow> (proc \<Rightarrow> proc) \<Rightarrow> 'a kernel_scheme \<Rightarrow> 'a kernel_scheme" where
  "set_proc i f s = s\<lparr>ptable := (ptable s)[i := f (ptable s ! i)]\<rparr>"

text \<open>A string copied with \<^verbatim>\<open>strncpy\<close> into an array of \<open>n\<close> characters of a structure.\<close>

definition strncpy_array :: "string \<Rightarrow> u32 \<Rightarrow> u8 list" where
  "strncpy_array str n = read_bytes
     (snd (strncpy (write_bytes (\<lambda>_. 0) 4096 (lit str @ [0])) 8192 4096 n)) 8192 (unat n)"

subsection \<open>Creating a process\<close>

definition config_proc_kstack :: "image \<Rightarrow> nat \<Rightarrow> 'a kernel_scheme \<Rightarrow> nat option \<times> 'a kernel_scheme" where
  "config_proc_kstack im i s =
     (let s1 = set_proc i (\<lambda>p. p\<lparr>state := EMBRYO, pid := next_pid s\<rparr>) s\<lparr>next_pid := wrap32 (next_pid s + 1)\<rparr>;
          (k, s2) = kalloc s1;
          s3 = set_proc i (\<lambda>p. p\<lparr>kstack := k\<rparr>) s2
      in if k = 0 then (None, set_proc i (\<lambda>p. p\<lparr>state := UNUSED\<rparr>) s3)
         else (let sp0 = k + KSTACK_SIZE - sizeof_trap_frame;
                   s4 = set_proc i (\<lambda>p. p\<lparr>tf := sp0\<rparr>) s3;
                   sp1 = sp0 - 4;
                   s5 = s4\<lparr>ram := store32 (ram s4) sp1 (trap_ret im)\<rparr>;
                   sp2 = sp1 - sizeof_context;
                   s6 = set_proc i (\<lambda>p. p\<lparr>ctx := sp2\<rparr>) s5;
                   s7 = s6\<lparr>ram := snd (memset (ram s6) sp2 0 sizeof_context)\<rparr>;
                   s8 = s7\<lparr>ram := store32 (ram s7) (sp2 + ctx_eip) (fork_ret im)\<rparr>
               in (Some i, s8)))"

function alloc_loop :: "image \<Rightarrow> nat \<Rightarrow> 'a kernel_scheme \<Rightarrow> nat option \<times> 'a kernel_scheme" where
  "alloc_loop im i s =
     (if i < MAX_PROC then
        (if state (ptable s ! i) = UNUSED then config_proc_kstack im i s else alloc_loop im (i + 1) s)
      else (None, s))"
  by pat_completeness auto
termination by (relation "measure (\<lambda>(im, i, s). MAX_PROC - i)") auto

declare alloc_loop.simps [simp del]

definition alloc_process :: "image \<Rightarrow> 'a kernel_scheme \<Rightarrow> nat option \<times> 'a kernel_scheme" where
  "alloc_process im s = alloc_loop im 0 s"

text \<open>\<^verbatim>\<open>init_user\<close> does not test the result of \<^verbatim>\<open>alloc_process\<close>; with a null process it
  writes through it.\<close>

definition init_user :: "image \<Rightarrow> 'a kernel_scheme \<Rightarrow> 'a kernel_scheme res" where
  "init_user im s =
     (let s1 = init_lock Ptable_lock ''ptable'' s;
          (p, s2) = alloc_process im s1;
          s3 = s2\<lparr>proc_first := p\<rparr>
      in case p of None \<Rightarrow> Inl (Undef ''null process'')
         | Some i \<Rightarrow> bindR (setup_kvm s3) (\<lambda>(pg, s4).
             let s5 = set_proc i (\<lambda>p. p\<lparr>pgdir := pg\<rparr>) s4
             in if pg = 0 then panic ''userinit: out of memory?''
                else bindR (init_uvm pg (user_init_code im) (user_init_code_size im) s5) (\<lambda>s6.
                  let s7 = set_proc i (\<lambda>p. p\<lparr>psize := PGSIZE\<rparr>) s6;
                      f = tf (ptable s7 ! i);
                      m1 = snd (memset (ram s7) f 0 sizeof_trap_frame);
                      m2 = store16 m1 (f + tf_cs) (USR_CS OR USR_DPL);
                      m3 = store16 m2 (f + tf_ds) (USR_DS OR USR_DPL);
                      m4 = store16 m3 (f + tf_es) (load16 m3 (f + tf_ds));
                      m5 = store16 m4 (f + tf_ss) (load16 m4 (f + tf_ds));
                      m6 = store32 m5 (f + tf_eflags) FL_IF;
                      m7 = store32 m6 (f + tf_user_esp) PGSIZE;
                      m8 = store32 m7 (f + tf_eip) 0;
                      s8 = s7\<lparr>ram := m8\<rparr>
                  in Inr (set_proc i (\<lambda>p. p\<lparr>state := RUNNABLE\<rparr>)
                       (set_proc i (\<lambda>p. p\<lparr>pname := strncpy_array ''initcode'' 16\<rparr>) s8)))))"

subsection \<open>Entering the address space of a process\<close>

definition switch_uvm :: "image \<Rightarrow> nat option \<Rightarrow> 'a kernel_scheme \<Rightarrow> 'a kernel_scheme res" where
  "switch_uvm im p s =
     (case p of None \<Rightarrow> panic ''switch_uvm: no process''
      | Some i \<Rightarrow>
          if kstack (ptable s ! i) = 0 then panic ''switch_uvm: no kstack''
          else if pgdir (ptable s ! i) = 0 then panic ''switch_uvm: no pgdir''
          else (let s1 = set_cpu (\<lambda>c. c\<lparr>gdt := set_tss_entry TSS_I (ts_addr im) (sizeof_tss - 1) 0x89 0x40 (gdt c)\<rparr>) s;
                    s2 = set_cpu (\<lambda>c. c\<lparr>ts := (ts c)\<lparr>ss0 := KER_DS, esp0 := kstack (ptable s ! i) + KSTACK_SIZE,
                           iomap_base := 0xFFFF\<rparr>\<rparr>) s1
                in Inr (lcr3 (V2P (pgdir (ptable s ! i))) s2)))"

subsection \<open>Cells of a page\<close>

lemma in_block_offsets:
  assumes "a < 4096" "b < 4096" "k \<le> 4096"
  shows "in_block (p + of_nat a) k (p + of_nat b) \<longleftrightarrow> a \<le> b \<and> b < a + k"
proof (cases "a \<le> b")
  case True
  then have "unat (p + of_nat b - (p + of_nat a)) = b - a" using assms by (simp add: unat_diff_of_nat)
  then show ?thesis using True assms by (simp only: in_block_def) auto
next
  case False
  then have "(of_nat b :: u32) - of_nat a = of_nat (4294967296 + b - a)"
    using of_nat_u32_wrap [of b] assms by (simp add: add.commute)
  then have "unat (p + of_nat b - (p + of_nat a)) = 4294967296 + b - a"
    using False assms by (simp add: unat_of_nat_u32 del: of_nat_add of_nat_diff)
  then show ?thesis using False assms by (simp add: in_block_def)
qed

lemma load32_memset_cell:
  assumes "p + of_nat (4 * i) \<noteq> 0" "i + n \<le> 1024" "j < 1024" "0 < n"
  shows "load32 (snd (memset m (p + of_nat (4 * i)) 0 (of_nat (4 * n)))) (p + of_nat (4 * j)) =
    (if i \<le> j \<and> j < i + n then 0 else load32 m (p + of_nat (4 * j)))"
proof -
  have n: "unat (of_nat (4 * n) :: u32) = 4 * n" using assms(2) by (simp only: unat_of_nat_u32)
  have at: "snd (memset m (p + of_nat (4 * i)) 0 (of_nat (4 * n))) (p + of_nat (4 * j) + of_nat k) =
      (if i \<le> j \<and> j < i + n then 0 else m (p + of_nat (4 * j) + of_nat k))" if "k < 4" for k
  proof -
    have "in_block (p + of_nat (4 * i)) (4 * n) (p + of_nat (4 * j + k)) \<longleftrightarrow> 4 * i \<le> 4 * j + k \<and> 4 * j + k < 4 * i + 4 * n"
      by (rule in_block_offsets) (use assms that in auto)
    also have "\<dots> \<longleftrightarrow> i \<le> j \<and> j < i + n" using that by auto
    finally show ?thesis using assms(1) unfolding memset_at [OF assms(1)] n by (simp add: add.assoc)
  qed
  show ?thesis using at [of 0] at [of 1] at [of 2] at [of 3] by (simp add: load32_def)
qed


subsection \<open>The process table\<close>

lemma set_proc_simps [simp]:
  "ram (set_proc i f s) = ram s" "freelist (set_proc i f s) = freelist s" "k_maps (set_proc i f s) = k_maps s"
  "locks (set_proc i f s) = locks s" "next_pid (set_proc i f s) = next_pid s" "proc_first (set_proc i f s) = proc_first s"
  "cpus (set_proc i f s) = cpus s" "c_cpu (set_proc i f s) = c_cpu s" "if_on (set_proc i f s) = if_on s"
  "length (ptable (set_proc i f s)) = length (ptable s)"
  "i < length (ptable s) \<Longrightarrow> ptable (set_proc i f s) ! j = (if i = j then f (ptable s ! i) else ptable s ! j)"
  by (simp_all add: set_proc_def c_cpu_def if_on_def)

text \<open>What the page tables and the pool look at is memory and the head of the free list.\<close>

lemma pool_cong: "ram s' = ram s \<Longrightarrow> freelist s' = freelist s \<Longrightarrow> free_pages s' xs = free_pages s xs"
  by (simp add: free_pages_def)

lemma vm_cong:
  "ram s' = ram s \<Longrightarrow> freelist s' = freelist s \<Longrightarrow> vm_inv s' pg xs = vm_inv s pg xs"
  "ram s' = ram s \<Longrightarrow> space s' pg xs = space s pg xs"
  by (simp_all add: vm_inv_def space_def pool_cong [of s' s])

lemma more_eqD:
  assumes "phys.more (s' :: 'a kernel_scheme) = phys.more s"
  shows "ptable s' = ptable s" "next_pid s' = next_pid s" "k_maps s' = k_maps s" "locks s' = locks s"
    "proc_first s' = proc_first s" "cpus s' = cpus s" "c_cpu s' = c_cpu s" "eflags s' = eflags s"
    "kpgdir s' = kpgdir s" "cr3 s' = cr3 s" "cpu_id s' = cpu_id s" "ports s' = ports s" "kernel.more s' = kernel.more s"
  using assms by (cases s; cases s'; simp add: c_cpu_def)+

subsection \<open>The kernel stack of a new process\<close>

text \<open>What creating a process never touches.\<close>

definition same_cpu :: "'a kernel_scheme \<Rightarrow> 'a kernel_scheme \<Rightarrow> bool" where
  "same_cpu s s' \<longleftrightarrow> cpus s' = cpus s \<and> eflags s' = eflags s \<and> cpu_id s' = cpu_id s \<and> ports s' = ports s
    \<and> kpgdir s' = kpgdir s \<and> cr3 s' = cr3 s \<and> kernel.more s' = kernel.more s"

lemma same_cpu_trans: "same_cpu s s1 \<Longrightarrow> same_cpu s1 s2 \<Longrightarrow> same_cpu s s2"
  by (simp add: same_cpu_def)

lemma same_cpu_intros:
  "phys.more s' = phys.more s \<Longrightarrow> same_cpu s s'" "same_cpu s (set_proc i f s)" "same_cpu s (s\<lparr>ram := m\<rparr>)"
  "same_cpu s (s\<lparr>proc_first := pf\<rparr>)" "same_cpu s (init_lock l nm s)"
  using more_eqD [of s' s] by (simp_all add: same_cpu_def set_proc_def init_lock_def set_lock_def)

definition stack_ready :: "mem \<Rightarrow> u32 \<Rightarrow> image \<Rightarrow> bool" where
  "stack_ready m k im \<longleftrightarrow> load32 m (k + 4 * 1004) = trap_ret im \<and> load32 m (k + 4 * 1003) = fork_ret im
    \<and> (\<forall>j \<in> {999, 1000, 1001, 1002}. load32 m (k + 4 * j) = 0)"

lemma config_proc_kstack_state:
  assumes "free_pages s (x # xs)" "i < length (ptable s)"
  shows "\<exists>s'. config_proc_kstack im i s = (Some i, s') \<and> free_pages s' xs
    \<and> ptable s' = (ptable s)[i := (ptable s ! i)\<lparr>state := EMBRYO, pid := next_pid s, kstack := x,
          tf := x + 4 * 1005, ctx := x + 4 * 999\<rparr>]
    \<and> stack_ready (ram s') x im \<and> (\<forall>a. \<not> in_block x 4096 a \<longrightarrow> ram s' a = ram s a)
    \<and> k_maps s' = k_maps s \<and> locks s' = locks s \<and> same_cpu s s'"
proof -
  have x: "aligned 12 x" "x \<noteq> 0" using free_pages_frames [OF assms(1)] by auto
  let ?s1 = "set_proc i (\<lambda>p. p\<lparr>state := EMBRYO, pid := next_pid s\<rparr>) s\<lparr>next_pid := wrap32 (next_pid s + 1)\<rparr>"
  have fp1: "free_pages ?s1 (x # xs)" using assms(1) by (simp add: pool_cong [of ?s1 s])
  let ?m1 = "store32 (ram s) (x + 4 * 1004) (trap_ret im)"
  let ?m2 = "snd (memset ?m1 (x + 4 * 999) 0 20)"
  let ?m3 = "store32 ?m2 (x + 4 * 1003) (fork_ret im)"
  let ?f = "\<lambda>p. p\<lparr>state := EMBRYO, pid := next_pid s, kstack := x, tf := x + 4 * 1005, ctx := x + 4 * 999\<rparr>"
  let ?s' = "(set_proc i ?f s)\<lparr>next_pid := wrap32 (next_pid s + 1), freelist := load32 (ram s) x, ram := ?m3\<rparr>"
  have e: "config_proc_kstack im i s = (Some i, ?s')"
    using assms(2) x kalloc_cons [OF fp1]
    by (simp add: config_proc_kstack_def Let_def set_proc_def KSTACK_SIZE_def frame_offsets add.commute)
  have nz: "x + of_nat (4 * 999) \<noteq> 0" using slot_nonzero [OF x, of 999] by simp
  have ms: "load32 ?m2 (x + 4 * of_nat j) = (if 999 \<le> j \<and> j < 1004 then 0 else load32 ?m1 (x + 4 * of_nat j))"
    if "j < 1024" for j
    using load32_memset_cell [OF nz, of 5 j ?m1] that by simp
  have st: "load32 (store32 m (x + 4 * i) v) (x + 4 * j) = (if i = j then v else load32 m (x + 4 * j))"
    if "i < 1024" "j < 1024" for m v i j
    using load32_store32_cell [OF x(1) x(1) that] by simp
  have "load32 ?m3 (x + 4 * 1004) = trap_ret im"
    using st [of 1003 1004] st [of 1004 1004] ms [of 1004] by simp
  moreover have "load32 ?m3 (x + 4 * 1003) = fork_ret im" using st [of 1003 1003] by simp
  moreover have "load32 ?m3 (x + 4 * j) = 0" if "j \<in> {999, 1000, 1001, 1002}" for j
    using that st [of 1003 j] ms [of 999] ms [of 1000] ms [of 1001] ms [of 1002] by auto
  ultimately have ready: "stack_ready (ram ?s') x im" by (simp add: stack_ready_def)
  have fr: "?m3 a = ram s a" if "\<not> in_block x 4096 a" for a
  proof -
    have c: "\<not> in_block (x + 4 * j) 4 a" if "j < 1024" for j using cell_in_page [OF that] \<open>\<not> in_block x 4096 a\<close> by blast
    have "\<not> in_block (x + of_nat 3996) 20 a"
      using in_block_inside [of x 3996 20 a 4096] that by auto
    then show ?thesis using c [of 1003] c [of 1004] nz by (simp add: store32_frame memset_at)
  qed
  have "free_pages (s\<lparr>freelist := load32 (ram s) x\<rparr>) xs"
    using frames.alloc_tail [OF assms(1)] by (simp add: kalloc_cons [OF assms(1)])
  then have "free_pages ?s' xs"
  proof (rule free_pages_cong)
    fix y a assume y: "y \<in> set xs" "in_block y 4096 a"
    then have "aligned 12 y" "y \<noteq> x"
      using free_pages_frames [OF assms(1)] frames.pool_distinct [OF assms(1)] by auto
    then show "ram ?s' a = ram (s\<lparr>freelist := load32 (ram s) x\<rparr>) a"
      using fr pages_disjoint [OF x(1), of y a] y(2) by auto
  qed simp
  then show ?thesis using e ready fr
    by (intro exI [of _ ?s']) (simp add: set_proc_def same_cpu_def)
qed

subsection \<open>The trap frame of the first process\<close>

definition init_frame :: "mem \<Rightarrow> u32 \<Rightarrow> mem" where
  "init_frame m f =
     (let m1 = snd (memset m f 0 sizeof_trap_frame);
          m2 = store16 m1 (f + tf_cs) (USR_CS OR USR_DPL);
          m3 = store16 m2 (f + tf_ds) (USR_DS OR USR_DPL);
          m4 = store16 m3 (f + tf_es) (load16 m3 (f + tf_ds));
          m5 = store16 m4 (f + tf_ss) (load16 m4 (f + tf_ds));
          m6 = store32 m5 (f + tf_eflags) FL_IF;
          m7 = store32 m6 (f + tf_user_esp) PGSIZE
      in store32 m7 (f + tf_eip) 0)"

lemma init_frame_cells:
  fixes m :: mem
  assumes "aligned 12 x" "x \<noteq> 0"
  defines "m' \<equiv> init_frame m (x + 4 * 1005)"
  shows "j < 1005 \<Longrightarrow> load32 m' (x + 4 * of_nat j) = load32 m (x + 4 * of_nat j)"
    and "j \<in> {1005..1014} \<union> {1017, 1018} \<Longrightarrow> load32 m' (x + 4 * of_nat j) = 0"
    and "load32 m' (x + 4 * 1015) = 0x23" "load32 m' (x + 4 * 1016) = 0x23" "load32 m' (x + 4 * 1019) = 0"
    and "load32 m' (x + 4 * 1020) = 0x1B" "load32 m' (x + 4 * 1021) = FL_IF" "load32 m' (x + 4 * 1022) = 4096"
    and "load32 m' (x + 4 * 1023) = 0x23"
    and "\<not> in_block x 4096 a \<Longrightarrow> m' a = m a"
proof -
  have nz: "x + of_nat (4 * 1005) \<noteq> 0" using slot_nonzero [OF assms(1,2), of 1005] by simp
  define f where "f = x + 4 * 1005"
  define c where "c = (\<lambda>i :: u32. x + 4 * i)"
  have adr: "f + tf_cs = c 1020" "f + tf_ds = c 1016" "f + tf_es = c 1015" "f + tf_ss = c 1023"
    "f + tf_eflags = c 1021" "f + tf_user_esp = c 1022" "f + tf_eip = c 1019"
    by (simp_all add: f_def c_def frame_offsets)
  define m1 where "m1 = snd (memset m f 0 76)"
  have ms: "load32 m1 (c (of_nat j)) = (if 1005 \<le> j then 0 else load32 m (c (of_nat j)))" if "j < 1024" for j
    using load32_memset_cell [OF nz, of 19 j m] that by (simp add: m1_def f_def c_def)
  have st: "load32 (store32 m (c i) v) (c j) = (if i = j then v else load32 m (c j))"
    if "i < 1024" "j < 1024" for m v i j
    using load32_store32_cell [OF assms(1,1) that] by (simp add: c_def)
  have s16: "store16 m (c i) v = store32 m (c i) (ucast v)" if "load32 m (c i) = 0" for m i v
    by (simp add: store16_word that)
  have z: "load32 m1 (c 1015) = 0" "load32 m1 (c 1016) = 0" "load32 m1 (c 1020) = 0" "load32 m1 (c 1023) = 0"
    using ms [of 1015] ms [of 1016] ms [of 1020] ms [of 1023] by simp_all
  have sel: "USR_CS OR USR_DPL = 0x1B" "USR_DS OR USR_DPL = 0x23" by (simp_all add: gdt_consts)
  have m': "m' = store32 (store32 (store32 (store32 (store32 (store32 (store32 m1 (c 1020) 0x1B) (c 1016) 0x23)
      (c 1015) 0x23) (c 1023) 0x23) (c 1021) FL_IF) (c 1022) 4096) (c 1019) 0"
    unfolding m'_def f_def [symmetric] init_frame_def sizeof_trap_frame_def m1_def [symmetric] Let_def adr sel load16_word
    by (simp add: s16 st z PGSIZE_def)
  show "load32 m' (x + 4 * 1015) = 0x23" "load32 m' (x + 4 * 1016) = 0x23" "load32 m' (x + 4 * 1019) = 0"
    "load32 m' (x + 4 * 1020) = 0x1B" "load32 m' (x + 4 * 1021) = FL_IF" "load32 m' (x + 4 * 1022) = 4096"
    "load32 m' (x + 4 * 1023) = 0x23"
    unfolding c_def [symmetric, THEN fun_cong] m' by (simp_all add: st)
  have other: "load32 m' (c (of_nat j)) = load32 m1 (c (of_nat j))" if "j < 1015 \<or> j \<in> {1017, 1018}" for j
  proof -
    have "(of_nat j :: u32) < 1024" using that by (auto simp: word_less_nat_alt unat_of_nat_u32)
    moreover have "(of_nat j :: u32) \<noteq> of_nat k" if "k \<in> {1015, 1016, 1019, 1020, 1021, 1022, 1023}" for k
      using that \<open>j < 1015 \<or> j \<in> {1017, 1018}\<close> by (subst of_nat_inj_u32) auto
    from this [of 1015] this [of 1016] this [of 1019] this [of 1020] this [of 1021] this [of 1022] this [of 1023]
    have "(of_nat j :: u32) \<notin> {1015, 1016, 1019, 1020, 1021, 1022, 1023}" by simp
    ultimately show ?thesis unfolding m' by (simp add: st)
  qed
  show "j < 1005 \<Longrightarrow> load32 m' (x + 4 * of_nat j) = load32 m (x + 4 * of_nat j)"
    using other [of j] ms [of j] by (simp add: c_def)
  show "j \<in> {1005..1014} \<union> {1017, 1018} \<Longrightarrow> load32 m' (x + 4 * of_nat j) = 0"
    using other [of j] ms [of j] by (auto simp: c_def)
  show "m' a = m a" if a: "\<not> in_block x 4096 a"
  proof -
    have cs: "\<not> in_block (c j) 4 a" if "j < 1024" for j using cell_in_page [OF that] a by (auto simp: c_def)
    have "\<not> in_block (x + of_nat (4 * 1005)) 76 a"
      using in_block_inside [of x "4 * 1005" 76 a 4096] a by auto
    then have "m1 a = m a" using nz by (simp add: m1_def f_def memset_at)
    then show ?thesis unfolding m' by (simp add: store32_frame cs)
  qed
qed


subsection \<open>The first process\<close>

lemma alloc_loop_first:
  assumes "i < MAX_PROC" "state (ptable s ! i) = UNUSED" "k \<le> i" "\<forall>j. k \<le> j \<and> j < i \<longrightarrow> state (ptable s ! j) \<noteq> UNUSED"
  shows "alloc_loop im k s = config_proc_kstack im i s"
  using assms
proof (induction "i - k" arbitrary: k)
  case 0
  then show ?case by (simp add: alloc_loop.simps)
next
  case (Suc n)
  then have "alloc_loop im (k + 1) s = config_proc_kstack im i s" by (intro Suc.hyps(1)) auto
  then show ?case using Suc by (subst alloc_loop.simps) simp
qed

lemma alloc_loop_full:
  assumes "\<forall>j. k \<le> j \<and> j < MAX_PROC \<longrightarrow> state (ptable s ! j) \<noteq> UNUSED"
  shows "alloc_loop im k s = (None, s)"
  using assms
proof (induction "MAX_PROC - k" arbitrary: k)
  case 0
  then show ?case by (simp add: alloc_loop.simps)
next
  case (Suc n)
  then have "alloc_loop im (k + 1) s = (None, s)" by (intro Suc.hyps(1)) auto
  then show ?case using Suc by (subst alloc_loop.simps) simp
qed

lemma init_lock_simps [simp]:
  "ram (init_lock l n s) = ram s" "freelist (init_lock l n s) = freelist s" "k_maps (init_lock l n s) = k_maps s"
  "ptable (init_lock l n s) = ptable s" "next_pid (init_lock l n s) = next_pid s"
  by (simp_all add: init_lock_def set_lock_def)

text \<open>The code of the user program lies outside the pages of the pool.\<close>

definition code_outside :: "image \<Rightarrow> u32 set \<Rightarrow> bool" where
  "code_outside im ps \<longleftrightarrow> user_init_code im \<noteq> 0 \<and> user_init_code_size im \<le> PGSIZE
    \<and> unat (user_init_code im) + unat (user_init_code_size im) \<le> 4294967296
    \<and> (\<forall>a p. in_block (user_init_code im) (unat (user_init_code_size im)) a \<and> p \<in> ps \<longrightarrow> \<not> in_block p 4096 a)"

lemma PGROUNDDOWN_zero: "PGROUNDDOWN va = 0 \<Longrightarrow> va < KERNBASE"
proof -
  assume "PGROUNDDOWN va = 0"
  then have "region 0 PGSIZE va" by (simp add: first_page)
  then have "PGROUNDDOWN va \<le> PGSIZE - 1" by (simp add: region_def)
  have "unat va < 4096" using \<open>PGROUNDDOWN va = 0\<close> unat_PGROUNDDOWN [of va] by (simp add: minus_mod_eq_div_mult div_eq_0_iff)
  then show "va < KERNBASE" by (simp add: word_less_nat_alt KERNBASE_def)
qed

text \<open>
  The address space of a process with one page at address 0 in the frame \<open>y\<close>; its tables lie in the pages \<open>P\<close>, apart
  from that frame.
\<close>

definition user_space :: "u32 \<Rightarrow> u32 set \<Rightarrow> 'a phys_scheme \<Rightarrow> u32 \<Rightarrow> u32 \<Rightarrow> bool" where
  "user_space kdata P s pg y \<longleftrightarrow> (\<exists>ys. vm_inv s pg ys \<and> space s pg ys \<subseteq> P - {y}) \<and> y \<in> P
     \<and> (\<forall>va. lookup (ram s) pg va = (if PGROUNDDOWN va = 0 then V2P y OR PTE_W OR PTE_U OR PTE_P else kernel_entry kdata va))"

lemma user_space_cong:
  assumes "user_space kdata P s pg y" "freelist s' = freelist s"
    and "\<forall>p \<in> P - {y}. \<forall>a. in_block p 4096 a \<longrightarrow> ram s' a = ram s a"
  shows "user_space kdata P s' pg y"
proof -
  obtain ys where ys: "vm_inv s pg ys" "space s pg ys \<subseteq> P - {y}" using assms(1) by (auto simp: user_space_def)
  then have fr: "\<forall>p \<in> space s pg ys. \<forall>a. in_block p 4096 a \<longrightarrow> ram s' a = ram s a" using assms(3) by blast
  note v = vm_inv_frame [OF ys(1) assms(2) fr]
  have "vm_inv s' pg ys \<and> space s' pg ys \<subseteq> P - {y}" using v(1,2) ys(2) by simp
  then show ?thesis using assms(1) v(3) unfolding user_space_def by auto
qed

text \<open>The program lies outside the pages, and the stack built for the first switch is not touched by what comes later.\<close>

lemma code_byte_outside:
  assumes "code_outside im P" "j < unat (user_init_code_size im)" "p \<in> P"
  shows "\<not> in_block p 4096 (user_init_code im + of_nat j)"
proof -
  have "in_block (user_init_code im) (unat (user_init_code_size im)) (user_init_code im + of_nat j)"
    using assms(2) unat_lt_u32 [of "user_init_code_size im"] by (intro in_blockI) simp_all
  then show ?thesis using assms(1,3) by (auto simp: code_outside_def)
qed

lemma stack_ready_cong:
  assumes "stack_ready m k im" "\<And>a. in_block k 4096 a \<Longrightarrow> m' a = m a"
  shows "stack_ready m' k im"
proof -
  have c: "load32 m' (k + 4 * i) = load32 m (k + 4 * i)" if "i < 1024" for i
    using load32_cell_cong [of k m' m, OF assms(2) that] .
  show ?thesis using assms(1) c [of 999] c [of 1000] c [of 1001] c [of 1002] c [of 1003] c [of 1004] by (simp add: stack_ready_def)
qed

lemma stack_ready_frame:
  assumes "aligned 12 k" "k \<noteq> 0" "stack_ready m k im"
  shows "stack_ready (init_frame m (k + 4 * 1005)) k im"
  using assms(3) init_frame_cells(1) [OF assms(1,2), of 999 m] init_frame_cells(1) [OF assms(1,2), of 1000 m]
    init_frame_cells(1) [OF assms(1,2), of 1001 m] init_frame_cells(1) [OF assms(1,2), of 1002 m]
    init_frame_cells(1) [OF assms(1,2), of 1003 m] init_frame_cells(1) [OF assms(1,2), of 1004 m]
  by (simp add: stack_ready_def)

text \<open>The kernel's tables and then the page of the program: \<open>s2\<close> is a state in between that has the same memory and pool.\<close>

lemma user_space_built:
  assumes "free_pages s xs" "67 \<le> length xs" "kdata_ok kdata" "k_maps s = kernel_maps kdata" "code_outside im (set xs)"
  shows "\<exists>s1. setup_kvm s = Inr (hd xs, s1) \<and> phys.more s1 = phys.more s
    \<and> (\<forall>a. (\<forall>p \<in> set xs. \<not> in_block p 4096 a) \<longrightarrow> ram s1 a = ram s a)
    \<and> (\<forall>s2. ram s2 = ram s1 \<and> freelist s2 = freelist s1 \<longrightarrow>
        (\<exists>s3 y. init_uvm (hd xs) (user_init_code im) (user_init_code_size im) s2 = Inr s3 \<and> phys.more s3 = phys.more s2
          \<and> user_space kdata (set xs) s3 (hd xs) y
          \<and> (\<forall>a. (\<forall>p \<in> set xs. \<not> in_block p 4096 a) \<longrightarrow> ram s3 a = ram s2 a)
          \<and> (\<forall>j<4096. ram s3 (y + of_nat j) = (if j < unat (user_init_code_size im) then ram s (user_init_code im + of_nat j) else 0))))"
proof -
  have "65 + 2 \<le> length xs" using assms(2) by simp
  then obtain s1 ys where s1: "setup_kvm s = Inr (hd xs, s1)" "vm_inv s1 (hd xs) ys" "phys.more s1 = phys.more s"
      "\<forall>va. lookup (ram s1) (hd xs) va = kernel_entry kdata va" "2 \<le> length ys" "space s1 (hd xs) ys = set xs"
      "\<forall>a. (\<forall>p \<in> set xs. \<not> in_block p 4096 a) \<longrightarrow> ram s1 a = ram s a"
    using setup_kvm_maps [of s xs 2 kdata] assms by auto
  obtain y zs where ys: "ys = y # zs" "zs \<noteq> []" using s1(5) by (cases ys; cases "tl ys") auto
  have co: "user_init_code_size im \<le> PGSIZE" "user_init_code im \<noteq> 0"
      "unat (user_init_code im) + unat (user_init_code_size im) \<le> 4294967296"
    using assms(5) by (simp_all add: code_outside_def)
  have codes: "ram s1 (user_init_code im + of_nat j) = ram s (user_init_code im + of_nat j)" if "j < unat (user_init_code_size im)" for j
    using code_byte_outside [OF assms(5) that] s1(7) by blast
  have "\<exists>s3 y. init_uvm (hd xs) (user_init_code im) (user_init_code_size im) s2 = Inr s3 \<and> phys.more s3 = phys.more s2
      \<and> user_space kdata (set xs) s3 (hd xs) y \<and> (\<forall>a. (\<forall>p \<in> set xs. \<not> in_block p 4096 a) \<longrightarrow> ram s3 a = ram s2 a)
      \<and> (\<forall>j<4096. ram s3 (y + of_nat j) = (if j < unat (user_init_code_size im) then ram s (user_init_code im + of_nat j) else 0))"
    if s2: "ram s2 = ram s1" "freelist s2 = freelist s1" for s2
  proof -
    have v: "vm_inv s2 (hd xs) (y # zs)" "space s2 (hd xs) (y # zs) = set xs" using s1(2,6) ys s2 vm_cong [of s2 s1] by simp_all
    have low: "\<forall>va. PGROUNDDOWN va = 0 \<longrightarrow> lookup (ram s2) (hd xs) va = 0" using s1(4) s2 PGROUNDDOWN_zero by (simp add: kernel_entry_def)
    have far: "\<forall>a p. in_block (user_init_code im) (unat (user_init_code_size im)) a \<and> p \<in> space s2 (hd xs) (y # zs) \<longrightarrow> \<not> in_block p 4096 a"
      using assms(5) v(2) by (auto simp: code_outside_def)
    obtain s3 us where s3: "init_uvm (hd xs) (user_init_code im) (user_init_code_size im) s2 = Inr s3" "vm_inv s3 (hd xs) us"
        "\<forall>va. lookup (ram s3) (hd xs) va = (if PGROUNDDOWN va = 0 then V2P y OR PTE_W OR PTE_U OR PTE_P else lookup (ram s2) (hd xs) va)"
        "\<forall>j<4096. ram s3 (y + of_nat j) = (if j < unat (user_init_code_size im) then ram s2 (user_init_code im + of_nat j) else 0)"
        "phys.more s3 = phys.more s2" "space s3 (hd xs) us = space s2 (hd xs) (y # zs) - {y}"
        "\<forall>a. (\<forall>p \<in> space s2 (hd xs) (y # zs). \<not> in_block p 4096 a) \<longrightarrow> ram s3 a = ram s2 a"
      using init_uvm_state [OF v(1) ys(2) co low far] by blast
    have "y \<in> set xs" using v(2) by (auto simp: space_def)
    then have "user_space kdata (set xs) s3 (hd xs) y"
      unfolding user_space_def using s3(2,3,6) v(2) s1(4) s2(1) by auto
    then show ?thesis using s3 v(2) codes s2(1) by (intro exI [of _ s3] exI [of _ y]) simp
  qed
  then show ?thesis using s1(1,3,7) by blast
qed

lemma init_user_state:
  assumes pool: "free_pages s (k # xs)" "67 \<le> length xs"
    and kd: "kdata_ok kdata" "k_maps s = kernel_maps kdata"
    and tab: "length (ptable s) = MAX_PROC" "i < MAX_PROC" "state (ptable s ! i) = UNUSED"
      "\<forall>j < i. state (ptable s ! j) \<noteq> UNUSED"
    and code: "code_outside im (insert k (set xs))"
  shows "\<exists>s' pg y ys. init_user im s = Inr s' \<and> proc_first s' = Some i
    \<and> ptable s' = (ptable s)[i := (ptable s ! i)\<lparr>state := RUNNABLE, pid := next_pid s, psize := PGSIZE, pgdir := pg,
          tf := k + 4 * 1005, ctx := k + 4 * 999, pname := strncpy_array ''initcode'' 16, kstack := k\<rparr>]
    \<and> vm_inv s' pg ys \<and> pg \<noteq> 0
    \<and> (\<forall>va. lookup (ram s') pg va = (if PGROUNDDOWN va = 0 then V2P y OR PTE_W OR PTE_U OR PTE_P else kernel_entry kdata va))
    \<and> (\<forall>j<4096. ram s' (y + of_nat j) = (if j < unat (user_init_code_size im) then ram s (user_init_code im + of_nat j) else 0))
    \<and> stack_ready (ram s') k im
    \<and> (\<exists>m. \<forall>a. in_block k 4096 a \<longrightarrow> ram s' a = init_frame m (k + 4 * 1005) a)
    \<and> locks s' = locks (init_lock Ptable_lock ''ptable'' s) \<and> same_cpu s s' \<and> user_space kdata (set xs) s' pg y"
proof -
  have k: "aligned 12 k" "k \<noteq> 0" "k \<notin> set xs"
    using free_pages_frames [OF pool(1), of k] frames.pool_distinct [OF pool(1)] by auto
  have al: "aligned 12 p" if "p \<in> set xs" for p using free_pages_frames [OF pool(1), of p] that by simp
  have apart: "\<not> in_block k 4096 a" if "p \<in> set xs" "in_block p 4096 a" for p a
    using that al k pages_disjoint [OF al k(1) _ that(2)] by blast
  let ?s1 = "init_lock Ptable_lock ''ptable'' s"
  have "free_pages ?s1 (k # xs)" using pool(1) by (simp add: pool_cong [of ?s1 s])
  then obtain s2 where s2: "config_proc_kstack im i ?s1 = (Some i, s2)" "free_pages s2 xs"
      "ptable s2 = (ptable s)[i := (ptable s ! i)\<lparr>state := EMBRYO, pid := next_pid s, kstack := k,
          tf := k + 4 * 1005, ctx := k + 4 * 999\<rparr>]"
      "stack_ready (ram s2) k im" "\<forall>a. \<not> in_block k 4096 a \<longrightarrow> ram s2 a = ram s a"
      "k_maps s2 = k_maps s" "locks s2 = locks ?s1" "same_cpu ?s1 s2"
    using config_proc_kstack_state [of ?s1 k xs i im] tab by (auto simp: MAX_PROC_def)
  have alloc: "alloc_process im ?s1 = (Some i, s2)"
    using alloc_loop_first [of i ?s1 0 im] tab s2(1) by (simp add: alloc_process_def)
  let ?s3 = "s2\<lparr>proc_first := Some i\<rparr>" and ?pg = "hd xs" and ?f = "k + 4 * 1005"
  have s3: "free_pages ?s3 xs" "k_maps ?s3 = kernel_maps kdata" "code_outside im (set xs)"
    using s2(2,6) kd(2) code by (simp_all add: pool_cong [of ?s3 s2] code_outside_def)
  obtain s4 where s4: "setup_kvm ?s3 = Inr (?pg, s4)" "phys.more s4 = phys.more ?s3"
      "\<forall>a. (\<forall>p \<in> set xs. \<not> in_block p 4096 a) \<longrightarrow> ram s4 a = ram ?s3 a"
      "\<And>s5 :: 'a kernel_scheme. ram s5 = ram s4 \<Longrightarrow> freelist s5 = freelist s4 \<Longrightarrow>
        \<exists>s6 y. init_uvm ?pg (user_init_code im) (user_init_code_size im) s5 = Inr s6 \<and> phys.more s6 = phys.more s5
          \<and> user_space kdata (set xs) s6 ?pg y \<and> (\<forall>a. (\<forall>p \<in> set xs. \<not> in_block p 4096 a) \<longrightarrow> ram s6 a = ram s5 a)
          \<and> (\<forall>j<4096. ram s6 (y + of_nat j) = (if j < unat (user_init_code_size im) then ram ?s3 (user_init_code im + of_nat j) else 0))"
    using user_space_built [OF s3(1) pool(2) kd(1) s3(2,3), where 'b = "'a kernel_ext machine_ext vm_ext"] by blast
  let ?s5 = "set_proc i (\<lambda>p. p\<lparr>pgdir := ?pg\<rparr>) s4"
  obtain s6 y where s6: "init_uvm ?pg (user_init_code im) (user_init_code_size im) ?s5 = Inr s6" "phys.more s6 = phys.more ?s5"
      "user_space kdata (set xs) s6 ?pg y" "\<forall>a. (\<forall>p \<in> set xs. \<not> in_block p 4096 a) \<longrightarrow> ram s6 a = ram s4 a"
      "\<forall>j<4096. ram s6 (y + of_nat j) = (if j < unat (user_init_code_size im) then ram ?s3 (user_init_code im + of_nat j) else 0)"
    using s4(4) [of ?s5] by auto
  note m4 = more_eqD [OF s4(2)] and m6 = more_eqD [OF s6(2)]
  have y: "y \<in> set xs" and pg: "?pg \<noteq> 0" using s6(3) by (auto simp: user_space_def vm_inv_def)
  have len: "i < length (ptable s)" using tab by simp
  have pt6: "ptable s6 = (ptable s)[i := (ptable s ! i)\<lparr>state := EMBRYO, pid := next_pid s, kstack := k,
          tf := ?f, ctx := k + 4 * 999, pgdir := ?pg\<rparr>]"
    using m6(1) m4(1) s2(3) len by (simp add: set_proc_def)
  let ?s7 = "set_proc i (\<lambda>p. p\<lparr>psize := PGSIZE\<rparr>) s6"
  let ?s' = "set_proc i (\<lambda>p. p\<lparr>state := RUNNABLE\<rparr>) (set_proc i (\<lambda>p. p\<lparr>pname := strncpy_array ''initcode'' 16\<rparr>)
      (?s7\<lparr>ram := init_frame (ram s6) ?f\<rparr>))"
  have e: "init_user im s = Inr ?s'"
    using alloc s4(1) s6(1) pg pt6 len by (simp add: init_user_def init_frame_def Let_def)
  have fr: "ram ?s' a = ram s6 a" if "p \<in> set xs" "in_block p 4096 a" for p a
    using init_frame_cells(10) [OF k(1,2) apart [OF that], of "ram s6"] by simp
  have us: "user_space kdata (set xs) ?s' ?pg y" by (rule user_space_cong [OF s6(3)]) (use fr in auto)
  have code': "ram ?s' (y + of_nat j) = (if j < unat (user_init_code_size im) then ram s (user_init_code im + of_nat j) else 0)"
    if "j < 4096" for j
  proof -
    have "in_block y 4096 (y + of_nat j)" using that by (intro in_blockI) simp_all
    then have "ram ?s' (y + of_nat j) = ram s6 (y + of_nat j)" by (rule fr [OF y])
    moreover have "ram ?s3 (user_init_code im + of_nat j) = ram s (user_init_code im + of_nat j)" if "j < unat (user_init_code_size im)"
      using code_byte_outside [OF code that] s2(5) by auto
    ultimately show ?thesis using s6(5) that by simp
  qed
  have "ram s6 a = ram s2 a" if "in_block k 4096 a" for a
  proof -
    have "\<forall>p \<in> set xs. \<not> in_block p 4096 a" using apart that by blast
    then show ?thesis using s6(4) s4(3) by simp
  qed
  then have sr: "stack_ready (ram ?s') k im"
    using stack_ready_frame [OF k(1,2) stack_ready_cong [OF s2(4)], of "ram s6"] by simp
  have pt: "ptable ?s' = (ptable s)[i := (ptable s ! i)\<lparr>state := RUNNABLE, pid := next_pid s, psize := PGSIZE, pgdir := ?pg,
          tf := ?f, ctx := k + 4 * 999, pname := strncpy_array ''initcode'' 16, kstack := k\<rparr>]"
    using pt6 len by (cases "ptable s ! i") (simp add: set_proc_def)
  have lo: "locks ?s' = locks ?s1" using m6(4) m4(4) s2(7) by simp
  have sc: "same_cpu s ?s'"
    by (intro same_cpu_intros(2) [THEN same_cpu_trans [rotated]] same_cpu_intros(3) [THEN same_cpu_trans [rotated]]
        same_cpu_trans [OF _ same_cpu_intros(1) [OF s6(2)]] same_cpu_trans [OF _ same_cpu_intros(1) [OF s4(2)]]
        same_cpu_trans [OF _ same_cpu_intros(4)] same_cpu_trans [OF same_cpu_intros(5) s2(8)])
  have pf: "proc_first ?s' = Some i" using m6(5) m4(5) by simp
  obtain us where "vm_inv ?s' ?pg us" using us by (auto simp: user_space_def)
  moreover have "lookup (ram ?s') ?pg va = (if PGROUNDDOWN va = 0 then V2P y OR PTE_W OR PTE_U OR PTE_P else kernel_entry kdata va)" for va
    using us unfolding user_space_def by blast
  ultimately show ?thesis
    using e pf pt pg code' sr lo sc us
    by (intro exI [of _ ?s'] exI [of _ ?pg] exI [of _ y] exI [of _ us] conjI allI impI) auto
qed

subsection \<open>From the scheduler to user mode\<close>

text \<open>
  The first switch to a new process: \<^verbatim>\<open>switch_to\<close> runs into \<^verbatim>\<open>fork_ret\<close>, whose return
  pops the next word of the stack, which leads to \<^verbatim>\<open>trap_ret\<close>.
\<close>

definition first_run :: "u32 \<Rightarrow> core \<Rightarrow> core \<times> core \<times> core" where
  "first_run next c =
     (let c1 = snd (switch_to next c);
          c2 = pop (\<lambda>v r. r\<lparr>r_eip := v\<rparr>) c1
      in (c1, c2, trap_leave c2))"

definition user_entry :: regs where
  "user_entry = \<lparr>r_eax = 0, r_ebx = 0, r_ecx = 0, r_edx = 0, r_esi = 0, r_edi = 0, r_ebp = 0, r_esp = 4096,
     r_eip = 0, r_flags = FL_IF, r_cs = 0x1B, r_ds = 0x23, r_es = 0x23, r_fs = 0, r_gs = 0, r_ss = 0x23\<rparr>"

text \<open>The stack the scheduler runs on has room for the four pushed registers outside the page.\<close>

definition stack_apart :: "u32 \<Rightarrow> regs \<Rightarrow> bool" where
  "stack_apart k r \<longleftrightarrow> aligned 2 (r_esp r) \<and> (\<forall>w \<in> {4, 8, 12, 16}. \<not> in_block k 4096 (r_esp r - w))"

lemma switch_to_cells:
  assumes "aligned 12 k" "stack_apart k r" "j < 1024"
  shows "load32 (fst (snd (switch_to next (m, r)))) (k + 4 * j) = load32 m (k + 4 * j)"
proof -
  have al: "aligned 2 (k + 4 * j)" using aligned_cell_word [OF assms(1,3)] .
  have "in_block k 4096 (k + 4 * j)" using cell_in_page [OF assms(3)] in_blockI [of 0 4 "k + 4 * j"] by simp
  then have ne: "r_esp r - 4 \<noteq> k + 4 * j" "r_esp r - 8 \<noteq> k + 4 * j" "r_esp r - 12 \<noteq> k + 4 * j" "r_esp r - 16 \<noteq> k + 4 * j"
    using assms(2) by (auto simp: stack_apart_def)
  have "aligned 2 (r_esp r - 4)" "aligned 2 (r_esp r - 8)" "aligned 2 (r_esp r - 12)" "aligned 2 (r_esp r - 16)"
    using assms(2) by (simp_all add: stack_apart_def aligned_minus_word)
  then show ?thesis using al ne by (simp add: switch_to_def stack_simps)
qed

lemma switch_to_regs:
  assumes "aligned 12 k" "stack_apart k r"
  shows "snd (snd (switch_to (k + 4 * 999) (m, r))) = r\<lparr>r_edi := load32 m (k + 4 * 999), r_esi := load32 m (k + 4 * 1000),
    r_ebx := load32 m (k + 4 * 1001), r_ebp := load32 m (k + 4 * 1002), r_eip := load32 m (k + 4 * 1003),
    r_esp := k + 4 * 1004\<rparr>"
proof -
  let ?m = "fst (snd (switch_to (k + 4 * 999) (m, r)))"
  have "snd (snd (switch_to (k + 4 * 999) (m, r))) = r\<lparr>r_edi := load32 ?m (k + 4 * 999), r_esi := load32 ?m (k + 4 * 1000),
    r_ebx := load32 ?m (k + 4 * 1001), r_ebp := load32 ?m (k + 4 * 1002), r_eip := load32 ?m (k + 4 * 1003),
    r_esp := k + 4 * 1004\<rparr>"
    by (cases r) (simp add: switch_to_def push_pair pop_pair Let_def diff_diff_eq add.assoc)
  then show ?thesis using switch_to_cells [OF assms, of 999] switch_to_cells [OF assms, of 1000]
      switch_to_cells [OF assms, of 1001] switch_to_cells [OF assms, of 1002] switch_to_cells [OF assms, of 1003] by simp
qed

lemma first_run_user:
  assumes k: "aligned 12 k" "k \<noteq> 0" and sr: "stack_ready m k im"
    and fr: "\<forall>a. in_block k 4096 a \<longrightarrow> m a = init_frame m0 (k + 4 * 1005) a" and st: "stack_apart k r"
  shows "(\<lambda>(c1, c2, c3). r_eip (snd c1) = fork_ret im \<and> r_eip (snd c2) = trap_ret im \<and> snd c3 = user_entry)
    (first_run (k + 4 * 999) (m, r))"
proof -
  obtain sv m1 r1 where sw: "switch_to (k + 4 * 999) (m, r) = (sv, m1, r1)" by (metis surj_pair)
  have cell: "load32 m1 (k + 4 * j) = load32 m (k + 4 * j)" if "j < 1024" for j
    using switch_to_cells [OF k(1) st that, of "k + 4 * 999" m] sw by simp
  have r1: "r_eip r1 = fork_ret im" "r_esp r1 = k + 4 * 1004"
    using switch_to_regs [OF k(1) st, of m] sw sr by (simp_all add: stack_ready_def)
  have c2: "pop (\<lambda>v r. r\<lparr>r_eip := v\<rparr>) (m1, r1) = (m1, r1\<lparr>r_esp := k + 4 * 1005, r_eip := trap_ret im\<rparr>)"
    using r1 cell [of 1004] sr by (simp add: pop_pair stack_ready_def add.assoc)
  let ?r2 = "r1\<lparr>r_esp := k + 4 * 1005, r_eip := trap_ret im\<rparr>"
  have f: "load32 m1 (k + 4 * j) = load32 (init_frame m0 (k + 4 * 1005)) (k + 4 * j)" if "j < 1024" for j
    using cell [OF that] load32_cell_cong [of k m "init_frame m0 (k + 4 * 1005)" j] fr that by simp
  note ic = init_frame_cells [OF k, where m = m0]
  have zero: "load32 m1 (k + 4 * of_nat j) = 0" if "j \<in> {1005..1014} \<union> {1017, 1018}" for j
  proof -
    have "(of_nat j :: u32) < 1024" using that by (auto simp: word_less_nat_alt unat_of_nat_u32)
    then show ?thesis using f [of "of_nat j"] ic(2) [OF that] by simp
  qed
  have "snd (trap_leave (m1, ?r2)) = user_entry"
    using trap_leave_regs [of ?r2 "k + 4 * 1005" m1 0 0 0 0 0 0 0 0 0 "0x23" "0x23" 0 "0x1B" FL_IF 4096 "0x23"]
      zero [of 1005] zero [of 1006] zero [of 1007] zero [of 1009] zero [of 1010] zero [of 1011] zero [of 1012]
      zero [of 1013] zero [of 1014] f [of 1015] f [of 1016] f [of 1019] f [of 1020] f [of 1021] f [of 1022] f [of 1023] ic(3-9)
    by (simp add: add.assoc user_entry_def)
  then show ?thesis using r1 c2 unfolding first_run_def sw Let_def by simp
qed

subsection \<open>A concrete machine\<close>

text \<open>68 free pages at 4 MB, an empty table, the program's 48 bytes in the kernel image: the hypotheses of
  the properties hold for it.\<close>

definition example_pool :: phys where
  "example_pool = fold kfree (pages_from 0x80400000 68) \<lparr>ram = \<lambda>_. 0, freelist = 0\<rparr>"

definition empty_proc :: proc where
  "empty_proc = \<lparr>pid = 0, state = UNUSED, psize = 0, pgdir = 0, parent = None, tf = 0, ctx = 0, killed = 0,
     pname = replicate 16 0, kstack = 0, kstack_size = 0, ofile = replicate 16 0, chan = 0\<rparr>"

definition example_kernel :: kernel where
  "example_kernel = \<lparr>ram = ram example_pool, freelist = freelist example_pool, k_maps = kernel_maps 0x80110000,
     kpgdir = 0, cr3 = 0, ports = ports idle_machine, eflags = 0x202, cpus = cpus idle_machine, cpu_id = 0,
     locks = locks idle_machine, ptable = replicate MAX_PROC empty_proc, proc_first = None, next_pid = 1, fork_first = True\<rparr>"

definition example_image :: image where
  "example_image = \<lparr>trap_ret = 0x80100400, fork_ret = 0x80100500, user_init_code = 0x80108000,
     user_init_code_size = 48, ts_addr = 0x80112000, boot_stack = 0x80118000\<rparr>"

lemma pages_from_last: "pages_from p (Suc n) = pages_from p n @ [p + of_nat n * PGSIZE]"
proof (induction n arbitrary: p)
  case (Suc n)
  have "pages_from p (Suc (Suc n)) = p # pages_from (p + PGSIZE) (Suc n)" by simp
  also have "pages_from (p + PGSIZE) (Suc n) = pages_from (p + PGSIZE) n @ [p + PGSIZE + of_nat n * PGSIZE]" by (rule Suc.IH)
  finally show ?case by (simp add: algebra_simps)
qed simp

definition example_xs :: "u32 list" where
  "example_xs = rev (pages_from 0x80400000 67)"

lemma example_facts:
  "free_pages example_kernel (0x80443000 # example_xs)" "67 \<le> length example_xs" "kdata_ok 0x80110000"
  "k_maps example_kernel = kernel_maps 0x80110000" "length (ptable example_kernel) = MAX_PROC" "0 < MAX_PROC"
  "state (ptable example_kernel ! 0) = UNUSED" "\<forall>j < 0. state (ptable example_kernel ! j) \<noteq> UNUSED"
  "code_outside example_image (insert 0x80443000 (set example_xs))" "next_pid example_kernel = 1"
proof -
  have al: "aligned 12 0x80400000" by (simp add: aligned_def)
  have e: "rev (pages_from 0x80400000 68) = 0x80443000 # example_xs"
    using pages_from_last [of "0x80400000" 67] by (simp add: example_xs_def PGSIZE_def)
  have "free_pages example_pool (rev (pages_from 0x80400000 68))"
    unfolding example_pool_def by (rule fresh_pool) (simp_all add: aligned_def)
  then show "free_pages example_kernel (0x80443000 # example_xs)"
    by (simp add: e free_pages_def example_kernel_def)
  have low: "0x80400000 \<le> unat p \<and> unat p + 4096 \<le> 4294967296" if "p \<in> insert 0x80443000 (set example_xs)" for p
  proof -
    have "p \<in> set (rev (pages_from 0x80400000 68))" using that unfolding e by simp
    then have "p \<in> set (pages_from 0x80400000 68)" by (simp only: set_rev)
    from pages_from_frames [OF al _ _ this] show ?thesis by simp
  qed
  have "\<not> in_block p 4096 a" if a: "in_block 0x80108000 48 a" and p: "p \<in> insert 0x80443000 (set example_xs)" for a p
  proof
    assume "in_block p 4096 a"
    then obtain i where "i < 4096" "a = p + of_nat i" by (auto simp: in_block_iff)
    then have "unat p \<le> unat a" using low [OF p] by (simp add: unat_word_ariths unat_of_nat_u32)
    moreover obtain j where "j < 48" "a = 0x80108000 + of_nat j" using a by (auto simp: in_block_iff)
    then have "unat a < 0x80108030" by (simp add: unat_word_ariths unat_of_nat_u32)
    ultimately show False using low [OF p] by simp
  qed
  then show "code_outside example_image (insert 0x80443000 (set example_xs))"
    by (simp add: code_outside_def example_image_def PGSIZE_def)
qed (simp_all add: example_xs_def kdata_ok_def aligned_def mmu_consts P2V_def example_kernel_def MAX_PROC_def empty_proc_def)

subsection \<open>Properties\<close>

text \<open>C8: init_user creates the first process: from a pool of at least 68 pages and a table with a
  free entry it takes the first free entry and makes it RUNNABLE with the next pid; its address space is
  the kernel's plus one user page at address 0 that holds the code of the program followed by zeros, and
  the lock of the table is free.\<close>

theorem init_user_creates_process:
  assumes "free_pages s (k # xs)" "67 \<le> length xs" "kdata_ok kdata" "k_maps s = kernel_maps kdata"
    and "length (ptable s) = MAX_PROC" "i < MAX_PROC" "state (ptable s ! i) = UNUSED"
    and "\<forall>j < i. state (ptable s ! j) \<noteq> UNUSED" "code_outside im (insert k (set xs))"
  shows "\<exists>s' y. init_user im s = Inr s' \<and> proc_first s' = Some i \<and> locked (locks s' Ptable_lock) = 0
    \<and> state (ptable s' ! i) = RUNNABLE \<and> pid (ptable s' ! i) = next_pid s \<and> psize (ptable s' ! i) = PGSIZE
    \<and> (\<forall>j. j \<noteq> i \<longrightarrow> ptable s' ! j = ptable s ! j)
    \<and> (\<forall>va. lookup (ram s') (pgdir (ptable s' ! i)) va =
          (if PGROUNDDOWN va = 0 then V2P y OR PTE_W OR PTE_U OR PTE_P else kernel_entry kdata va))
    \<and> (\<forall>j<4096. ram s' (y + of_nat j) =
          (if j < unat (user_init_code_size im) then ram s (user_init_code im + of_nat j) else 0))"
proof -
  obtain s' pg y where s': "init_user im s = Inr s'" "proc_first s' = Some i"
      "ptable s' = (ptable s)[i := (ptable s ! i)\<lparr>state := RUNNABLE, pid := next_pid s, psize := PGSIZE, pgdir := pg,
          tf := k + 4 * 1005, ctx := k + 4 * 999, pname := strncpy_array ''initcode'' 16, kstack := k\<rparr>]"
      "\<forall>va. lookup (ram s') pg va = (if PGROUNDDOWN va = 0 then V2P y OR PTE_W OR PTE_U OR PTE_P else kernel_entry kdata va)"
      "\<forall>j<4096. ram s' (y + of_nat j) = (if j < unat (user_init_code_size im) then ram s (user_init_code im + of_nat j) else 0)"
      "locks s' = locks (init_lock Ptable_lock ''ptable'' s)"
    using init_user_state [OF assms] by blast
  moreover from this(6) have "locked (locks s' Ptable_lock) = 0" by (simp add: init_lock_def)
  ultimately show ?thesis using assms(5,6) by (intro exI [of _ s'] exI [of _ y]) simp
qed

theorem init_user_creates_process_witness:
  "\<exists>s'. init_user example_image example_kernel = Inr s' \<and> state (ptable s' ! 0) = RUNNABLE \<and> pid (ptable s' ! 0) = 1
    \<and> lookup (ram s') (pgdir (ptable s' ! 0)) 0x80100000 = 0x100001"
proof -
  obtain s' where "init_user example_image example_kernel = Inr s'" "state (ptable s' ! 0) = RUNNABLE"
      "pid (ptable s' ! 0) = next_pid example_kernel"
      "\<And>va. PGROUNDDOWN va \<noteq> 0 \<Longrightarrow> lookup (ram s') (pgdir (ptable s' ! 0)) va = kernel_entry 0x80110000 va"
    using init_user_creates_process [OF example_facts(1-9)] by auto
  then show ?thesis using example_facts(10)
    by (intro exI [of _ s']) (simp add: PGROUNDDOWN_def kernel_entry_def mmu_consts V2P_def)
qed

text \<open>C9: the first process reaches user mode: after init_user, switching to the context of the new
  process from any stack apart from its kernel stack runs into fork_ret, returns into trap_ret, and
  trap_ret enters the program at address 0 in ring 3 with the stack at the top of its page, interrupts on
  and every general register zero.\<close>

theorem init_user_enters_user_mode:
  assumes "free_pages s (k # xs)" "67 \<le> length xs" "kdata_ok kdata" "k_maps s = kernel_maps kdata"
    and "length (ptable s) = MAX_PROC" "i < MAX_PROC" "state (ptable s ! i) = UNUSED"
    and "\<forall>j < i. state (ptable s ! j) \<noteq> UNUSED" "code_outside im (insert k (set xs))" "stack_apart k r"
  shows "\<exists>s'. init_user im s = Inr s' \<and>
    (\<lambda>(c1, c2, c3). r_eip (snd c1) = fork_ret im \<and> r_eip (snd c2) = trap_ret im \<and> snd c3 = user_entry
       \<and> user_mode (snd c3)) (first_run (ctx (ptable s' ! i)) (ram s', r))"
proof -
  have k: "aligned 12 k" "k \<noteq> 0" using free_pages_frames [OF assms(1), of k] by auto
  obtain s' pg m where s': "init_user im s = Inr s'"
      "ptable s' = (ptable s)[i := (ptable s ! i)\<lparr>state := RUNNABLE, pid := next_pid s, psize := PGSIZE, pgdir := pg,
          tf := k + 4 * 1005, ctx := k + 4 * 999, pname := strncpy_array ''initcode'' 16, kstack := k\<rparr>]"
      "stack_ready (ram s') k im" "\<forall>a. in_block k 4096 a \<longrightarrow> ram s' a = init_frame m (k + 4 * 1005) a"
    using init_user_state [OF assms(1-9)] by blast
  have "ctx (ptable s' ! i) = k + 4 * 999" using s'(2) assms(5,6) by simp
  then show ?thesis using first_run_user [OF k s'(3,4) assms(10)] s'(1)
    by (intro exI [of _ s']) (auto simp: user_entry_def user_mode_def)
qed

theorem init_user_enters_user_mode_witness:
  "\<exists>s'. init_user example_image example_kernel = Inr s' \<and>
    (\<lambda>(c1, c2, c3). r_eip (snd c1) = 0x80100500 \<and> r_eip (snd c2) = 0x80100400 \<and> snd c3 = user_entry
       \<and> user_mode (snd c3)) (first_run (ctx (ptable s' ! 0)) (ram s', user_entry\<lparr>r_esp := 0x80116000\<rparr>))"
proof -
  have "stack_apart 0x80443000 (user_entry\<lparr>r_esp := 0x80116000\<rparr>)"
    by (simp add: stack_apart_def user_entry_def in_block_def)
  from init_user_enters_user_mode [OF example_facts(1-9) this] show ?thesis by (simp add: example_image_def)
qed

end
