(* ===== verification/Sched.thy ===== *)
theory Sched
  imports Process
begin

section \<open>The scheduler\<close>

text \<open>
  \<^verbatim>\<open>launch_first_proc\<close>, \<^verbatim>\<open>sched\<close>, \<^verbatim>\<open>yield\<close>, \<^verbatim>\<open>sleep\<close>, \<^verbatim>\<open>wakeup\<close> and
  \<^verbatim>\<open>fork_ret\<close> of \<^verbatim>\<open>kernel/sys/process.c\<close>, with \<^verbatim>\<open>kernel/sys/sleeplock.c\<close>, as a
  step relation over the threads of the kernel: the scheduler's and one for each process. A function that
  calls \<^verbatim>\<open>switch_to\<close> is cut there: \<open>konts\<close> is the point where the stack of a process
  says it goes on, with the local variables that are alive there, and \<open>sched_pos\<close> the index of the
  scheduler's loop. What \<^verbatim>\<open>switch_to\<close> does to stacks and registers is theory Entry.
\<close>

subsection \<open>Threads\<close>

datatype kont = Fork_ret | After_yield int | After_sleep lock int | After_lock_sleep u32 int | After_exit u32 int

record sleeplock =
  sl_locked :: u32
  sl_name :: string
  sl_pid :: int

record sys = kernel +
  konts :: "nat \<Rightarrow> kont"
  sched_pos :: nat
  sleeplocks :: "u32 \<Rightarrow> sleeplock"

datatype thread = Sched_top | Scan nat | Back nat | Run nat

definition with_ports :: "(io \<Rightarrow> io res) \<Rightarrow> 'a machine_scheme \<Rightarrow> 'a machine_scheme res" where
  "with_ports f s = bindR (f (ports s)) (\<lambda>d. Inr (s\<lparr>ports := d\<rparr>))"

subsection \<open>Giving up the processor\<close>

text \<open>\<open>sched\<close> up to its \<^verbatim>\<open>switch_to\<close>; \<open>k\<close> makes the point of return from the saved
  \<^verbatim>\<open>intena\<close>. \<open>sched_return\<close> is what is left of it afterwards.\<close>

definition sched :: "(int \<Rightarrow> kont) \<Rightarrow> 'a sys_scheme \<Rightarrow> 'a sys_scheme res" where
  "sched k s =
     (let p = cur_proc (this_cpu s)
      in bindR (holding Ptable_lock s) (\<lambda>(h, s1).
           if \<not> h then panic ''sched ptable.lock''
           else if ncli (this_cpu s1) \<noteq> 1 then panic ''sched locks''
           else (case p of None \<Rightarrow> Inl (Undef ''null process'')
             | Some i \<Rightarrow>
                 if state (ptable s1 ! i) = RUNNING then panic ''sched running''
                 else if reade_flags s1 AND FL_IF \<noteq> 0 then panic ''sched interruptible''
                 else Inr (s1\<lparr>konts := (konts s1)(i := k (intena (this_cpu s1)))\<rparr>))))"

definition sched_return :: "int \<Rightarrow> 'a sys_scheme \<Rightarrow> 'a sys_scheme" where
  "sched_return ie s = set_cpu (\<lambda>c. c\<lparr>intena := ie\<rparr>) s"

definition yield :: "'a sys_scheme \<Rightarrow> 'a sys_scheme res" where
  "yield s = bindR (acquire Ptable_lock s) (\<lambda>s1.
     case cur_proc (this_cpu s1) of None \<Rightarrow> Inl (Undef ''null process'')
     | Some i \<Rightarrow> sched After_yield (set_proc i (\<lambda>p. p\<lparr>state := RUNNABLE\<rparr>) s1))"

definition yield_return :: "int \<Rightarrow> 'a sys_scheme \<Rightarrow> 'a sys_scheme res" where
  "yield_return ie s = release Ptable_lock (sched_return ie s)"

definition sleep :: "(lock \<Rightarrow> int \<Rightarrow> kont) \<Rightarrow> u32 \<Rightarrow> lock option \<Rightarrow> 'a sys_scheme \<Rightarrow> 'a sys_scheme res" where
  "sleep k ch lk s =
     (case cur_proc (this_cpu s) of None \<Rightarrow> panic ''sleep''
      | Some i \<Rightarrow> (case lk of None \<Rightarrow> panic ''sleep without lock''
          | Some l \<Rightarrow> bindR (if l \<noteq> Ptable_lock then bindR (acquire Ptable_lock s) (release l) else Inr s) (\<lambda>s1.
              sched (k l) (set_proc i (\<lambda>p. p\<lparr>chan := ch, state := SLEEPING\<rparr>) s1))))"

definition sleep_return :: "nat \<Rightarrow> lock \<Rightarrow> int \<Rightarrow> 'a sys_scheme \<Rightarrow> 'a sys_scheme res" where
  "sleep_return i l ie s =
     (let s1 = set_proc i (\<lambda>p. p\<lparr>chan := 0\<rparr>) (sched_return ie s)
      in if l \<noteq> Ptable_lock then bindR (release Ptable_lock s1) (acquire l) else Inr s1)"

definition wakeup :: "u32 \<Rightarrow> 'a sys_scheme \<Rightarrow> 'a sys_scheme res" where
  "wakeup ch s = bindR (acquire Ptable_lock s) (\<lambda>s1.
     release Ptable_lock (s1\<lparr>ptable :=
       map (\<lambda>p. if state p = SLEEPING \<and> chan p = ch then p\<lparr>state := RUNNABLE\<rparr> else p) (ptable s1)\<rparr>))"

definition fork_ret_text :: "u8 list" where
  "fork_ret_text = lit (''fork_ret'' @ [CHR 0x0A])"

definition fork_ret_body :: "'a sys_scheme \<Rightarrow> 'a sys_scheme res" where
  "fork_ret_body s = bindR (release Ptable_lock s) (\<lambda>s1.
     if fork_first s1 then with_ports (serial_printf fork_ret_text []) (s1\<lparr>fork_first := False\<rparr>) else Inr s1)"

subsection \<open>Sleep locks\<close>

text \<open>The sleep lock at address \<open>a\<close> is guarded by the spin lock \<open>Lock_at a\<close>.
  \<^verbatim>\<open>release_sleep\<close> and \<^verbatim>\<open>holding_sleep\<close> have empty bodies.\<close>

definition set_sleeplock :: "u32 \<Rightarrow> (sleeplock \<Rightarrow> sleeplock) \<Rightarrow> 'a sys_scheme \<Rightarrow> 'a sys_scheme" where
  "set_sleeplock a f s = s\<lparr>sleeplocks := (sleeplocks s)(a := f (sleeplocks s a))\<rparr>"

definition init_sleeplock :: "u32 \<Rightarrow> string \<Rightarrow> 'a sys_scheme \<Rightarrow> 'a sys_scheme" where
  "init_sleeplock a nm s =
     set_sleeplock a (\<lambda>l. l\<lparr>sl_name := nm, sl_locked := 0, sl_pid := 0\<rparr>) (init_lock (Lock_at a) ''sleep lock'' s)"

definition release_sleep :: "u32 \<Rightarrow> 'a sys_scheme \<Rightarrow> 'a sys_scheme" where
  "release_sleep a s = s"

text \<open>The loop of \<^verbatim>\<open>acquire_sleep\<close>, entered again after each sleep.\<close>

definition acquire_sleep_loop :: "nat \<Rightarrow> u32 \<Rightarrow> 'a sys_scheme \<Rightarrow> (thread \<times> 'a sys_scheme) res" where
  "acquire_sleep_loop i a s =
     (if sl_locked (sleeplocks s a) \<noteq> 0
      then bindR (sleep (\<lambda>_. After_lock_sleep a) a (Some (Lock_at a)) s) (\<lambda>s1. Inr (Back (sched_pos s1), s1))
      else bindR (release (Lock_at a)
             (set_sleeplock a (\<lambda>l. l\<lparr>sl_locked := 1, sl_pid := cpu_pid (this_cpu s)\<rparr>) s)) (\<lambda>s1. Inr (Run i, s1)))"

definition acquire_sleep :: "nat \<Rightarrow> u32 \<Rightarrow> 'a sys_scheme \<Rightarrow> (thread \<times> 'a sys_scheme) res" where
  "acquire_sleep i a s = bindR (acquire (Lock_at a) s) (acquire_sleep_loop i a)"

subsection \<open>The threads' steps\<close>

text \<open>A process goes on where its stack says.\<close>

definition resume :: "nat \<Rightarrow> 'a sys_scheme \<Rightarrow> (thread \<times> 'a sys_scheme) res" where
  "resume i s =
     (case konts s i of
        Fork_ret \<Rightarrow> bindR (fork_ret_body s) (\<lambda>s1. Inr (Run i, s1))
      | After_yield ie \<Rightarrow> bindR (yield_return ie s) (\<lambda>s1. Inr (Run i, s1))
      | After_sleep l ie \<Rightarrow> bindR (sleep_return i l ie s) (\<lambda>s1. Inr (Run i, s1))
      | After_lock_sleep a ie \<Rightarrow> bindR (sleep_return i (Lock_at a) ie s) (acquire_sleep_loop i a)
      | After_exit frame ie \<Rightarrow> (let s1 = sched_return ie s
          in Inr (Run i, s1\<lparr>ram := store32 (ram s1) (frame + tf_eax) 0\<rparr>)))"

definition set_cpu0 :: "(cpu \<Rightarrow> cpu) \<Rightarrow> 'a machine_scheme \<Rightarrow> 'a machine_scheme" where
  "set_cpu0 f s = s\<lparr>cpus := (cpus s)(0 := f (cpus s 0))\<rparr>"

definition launch_first_proc :: "'a sys_scheme \<Rightarrow> thread \<times> 'a sys_scheme" where
  "launch_first_proc s = (Sched_top, set_cpu0 (\<lambda>c. c\<lparr>cur_proc := None\<rparr>) s)"

definition sched_top :: "'a sys_scheme \<Rightarrow> (thread \<times> 'a sys_scheme) res" where
  "sched_top s = bindR (acquire Ptable_lock (sti s)) (\<lambda>s1. Inr (Scan 0, s1))"

definition scan :: "image \<Rightarrow> nat \<Rightarrow> 'a sys_scheme \<Rightarrow> (thread \<times> 'a sys_scheme) res" where
  "scan im i s =
     (if i < MAX_PROC then
        (if state (ptable s ! i) \<noteq> RUNNABLE then Inr (Scan (i + 1), s)
         else bindR (switch_uvm im (Some i) (set_cpu0 (\<lambda>c. c\<lparr>cur_proc := Some i\<rparr>) s)) (\<lambda>s1.
           resume i (set_proc i (\<lambda>p. p\<lparr>state := RUNNING\<rparr>) s1\<lparr>sched_pos := i\<rparr>)))
      else bindR (release Ptable_lock s) (\<lambda>s1. Inr (Sched_top, s1)))"

definition back_text :: "u8 list" where
  "back_text = lit ([CHR 0xE5, CHR 0x9B, CHR 0x9E, CHR 0xE5, CHR 0x86, CHR 0x85, CHR 0xE6, CHR 0xA0, CHR 0xB8,
     CHR 0xE4, CHR 0xBA, CHR 0x86, CHR 0xEF, CHR 0xBC, CHR 0x8C, CHR 0xE7, CHR 0xA8, CHR 0x8B, CHR 0xE5, CHR 0xBA,
     CHR 0x8F, CHR 0xE9, CHR 0x80, CHR 0x80, CHR 0xE5, CHR 0x87, CHR 0xBA, CHR 0xE6, CHR 0x88, CHR 0x90, CHR 0xE5,
     CHR 0x8A, CHR 0x9F, CHR 0xEF, CHR 0xBC, CHR 0x81, CHR 0x0A])"

definition sched_back :: "nat \<Rightarrow> 'a sys_scheme \<Rightarrow> (thread \<times> 'a sys_scheme) res" where
  "sched_back i s = bindR (with_ports (serial_printf back_text []) s) (\<lambda>s1.
     Inr (Scan (i + 1), set_cpu0 (\<lambda>c. c\<lparr>cur_proc := None\<rparr>) (switch_kvm s1)))"

text \<open>What the code of a running process asks of this layer: the calls of the functions above, the spin
  locks, and the interrupt flag, which the entry into the kernel and the return to user mode change.\<close>

datatype call = Yield | Sleep u32 "lock option" | Wakeup u32 | Acquire lock | Release lock
  | Acquire_sleep u32 | Init_sleeplock u32 string | Cli | Sti

definition do_call :: "nat \<Rightarrow> call \<Rightarrow> 'a sys_scheme \<Rightarrow> (thread \<times> 'a sys_scheme) res" where
  "do_call i c s =
     (case c of
        Yield \<Rightarrow> bindR (yield s) (\<lambda>s1. Inr (Back (sched_pos s1), s1))
      | Sleep ch lk \<Rightarrow> bindR (sleep After_sleep ch lk s) (\<lambda>s1. Inr (Back (sched_pos s1), s1))
      | Wakeup ch \<Rightarrow> bindR (wakeup ch s) (\<lambda>s1. Inr (Run i, s1))
      | Acquire l \<Rightarrow> bindR (acquire l s) (\<lambda>s1. Inr (Run i, s1))
      | Release l \<Rightarrow> bindR (release l s) (\<lambda>s1. Inr (Run i, s1))
      | Acquire_sleep a \<Rightarrow> acquire_sleep i a s
      | Init_sleeplock a nm \<Rightarrow> Inr (Run i, init_sleeplock a nm s)
      | Cli \<Rightarrow> Inr (Run i, cli s)
      | Sti \<Rightarrow> Inr (Run i, sti s))"

text \<open>The discipline: no call gives up the processor while a spin lock is held, except the one
  \<^verbatim>\<open>sleep\<close> releases; no lock is taken twice or released without being held; nobody turns
  interrupts on inside a critical section.\<close>

definition held :: "'a machine_scheme \<Rightarrow> lock set" where
  "held s = {l. locked (locks s l) \<noteq> 0}"

definition legal_call :: "call \<Rightarrow> 'a sys_scheme \<Rightarrow> bool" where
  "legal_call c s \<longleftrightarrow> ncli (this_cpu s) < 2147483640 \<and>
     (case c of
        Yield \<Rightarrow> held s = {}
      | Sleep ch lk \<Rightarrow> (case lk of None \<Rightarrow> False | Some l \<Rightarrow> held s = {l})
      | Wakeup ch \<Rightarrow> Ptable_lock \<notin> held s
      | Acquire l \<Rightarrow> l \<notin> held s
      | Release l \<Rightarrow> l \<in> held s
      | Acquire_sleep a \<Rightarrow> held s = {}
      | Init_sleeplock a nm \<Rightarrow> Lock_at a \<notin> held s
      | Cli \<Rightarrow> held s = {}
      | Sti \<Rightarrow> held s = {})"

inductive kstep :: "image \<Rightarrow> thread \<times> 'a sys_scheme \<Rightarrow> (thread \<times> 'a sys_scheme) res \<Rightarrow> bool"
  for im :: image where
  Top: "kstep im (Sched_top, s) (sched_top s)"
| Scan: "kstep im (Scan i, s) (scan im i s)"
| Back: "kstep im (Back i, s) (sched_back i s)"
| Call: "legal_call c s \<Longrightarrow> kstep im (Run i, s) (do_call i c s)"

inductive_cases kstep_elims: "kstep im (th, s) r"

inductive ksteps :: "image \<Rightarrow> thread \<times> 'a sys_scheme \<Rightarrow> thread \<times> 'a sys_scheme \<Rightarrow> bool"
  for im :: image where
  Refl: "ksteps im c c"
| Step: "ksteps im c c' \<Longrightarrow> kstep im c' (Inr c'') \<Longrightarrow> ksteps im c c''"

subsection \<open>The invariant of the scheduler\<close>

text \<open>
  \<open>sys_ok\<close> is what every thread keeps: one processor, a table of \<open>MAX_PROC\<close> entries in which each
  process that may run has a kernel stack and a page directory, and a serial line that answers.
  \<open>sched_inv\<close> adds what holds at each point: the scheduler scans with exactly the lock of the table
  held and no process running, and while process \<open>i\<close> runs it is the current one and the only one
  whose state is RUNNING.
\<close>

definition proc_ok :: "proc \<Rightarrow> bool" where
  "proc_ok p \<longleftrightarrow> state p \<in> {UNUSED, EMBRYO, ZOMBIE} \<or> kstack p \<noteq> 0 \<and> pgdir p \<noteq> 0"

definition sys_ok :: "'a sys_scheme \<Rightarrow> bool" where
  "sys_ok s \<longleftrightarrow> cpu_id s = 0 \<and> length (ptable s) = MAX_PROC \<and> uart_ready (ports s)
    \<and> (\<forall>i < MAX_PROC. proc_ok (ptable s ! i))"

definition running_only :: "nat option \<Rightarrow> 'a sys_scheme \<Rightarrow> bool" where
  "running_only r s \<longleftrightarrow> (\<forall>i < MAX_PROC. state (ptable s ! i) = RUNNING \<longleftrightarrow> r = Some i)"

definition cur :: "'a machine_scheme \<Rightarrow> nat option" where
  "cur s = cur_proc (this_cpu s)"

definition sched_inv :: "thread \<Rightarrow> 'a sys_scheme \<Rightarrow> bool" where
  "sched_inv th s \<longleftrightarrow> sys_ok s \<and>
     (case th of
        Sched_top \<Rightarrow> cur s = None \<and> running_only None s \<and> (\<exists>b. lock_state s [] b)
      | Scan i \<Rightarrow> cur s = None \<and> running_only None s \<and> (\<exists>b. lock_state s [Ptable_lock] b)
      | Back i \<Rightarrow> cur s = Some i \<and> i < MAX_PROC \<and> running_only None s \<and> sched_pos s = i
          \<and> (\<exists>b. lock_state s [Ptable_lock] b)
      | Run i \<Rightarrow> cur s = Some i \<and> i < MAX_PROC \<and> running_only (Some i) s \<and> sched_pos s = i
          \<and> (\<exists>hs b. lock_state s hs b))"

lemma sys_eqD:
  assumes "machine.more (s' :: 'a sys_scheme) = machine.more s"
  shows "ptable s' = ptable s" "next_pid s' = next_pid s" "proc_first s' = proc_first s" "fork_first s' = fork_first s"
    "konts s' = konts s" "sched_pos s' = sched_pos s" "sleeplocks s' = sleeplocks s" "sys.more s' = sys.more s"
  using assms by (cases s; cases s'; simp)+

lemma erase_inv:
  assumes "erase (s' :: 'a sys_scheme) = erase s"
  shows "sys_ok s' = sys_ok s" "running_only r s' = running_only r s" "cur s' = cur s"
    "sched_pos s' = sched_pos s" "konts s' = konts s" "sleeplocks s' = sleeplocks s" "ptable s' = ptable s"
    "cr3 s' = cr3 s" "ts (this_cpu s') = ts (this_cpu s)" "ports s' = ports s" "ram s' = ram s"
  using erase_eqD [OF assms] sys_eqD [of s' s] by (simp_all add: sys_ok_def running_only_def cur_def)

text \<open>Changes that no lock looks at.\<close>

lemma lock_state_cong:
  assumes "eflags s' = eflags s" "cpu_id s' = cpu_id s" "locks s' = locks s"
    "ncli (this_cpu s') = ncli (this_cpu s)" "intena (this_cpu s') = intena (this_cpu s)"
  shows "lock_state s' hs b = lock_state s hs b"
  using assms by (simp add: lock_state_def if_on_def c_cpu_def)

lemma lock_state_simps [simp]:
  "lock_state (set_proc i f s) hs b = lock_state s hs b"
  "lock_state (s\<lparr>konts := k\<rparr>) hs b = lock_state s hs b"
  "lock_state (s\<lparr>sched_pos := n\<rparr>) hs b = lock_state s hs b"
  "lock_state (s\<lparr>ports := d\<rparr>) hs b = lock_state s hs b"
  "lock_state (s\<lparr>cr3 := c\<rparr>) hs b = lock_state s hs b"
  "lock_state (s\<lparr>ptable := pt\<rparr>) hs b = lock_state s hs b"
  "lock_state (s\<lparr>ram := rm\<rparr>) hs b = lock_state s hs b"
  "lock_state (s\<lparr>fork_first := ff\<rparr>) hs b = lock_state s hs b"
  "lock_state (set_sleeplock a g s) hs b = lock_state s hs b"
  "(\<And>c. ncli (h c) = ncli c \<and> intena (h c) = intena c) \<Longrightarrow> lock_state (set_cpu h s) hs b = lock_state s hs b"
  "(\<And>c. ncli (h c) = ncli c \<and> intena (h c) = intena c) \<Longrightarrow> lock_state (set_cpu0 h s) hs b = lock_state s hs b"
  by (rule lock_state_cong; simp add: set_proc_def set_cpu_def set_cpu0_def c_cpu_def set_sleeplock_def)+

lemma cur_simps [simp]:
  "cur (set_proc i f s) = cur s" "cur (s\<lparr>konts := k\<rparr>) = cur s" "cur (s\<lparr>sched_pos := n\<rparr>) = cur s"
  "cur (s\<lparr>ports := d\<rparr>) = cur s" "cur (s\<lparr>cr3 := c\<rparr>) = cur s" "cur (s\<lparr>ptable := pt\<rparr>) = cur s" "cur (s\<lparr>ram := rm\<rparr>) = cur s"
  "cur (s\<lparr>fork_first := ff\<rparr>) = cur s" "cur (set_sleeplock a g s) = cur s" "cur (sti s) = cur s" "cur (cli s) = cur s"
  "cpu_id s = 0 \<Longrightarrow> cur (set_cpu0 (\<lambda>c. c\<lparr>cur_proc := x\<rparr>) s) = x"
  "(\<And>c. cur_proc (h c) = cur_proc c) \<Longrightarrow> cur (set_cpu h s) = cur s"
  by (simp_all add: cur_def c_cpu_def set_proc_def set_sleeplock_def set_cpu0_def set_cpu_def cli_def sti_def)

lemma sys_ok_simps [simp]:
  "sys_ok (s\<lparr>konts := k\<rparr>) = sys_ok s" "sys_ok (s\<lparr>sched_pos := n\<rparr>) = sys_ok s" "sys_ok (s\<lparr>cr3 := c\<rparr>) = sys_ok s"
  "sys_ok (s\<lparr>ram := rm\<rparr>) = sys_ok s"
  "sys_ok (s\<lparr>fork_first := ff\<rparr>) = sys_ok s" "sys_ok (set_sleeplock a g s) = sys_ok s"
  "sys_ok (set_cpu h s) = sys_ok s" "sys_ok (set_cpu0 h s) = sys_ok s" "sys_ok (sti s) = sys_ok s" "sys_ok (cli s) = sys_ok s"
  "sys_ok s \<Longrightarrow> sys_ok (s\<lparr>ports := d\<rparr>) = uart_ready d"
  by (auto simp: sys_ok_def set_sleeplock_def set_cpu0_def set_cpu_def cli_def sti_def)

lemma sys_ok_set_proc:
  "sys_ok s \<Longrightarrow> i < MAX_PROC \<Longrightarrow> proc_ok (f (ptable s ! i)) \<Longrightarrow> sys_ok (set_proc i f s)"
  by (auto simp: sys_ok_def set_proc_def nth_list_update)

lemma running_simps [simp]:
  "running_only r (s\<lparr>konts := k\<rparr>) = running_only r s" "running_only r (s\<lparr>sched_pos := n\<rparr>) = running_only r s"
  "running_only r (s\<lparr>ports := d\<rparr>) = running_only r s" "running_only r (s\<lparr>cr3 := c\<rparr>) = running_only r s"
  "running_only r (s\<lparr>ram := rm\<rparr>) = running_only r s"
  "running_only r (s\<lparr>fork_first := ff\<rparr>) = running_only r s" "running_only r (set_sleeplock a g s) = running_only r s"
  "running_only r (set_cpu h s) = running_only r s" "running_only r (set_cpu0 h s) = running_only r s"
  "running_only r (sti s) = running_only r s" "running_only r (cli s) = running_only r s"
  by (simp_all add: running_only_def set_sleeplock_def set_cpu0_def set_cpu_def cli_def sti_def)

lemma running_set_proc:
  assumes "sys_ok s" "i < MAX_PROC" "running_only r s" "r = None \<or> r = Some i"
  shows "running_only (if state (f (ptable s ! i)) = RUNNING then Some i else None) (set_proc i f s)"
  using assms by (auto simp: running_only_def sys_ok_def)

lemma sched_pos_simps [simp]:
  "sched_pos (set_proc i f s) = sched_pos s" "sched_pos (set_cpu h s) = sched_pos s" "sched_pos (set_cpu0 h s) = sched_pos s"
  "sched_pos (set_sleeplock a g s) = sched_pos s" "sched_pos (sti s) = sched_pos s" "sched_pos (cli s) = sched_pos s"
  "konts (set_proc i f s) = konts s" "konts (set_cpu h s) = konts s" "konts (set_cpu0 h s) = konts s"
  "sleeplocks (set_proc i f s) = sleeplocks s"
  by (simp_all add: set_proc_def set_cpu_def set_cpu0_def set_sleeplock_def sti_def cli_def)

lemma cpu_id_simps [simp]:
  "cpu_id (set_proc i f s) = cpu_id s" "cpu_id (set_cpu h s) = cpu_id s" "cpu_id (set_cpu0 h s) = cpu_id s"
  "ports (set_proc i f s) = ports s" "ports (set_cpu h s) = ports s" "ports (set_cpu0 h s) = ports s"
  "ptable (set_cpu h s') = ptable s'" "ptable (set_cpu0 h s') = ptable s'" "ptable (sti s') = ptable s'" "ptable (cli s') = ptable s'"
  by (simp_all add: set_proc_def set_cpu_def set_cpu0_def sti_def cli_def)

subsection \<open>Giving up and getting back the processor\<close>

lemma holding_lock_state:
  assumes "lock_state s hs b" "length hs < 2147483645"
  shows "\<exists>s'. holding lk s = Inr (lk \<in> set hs, s') \<and> lock_state s' hs b \<and> erase s' = erase s"
proof -
  obtain s' where s': "holding lk s = Inr (locked (locks s lk) \<noteq> 0 \<and> lock_cpu (locks s lk) = Some (c_cpu s), s')"
      "cli_state s' (length hs) b" "locks s' = locks s" "c_cpu s' = c_cpu s" "erase s' = erase s"
    using holding_state [OF lock_state_cli [OF assms(1)], of lk] assms(2) by auto
  have "lock_state s' hs b" using assms(1) s' by (intro lock_stateI) (auto simp: lock_state_def)
  moreover have "(locked (locks s lk) \<noteq> 0 \<and> lock_cpu (locks s lk) = Some (c_cpu s)) = (lk \<in> set hs)"
    using assms(1) by (auto simp: lock_state_def)
  ultimately show ?thesis using s' by auto
qed

lemma sched_ready:
  assumes "lock_state s [Ptable_lock] b" "cur s = Some i" "state (ptable s ! i) \<noteq> RUNNING"
  shows "\<exists>s1. sched k s = Inr (s1\<lparr>konts := (konts s)(i := k (intena (this_cpu s1)))\<rparr>)
    \<and> lock_state s1 [Ptable_lock] b \<and> erase s1 = erase s"
proof -
  obtain s1 where s1: "holding Ptable_lock s = Inr (True, s1)" "lock_state s1 [Ptable_lock] b" "erase s1 = erase s"
    using holding_lock_state [OF assms(1), of Ptable_lock] by auto
  have "ncli (this_cpu s1) = 1" "reade_flags s1 AND FL_IF = 0"
    using s1(2) by (auto simp: lock_state_def if_on_def reade_flags_def)
  then show ?thesis using s1 assms(2,3) erase_inv [OF s1(3)] by (auto simp: sched_def Let_def cur_def)
qed

lemma sched_without_lock:
  assumes "lock_state s hs b" "length hs < 2147483645" "Ptable_lock \<notin> set hs"
  shows "sched k s = panic ''sched ptable.lock''"
proof -
  obtain s1 where "holding Ptable_lock s = Inr (False, s1)"
    using holding_lock_state [OF assms(1,2), of Ptable_lock] assms(3) by auto
  then show ?thesis by (simp add: sched_def Let_def)
qed

lemma sched_with_locks:
  assumes "lock_state s hs b" "length hs < 2147483645" "Ptable_lock \<in> set hs" "length hs \<noteq> 1"
  shows "sched k s = panic ''sched locks''"
proof -
  obtain s1 where s1: "holding Ptable_lock s = Inr (True, s1)" "lock_state s1 hs b"
    using holding_lock_state [OF assms(1,2), of Ptable_lock] assms(3) by auto
  then have "ncli (this_cpu s1) \<noteq> 1" using assms(4) by (auto simp: lock_state_def)
  then show ?thesis using s1(1) by (simp add: sched_def Let_def)
qed

lemma sched_return_state:
  "lock_state s (l # hs) b \<Longrightarrow> lock_state (sched_return ie s) (l # hs) (ie \<noteq> 0)"
  by (auto simp: lock_state_def sched_return_def)

text \<open>The process that ran until now is no longer RUNNING: \<open>f\<close> says what it becomes.\<close>

lemma switch_away:
  assumes "sys_ok s" "cur s = Some i" "i < MAX_PROC" "running_only (Some i) s" "sched_pos s = i"
    and "lock_state s [Ptable_lock] b" "state (f (ptable s ! i)) \<noteq> RUNNING"
    and "kstack (f (ptable s ! i)) = kstack (ptable s ! i)" "pgdir (f (ptable s ! i)) = pgdir (ptable s ! i)"
  shows "\<exists>s' ie. sched k (set_proc i f s) = Inr s' \<and> sched_inv (Back i) s'
    \<and> ptable s' = (ptable s)[i := f (ptable s ! i)] \<and> konts s' = (konts s)(i := k ie)
    \<and> sleeplocks s' = sleeplocks s"
proof -
  let ?s = "set_proc i f s"
  have len: "i < length (ptable s)" using assms(1,3) by (simp add: sys_ok_def)
  obtain s1 where s1: "sched k ?s = Inr (s1\<lparr>konts := (konts ?s)(i := k (intena (this_cpu s1)))\<rparr>)"
      "lock_state s1 [Ptable_lock] b" "erase s1 = erase ?s"
    using sched_ready [of ?s b i k] assms len by auto
  have "state (ptable s ! i) = RUNNING" using assms(3,4) by (simp add: running_only_def)
  then have "proc_ok (f (ptable s ! i))" using assms(1,3,8,9) by (auto simp: sys_ok_def proc_ok_def)
  then have "sys_ok s1" "running_only None s1" "cur s1 = Some i" "sched_pos s1 = i" "sleeplocks s1 = sleeplocks s"
      "ptable s1 = (ptable s)[i := f (ptable s ! i)]"
    using sys_ok_set_proc [OF assms(1,3)] running_set_proc [OF assms(1,3,4), of f] assms erase_inv [OF s1(3)]
    by (auto simp: set_proc_def)
  then show ?thesis using s1 assms(3) by (auto simp: sched_inv_def)
qed

lemma acquire_sys:
  assumes "lock_state s hs b" "lk \<notin> set hs" "length hs < 2147483645"
  obtains s' where "acquire lk s = Inr s'" "lock_state s' (lk # hs) b" "erase s' = erase s"
  using acquire_state [OF assms] by blast

lemma release_sys:
  assumes "lock_state s hs b" "lk \<in> set hs" "length hs < 2147483645"
  obtains s' where "release lk s = Inr s'" "lock_state s' (remove1 lk hs) b" "erase s' = erase s"
  using release_state [OF assms] by blast

lemma run_invD:
  assumes "sched_inv (Run i) s"
  shows "sys_ok s" "cur s = Some i" "i < MAX_PROC" "running_only (Some i) s" "sched_pos s = i"
    "state (ptable s ! i) = RUNNING" "\<exists>hs b. lock_state s hs b"
  using assms by (auto simp: sched_inv_def running_only_def)

lemma sched_inv_erase:
  assumes "sched_inv (Run i) s" "erase s' = erase s" "lock_state s' hs b"
  shows "sched_inv (Run i) s'"
  using assms(1,3) erase_inv [OF assms(2)] by (auto simp: sched_inv_def)

lemma yield_state:
  assumes "sched_inv (Run i) s" "lock_state s [] b"
  shows "\<exists>s' ie. yield s = Inr s' \<and> sched_inv (Back i) s' \<and> konts s' = (konts s)(i := After_yield ie)
    \<and> ptable s' = (ptable s)[i := (ptable s ! i)\<lparr>state := RUNNABLE\<rparr>]"
proof -
  obtain s1 where s1: "acquire Ptable_lock s = Inr s1" "lock_state s1 [Ptable_lock] b" "erase s1 = erase s"
    using acquire_sys [OF assms(2), of Ptable_lock] by auto
  note r = run_invD [OF sched_inv_erase [OF assms(1) s1(3,2)]]
  have c: "cur_proc (this_cpu s1) = Some i" using r(2) by (simp add: cur_def)
  show ?thesis
    unfolding yield_def s1(1) bindR_simps c option.case
    using switch_away [OF r(1-5) s1(2), of "\<lambda>p. p\<lparr>state := RUNNABLE\<rparr>" After_yield] erase_inv [OF s1(3)]
    by auto
qed

lemma sleep_state:
  assumes "sched_inv (Run i) s" "lock_state s [l] b"
  shows "\<exists>s' ie. sleep k ch (Some l) s = Inr s' \<and> sched_inv (Back i) s' \<and> konts s' = (konts s)(i := k l ie)
    \<and> ptable s' = (ptable s)[i := (ptable s ! i)\<lparr>chan := ch, state := SLEEPING\<rparr>] \<and> sleeplocks s' = sleeplocks s"
proof -
  obtain s1 where s1: "(if l \<noteq> Ptable_lock then bindR (acquire Ptable_lock s) (release l) else Inr s) = Inr s1"
      "lock_state s1 [Ptable_lock] b" "erase s1 = erase s"
  proof (cases "l = Ptable_lock")
    case False
    obtain s1 where a: "acquire Ptable_lock s = Inr s1" "lock_state s1 [Ptable_lock, l] b" "erase s1 = erase s"
      using acquire_sys [OF assms(2), of Ptable_lock] False by auto
    obtain s2 where b: "release l s1 = Inr s2" "lock_state s2 [Ptable_lock] b" "erase s2 = erase s1"
      using release_sys [OF a(2), of l] False by auto
    show thesis by (rule that [of s2]) (use a b False in auto)
  qed (use that [of s] assms(2) in auto)
  note r = run_invD [OF sched_inv_erase [OF assms(1) s1(3,2)]]
  have c: "cur_proc (this_cpu s) = Some i" using run_invD(2) [OF assms(1)] by (simp add: cur_def)
  show ?thesis
    unfolding sleep_def c option.case s1(1) bindR_simps
    using switch_away [OF r(1-5) s1(2), of "\<lambda>p. p\<lparr>chan := ch, state := SLEEPING\<rparr>" "k l"] erase_inv [OF s1(3)] r(6)
    by auto
qed

lemma sleep_return_state:
  assumes "sched_inv (Run i) s" "lock_state s [Ptable_lock] b"
  shows "\<exists>s'. sleep_return i l ie s = Inr s' \<and> sched_inv (Run i) s' \<and> lock_state s' [l] (ie \<noteq> 0)
    \<and> ptable s' = (ptable s)[i := (ptable s ! i)\<lparr>chan := 0\<rparr>]"
proof -
  note r = run_invD [OF assms(1)]
  let ?s1 = "set_proc i (\<lambda>p. p\<lparr>chan := 0\<rparr>) (sched_return ie s)"
  have l1: "lock_state ?s1 [Ptable_lock] (ie \<noteq> 0)" using sched_return_state [OF assms(2)] by simp
  have ok: "sys_ok (sched_return ie s)" "running_only (Some i) (sched_return ie s)" "cur (sched_return ie s) = Some i"
      "ptable (sched_return ie s) = ptable s" "sched_pos (sched_return ie s) = i"
    using r by (simp_all add: sched_return_def)
  have "proc_ok ((ptable s ! i)\<lparr>chan := 0\<rparr>)" using r(1,3) by (simp add: sys_ok_def proc_ok_def)
  then have "sys_ok ?s1" using sys_ok_set_proc [OF ok(1) r(3)] ok(4) by simp
  moreover have "running_only (Some i) ?s1"
    using running_set_proc [OF ok(1) r(3) ok(2), of "\<lambda>p. p\<lparr>chan := 0\<rparr>"] ok(4) r(6) by simp
  moreover have "cur ?s1 = Some i" "sched_pos ?s1 = i" using ok(3,5) by simp_all
  ultimately have i1: "sched_inv (Run i) ?s1" using r(3) l1 unfolding sched_inv_def thread.case by blast
  show ?thesis
  proof (cases "l = Ptable_lock")
    case False
    obtain s2 where a: "release Ptable_lock ?s1 = Inr s2" "lock_state s2 [] (ie \<noteq> 0)" "erase s2 = erase ?s1"
      using release_sys [OF l1, of Ptable_lock] by auto
    obtain s3 where b: "acquire l s2 = Inr s3" "lock_state s3 [l] (ie \<noteq> 0)" "erase s3 = erase s2"
      using acquire_sys [OF a(2), of l] by auto
    have e: "erase s3 = erase ?s1" using a(3) b(3) by simp
    have "ptable s3 = (ptable s)[i := (ptable s ! i)\<lparr>chan := 0\<rparr>]"
      using erase_inv(7) [OF e] ok(4) by (simp add: set_proc_def)
    then show ?thesis
      using False a(1) b(1,2) sched_inv_erase [OF i1 e b(2)] by (simp add: sleep_return_def Let_def)
  qed (use i1 l1 ok(4) in \<open>simp add: sleep_return_def set_proc_def Let_def\<close>)
qed

subsection \<open>Every step keeps the invariant\<close>

lemma run_invI:
  "sys_ok s \<Longrightarrow> cur s = Some i \<Longrightarrow> i < MAX_PROC \<Longrightarrow> running_only (Some i) s \<Longrightarrow> sched_pos s = i \<Longrightarrow>
    lock_state s hs b \<Longrightarrow> sched_inv (Run i) s"
  unfolding sched_inv_def by auto

lemma with_ports_text:
  assumes "sys_ok s" "printf_text fmt [] = Some t"
  shows "\<exists>d. with_ports (serial_printf fmt []) s = Inr (s\<lparr>ports := d\<rparr>) \<and> uart_ready d \<and> sent d = sent (ports s) @ t"
proof -
  have "uart_ready (ports s)" using assms(1) by (simp add: sys_ok_def)
  from serial_printf_step [OF this assms(2)]
  obtain d where "serial_printf fmt [] (ports s) = Inr d" "uart_ready d" "uart_sends (ports s) t d" .
  then show ?thesis by (auto simp: with_ports_def uart_sends_def)
qed

lemma texts_plain: "37 \<notin> set fork_ret_text" "37 \<notin> set back_text"
  by (simp_all add: fork_ret_text_def back_text_def)

lemma wakeup_state:
  assumes "sched_inv (Run i) s" "lock_state s hs b" "Ptable_lock \<notin> set hs" "length hs < 2147483640"
  shows "\<exists>s'. wakeup ch s = Inr s' \<and> sched_inv (Run i) s' \<and> lock_state s' hs b
    \<and> ptable s' = map (\<lambda>p. if state p = SLEEPING \<and> chan p = ch then p\<lparr>state := RUNNABLE\<rparr> else p) (ptable s)"
proof -
  let ?f = "\<lambda>p. if state p = SLEEPING \<and> chan p = ch then p\<lparr>state := RUNNABLE\<rparr> else p"
  obtain s1 where s1: "acquire Ptable_lock s = Inr s1" "lock_state s1 (Ptable_lock # hs) b" "erase s1 = erase s"
    using acquire_sys [OF assms(2,3)] assms(4) by auto
  let ?s2 = "s1\<lparr>ptable := map ?f (ptable s1)\<rparr>"
  note r = run_invD [OF sched_inv_erase [OF assms(1) s1(3,2)]]
  have f: "proc_ok p \<Longrightarrow> proc_ok (?f p)" "state (?f p) = RUNNING \<longleftrightarrow> state p = RUNNING" for p by (auto simp: proc_ok_def)
  have "sys_ok ?s2" using r(1) f(1) unfolding sys_ok_def by simp
  moreover have "running_only (Some i) ?s2"
    using r(1,4) f(2) by (simp only: running_only_def sys_ok_def sys.simps kernel.simps nth_map) simp
  ultimately have i2: "sched_inv (Run i) ?s2" using r s1(2) by (intro run_invI) simp_all
  obtain s3 where s3: "release Ptable_lock ?s2 = Inr s3" "lock_state s3 hs b" "erase s3 = erase ?s2"
    using release_sys [of ?s2 "Ptable_lock # hs" b Ptable_lock] s1(2) assms(4) by auto
  then show ?thesis
    using s1(1) sched_inv_erase [OF i2 s3(3,2)] erase_inv(7) [OF s3(3)] erase_inv(7) [OF s1(3)]
    by (simp add: wakeup_def)
qed

lemma fork_ret_state:
  assumes "sched_inv (Run i) s" "lock_state s [Ptable_lock] b"
  shows "\<exists>s'. fork_ret_body s = Inr s' \<and> sched_inv (Run i) s' \<and> ptable s' = ptable s \<and> lock_state s' [] b"
proof -
  obtain s1 where s1: "release Ptable_lock s = Inr s1" "lock_state s1 [] b" "erase s1 = erase s"
    using release_sys [OF assms(2), of Ptable_lock] by auto
  have i1: "sched_inv (Run i) s1" using sched_inv_erase [OF assms(1) s1(3,2)] .
  have ok: "sys_ok (s1\<lparr>fork_first := False\<rparr>)" using run_invD(1) [OF i1] by simp
  obtain d where d: "with_ports (serial_printf fork_ret_text []) (s1\<lparr>fork_first := False\<rparr>) = Inr (s1\<lparr>fork_first := False, ports := d\<rparr>)"
      "uart_ready d"
    using with_ports_text [OF ok printf_text_plain [OF texts_plain(1)]] by auto
  have "sched_inv (Run i) (s1\<lparr>fork_first := False, ports := d\<rparr>)"
    using run_invD [OF i1] s1(2) d(2) by (intro run_invI [where hs = "[]" and b = b]) simp_all
  then show ?thesis
    using s1 i1 d(1) erase_inv(7) [OF s1(3)] by (cases "fork_first s1") (simp_all add: fork_ret_body_def)
qed

lemma acquire_sleep_loop_state:
  assumes "sched_inv (Run i) s" "lock_state s [Lock_at a] b"
  shows "\<exists>th s'. acquire_sleep_loop i a s = Inr (th, s') \<and> sched_inv th s' \<and> th \<in> {Run i, Back i}
    \<and> (\<forall>j. j \<noteq> i \<longrightarrow> ptable s' ! j = ptable s ! j)"
proof (cases "sl_locked (sleeplocks s a) = 0")
  case True
  let ?s1 = "set_sleeplock a (\<lambda>l. l\<lparr>sl_locked := 1, sl_pid := cpu_pid (this_cpu s)\<rparr>) s"
  have l: "lock_state ?s1 [Lock_at a] b" using assms(2) by simp
  have i1: "sched_inv (Run i) ?s1" using run_invD [OF assms(1)] l by (intro run_invI [where hs = "[Lock_at a]" and b = b]) simp_all
  obtain s2 where s2: "release (Lock_at a) ?s1 = Inr s2" "lock_state s2 [] b" "erase s2 = erase ?s1"
    using release_sys [OF l, of "Lock_at a"] by auto
  then show ?thesis
    using True sched_inv_erase [OF i1 s2(3,2)] erase_inv(7) [OF s2(3)]
    by (simp add: acquire_sleep_loop_def set_sleeplock_def)
next
  case False
  obtain s' ie where "sleep (\<lambda>_. After_lock_sleep a) a (Some (Lock_at a)) s = Inr s'" "sched_inv (Back i) s'"
      "ptable s' = (ptable s)[i := (ptable s ! i)\<lparr>chan := a, state := SLEEPING\<rparr>]"
    using sleep_state [OF assms, of "\<lambda>_. After_lock_sleep a" a] by blast
  moreover from this(2) have "sched_pos s' = i" by (simp add: sched_inv_def)
  ultimately show ?thesis using False by (auto simp: acquire_sleep_loop_def)
qed

lemma resume_state:
  assumes "sched_inv (Run i) s" "lock_state s [Ptable_lock] b"
  shows "\<exists>th s'. resume i s = Inr (th, s') \<and> sched_inv th s' \<and> th \<in> {Run i, Back i}
    \<and> (\<forall>j. j \<noteq> i \<longrightarrow> ptable s' ! j = ptable s ! j)"
proof (cases "konts s i")
  case Fork_ret
  then show ?thesis using fork_ret_state [OF assms] by (auto simp: resume_def)
next
  case (After_yield ie)
  obtain s1 where s1: "release Ptable_lock (sched_return ie s) = Inr s1" "lock_state s1 [] (ie \<noteq> 0)"
      "erase s1 = erase (sched_return ie s)"
    using release_sys [OF sched_return_state [OF assms(2)], of Ptable_lock] by auto
  have "erase s1 = erase s" using s1(3) by (simp add: sched_return_def)
  then show ?thesis
    using After_yield s1 sched_inv_erase [OF assms(1) _ s1(2)] erase_inv(7) [of s1 s]
    by (simp add: resume_def yield_return_def)
next
  case (After_sleep l ie)
  then show ?thesis using sleep_return_state [OF assms, of l ie] by (auto simp: resume_def)
next
  case (After_lock_sleep a ie)
  obtain s1 where s1: "sleep_return i (Lock_at a) ie s = Inr s1" "sched_inv (Run i) s1"
      "lock_state s1 [Lock_at a] (ie \<noteq> 0)" "ptable s1 = (ptable s)[i := (ptable s ! i)\<lparr>chan := 0\<rparr>]"
    using sleep_return_state [OF assms] by blast
  then show ?thesis using After_lock_sleep acquire_sleep_loop_state [OF s1(2,3)] by (auto simp: resume_def)
next
  case (After_exit frame ie)
  let ?s = "sched_return ie s"
  have "sched_inv (Run i) (?s\<lparr>ram := store32 (ram ?s) (frame + tf_eax) 0\<rparr>)"
    using run_invD [OF assms(1)] sched_return_state [OF assms(2)]
    by (intro run_invI [where hs = "[Ptable_lock]" and b = "ie \<noteq> 0"]) (simp_all add: sched_return_def)
  then show ?thesis using After_exit by (simp add: resume_def sched_return_def Let_def)
qed

lemma switch_uvm_state:
  assumes "sys_ok s" "i < MAX_PROC" "state (ptable s ! i) = RUNNABLE"
  shows "\<exists>f. switch_uvm im (Some i) s = Inr (lcr3 (V2P (pgdir (ptable s ! i))) (set_cpu f s))
    \<and> (\<forall>c. ncli (f c) = ncli c \<and> intena (f c) = intena c \<and> cur_proc (f c) = cur_proc c
        \<and> esp0 (ts (f c)) = kstack (ptable s ! i) + KSTACK_SIZE \<and> ss0 (ts (f c)) = KER_DS)"
proof -
  let ?f = "\<lambda>c. c\<lparr>gdt := set_tss_entry TSS_I (ts_addr im) (sizeof_tss - 1) 0x89 0x40 (gdt c),
     ts := (ts c)\<lparr>ss0 := KER_DS, esp0 := kstack (ptable s ! i) + KSTACK_SIZE, iomap_base := 0xFFFF\<rparr>\<rparr>"
  have p: "kstack (ptable s ! i) \<noteq> 0" "pgdir (ptable s ! i) \<noteq> 0"
    using assms by (auto simp: sys_ok_def proc_ok_def)
  then have "switch_uvm im (Some i) s = Inr (lcr3 (V2P (pgdir (ptable s ! i))) (set_cpu ?f s))"
    by (simp add: switch_uvm_def Let_def)
  then show ?thesis by (intro exI [of _ ?f]) simp
qed

text \<open>The state in which the scheduler hands the processor to process \<open>i\<close>.\<close>

definition handed_to :: "image \<Rightarrow> nat \<Rightarrow> 'a sys_scheme \<Rightarrow> 'a sys_scheme \<Rightarrow> bool" where
  "handed_to im i s s' \<longleftrightarrow> sched_inv (Run i) s' \<and> (\<exists>b. lock_state s' [Ptable_lock] b) \<and> scan im i s = resume i s'
    \<and> konts s' = konts s \<and> ptable s' = (ptable s)[i := (ptable s ! i)\<lparr>state := RUNNING\<rparr>]
    \<and> cr3 s' = V2P (pgdir (ptable s ! i)) \<and> esp0 (ts (this_cpu s')) = kstack (ptable s ! i) + KSTACK_SIZE
    \<and> ss0 (ts (this_cpu s')) = KER_DS \<and> ram s' = ram s \<and> freelist s' = freelist s \<and> kpgdir s' = kpgdir s
    \<and> (\<forall>b. lock_state s [Ptable_lock] b \<longrightarrow> lock_state s' [Ptable_lock] b)"

lemma scan_runnable:
  assumes "sched_inv (Scan i) s" "i < MAX_PROC" "state (ptable s ! i) = RUNNABLE"
  shows "\<exists>s'. handed_to im i s s'"
proof -
  have ok: "sys_ok s" "cpu_id s = 0" and r: "running_only None s" using assms(1) by (auto simp: sched_inv_def sys_ok_def)
  obtain b where l: "lock_state s [Ptable_lock] b" using assms(1) by (auto simp: sched_inv_def)
  let ?s1 = "set_cpu0 (\<lambda>c. c\<lparr>cur_proc := Some i\<rparr>) s"
  obtain f where f: "switch_uvm im (Some i) ?s1 = Inr (lcr3 (V2P (pgdir (ptable s ! i))) (set_cpu f ?s1))"
      "\<forall>c. ncli (f c) = ncli c \<and> intena (f c) = intena c \<and> cur_proc (f c) = cur_proc c
        \<and> esp0 (ts (f c)) = kstack (ptable s ! i) + KSTACK_SIZE \<and> ss0 (ts (f c)) = KER_DS"
    using switch_uvm_state [of ?s1 i im] ok(1) assms(2,3) by auto
  let ?s2 = "lcr3 (V2P (pgdir (ptable s ! i))) (set_cpu f ?s1)"
  let ?s3 = "set_proc i (\<lambda>p. p\<lparr>state := RUNNING\<rparr>) ?s2\<lparr>sched_pos := i\<rparr>"
  have s2: "sys_ok ?s2" "running_only None ?s2" "lock_state ?s2 [Ptable_lock] b" "cur ?s2 = Some i"
    "ptable ?s2 = ptable s" "konts ?s2 = konts s" "cr3 ?s2 = V2P (pgdir (ptable s ! i))" "ram ?s2 = ram s \<and> freelist ?s2 = freelist s \<and> kpgdir ?s2 = kpgdir s"
    "esp0 (ts (this_cpu ?s2)) = kstack (ptable s ! i) + KSTACK_SIZE" "ss0 (ts (this_cpu ?s2)) = KER_DS"
    using ok l r f(2) by (simp_all add: lcr3_def) (simp_all add: set_cpu_def c_cpu_def set_cpu0_def)
  have "proc_ok ((ptable s ! i)\<lparr>state := RUNNING\<rparr>)" using ok(1) assms(2,3) by (auto simp: sys_ok_def proc_ok_def)
  then have "sys_ok ?s3" "running_only (Some i) ?s3"
    using sys_ok_set_proc [OF s2(1) assms(2)] running_set_proc [OF s2(1) assms(2) s2(2), of "\<lambda>p. p\<lparr>state := RUNNING\<rparr>"] s2(5)
    by simp_all
  moreover have "cur ?s3 = Some i" "lock_state ?s3 [Ptable_lock] b" using s2(3,4) by simp_all
  ultimately have "sched_inv (Run i) ?s3" "lock_state ?s3 [Ptable_lock] b"
    using assms(2) by (auto intro!: run_invI [where hs = "[Ptable_lock]" and b = b])
  moreover have "scan im i s = resume i ?s3" using f(1) assms(2,3) by (simp add: scan_def)
  moreover have "ptable ?s3 = (ptable s)[i := (ptable s ! i)\<lparr>state := RUNNING\<rparr>]" using s2(5) by (simp add: set_proc_def)
  moreover have "cr3 ?s3 = cr3 ?s2" "ram ?s3 = ram ?s2" "freelist ?s3 = freelist ?s2" "kpgdir ?s3 = kpgdir ?s2" "this_cpu ?s3 = this_cpu ?s2" "konts ?s3 = konts ?s2"
    by (simp_all add: set_proc_def c_cpu_def)
  moreover have "lock_state ?s3 [Ptable_lock] b'" if "lock_state s [Ptable_lock] b'" for b' using that f(2) by (simp add: lcr3_def)
  ultimately show ?thesis unfolding handed_to_def using s2(6-10) by (intro exI [of _ ?s3]) auto
qed

lemma top_step:
  assumes "sched_inv Sched_top s"
  shows "\<exists>s'. sched_top s = Inr (Scan 0, s') \<and> sched_inv (Scan 0) s' \<and> ptable s' = ptable s
    \<and> konts s' = konts s \<and> lock_state s' [Ptable_lock] True"
proof -
  obtain b where b: "lock_state s [] b" using assms by (auto simp: sched_inv_def)
  then have l: "lock_state (sti s) [] True" by (simp add: lock_state_def)
  obtain s1 where s1: "acquire Ptable_lock (sti s) = Inr s1" "lock_state s1 [Ptable_lock] True" "erase s1 = erase (sti s)"
    using acquire_sys [OF l, of Ptable_lock] by auto
  then show ?thesis using assms erase_inv [of s1 s] by (auto simp: sched_top_def sched_inv_def)
qed

lemma scan_step:
  assumes "sched_inv (Scan i) s"
  shows "(if i < MAX_PROC then
      (if state (ptable s ! i) = RUNNABLE
       then \<exists>th s'. scan im i s = Inr (th, s') \<and> sched_inv th s' \<and> th \<in> {Run i, Back i} \<and> (\<forall>j. j \<noteq> i \<longrightarrow> ptable s' ! j = ptable s ! j)
       else scan im i s = Inr (Scan (i + 1), s) \<and> sched_inv (Scan (i + 1)) s)
    else \<exists>s'. scan im i s = Inr (Sched_top, s') \<and> sched_inv Sched_top s' \<and> ptable s' = ptable s)"
proof -
  obtain b where b: "lock_state s [Ptable_lock] b" using assms by (auto simp: sched_inv_def)
  consider "i < MAX_PROC" "state (ptable s ! i) = RUNNABLE" | "i < MAX_PROC" "state (ptable s ! i) \<noteq> RUNNABLE" | "\<not> i < MAX_PROC"
    by blast
  then show ?thesis
  proof cases
    case 1
    obtain s1 where s1: "handed_to im i s s1" using scan_runnable [OF assms 1] by blast
    then obtain b' where "sched_inv (Run i) s1" "lock_state s1 [Ptable_lock] b'" by (auto simp: handed_to_def)
    from resume_state [OF this] show ?thesis using 1 s1 by (auto simp: handed_to_def)
  next
    case 2
    then show ?thesis using assms by (simp add: scan_def sched_inv_def)
  next
    case 3
    obtain s1 where s1: "release Ptable_lock s = Inr s1" "lock_state s1 [] b" "erase s1 = erase s"
      using release_sys [OF b, of Ptable_lock] by auto
    then show ?thesis using 3 assms erase_inv [OF s1(3)] by (auto simp: scan_def sched_inv_def)
  qed
qed

lemma back_step:
  assumes "sched_inv (Back i) s"
  shows "\<exists>s'. sched_back i s = Inr (Scan (i + 1), s') \<and> sched_inv (Scan (i + 1)) s' \<and> ptable s' = ptable s"
proof -
  obtain b where b: "sys_ok s" "running_only None s" "lock_state s [Ptable_lock] b" using assms by (auto simp: sched_inv_def)
  obtain d where d: "with_ports (serial_printf back_text []) s = Inr (s\<lparr>ports := d\<rparr>)" "uart_ready d"
    using with_ports_text [OF b(1) printf_text_plain [OF texts_plain(2)]] by auto
  let ?s = "set_cpu0 (\<lambda>c. c\<lparr>cur_proc := None\<rparr>) (switch_kvm (s\<lparr>ports := d\<rparr>))"
  have "cpu_id s = 0" using b(1) by (simp add: sys_ok_def)
  then have "sys_ok ?s" "running_only None ?s" "lock_state ?s [Ptable_lock] b" "cur ?s = None" "ptable ?s = ptable s"
    using b d(2) by (simp_all add: switch_kvm_def lcr3_def)
  then have "sched_inv (Scan (i + 1)) ?s" "ptable ?s = ptable s" unfolding sched_inv_def by auto
  then show ?thesis using d(1) by (simp add: sched_back_def)
qed

lemma held_eq: "lock_state s hs b \<Longrightarrow> held s = set hs"
  by (auto simp: held_def lock_state_def)

lemma held_single: "lock_state s hs b \<Longrightarrow> held s = {l} \<Longrightarrow> hs = [l]"
  using held_eq [of s hs b] by (auto simp: lock_state_def dest!: distinct_card [symmetric]) (cases hs; auto)

lemma held_none: "lock_state s hs b \<Longrightarrow> held s = {} \<Longrightarrow> hs = []"
  using held_eq by fastforce

definition others_kept :: "nat \<Rightarrow> call \<Rightarrow> 'a sys_scheme \<Rightarrow> 'a sys_scheme \<Rightarrow> bool" where
  "others_kept i c s s' \<longleftrightarrow> (\<forall>j < MAX_PROC. j \<noteq> i \<longrightarrow> ptable s' ! j = ptable s ! j
     \<or> c = Wakeup (chan (ptable s ! j)) \<and> state (ptable s ! j) = SLEEPING \<and> ptable s' ! j = (ptable s ! j)\<lparr>state := RUNNABLE\<rparr>)"

lemma lock_state_init_lock:
  assumes "lock_state s hs b" "l \<notin> set hs"
  shows "lock_state (init_lock l nm s) hs b"
  using assms by (auto simp: lock_state_def init_lock_def)

lemma init_sleeplock_state:
  assumes "sched_inv (Run i) s" "lock_state s hs b" "Lock_at a \<notin> set hs"
  shows "sched_inv (Run i) (init_sleeplock a nm s)" "ptable (init_sleeplock a nm s) = ptable s"
proof -
  let ?s1 = "init_lock (Lock_at a) ''sleep lock'' s"
  have l: "lock_state ?s1 hs b" by (rule lock_state_init_lock [OF assms(2,3)])
  have "erase ?s1 = erase s" by (simp add: init_lock_def)
  note i1 = sched_inv_erase [OF assms(1) this l]
  show "sched_inv (Run i) (init_sleeplock a nm s)" unfolding init_sleeplock_def
    using run_invD [OF i1] l by (intro run_invI [where hs = hs and b = b]) simp_all
  show "ptable (init_sleeplock a nm s) = ptable s"
    by (simp add: init_sleeplock_def set_sleeplock_def)
qed

lemma call_step:
  assumes "sched_inv (Run i) s" "legal_call c s"
  shows "\<exists>th s'. do_call i c s = Inr (th, s') \<and> sched_inv th s' \<and> th \<in> {Run i, Back i} \<and> others_kept i c s s'"
proof -
  obtain hs b where l: "lock_state s hs b" using assms(1) by (auto simp: sched_inv_def)
  note hd = held_eq [OF l]
  have n: "length hs < 2147483640" using assms(2) l by (auto simp: legal_call_def lock_state_def)
  have n': "length hs < 2147483645" using n by simp
  note i = run_invD [OF assms(1)]
  have pos: "sched_inv (Back i) s' \<Longrightarrow> sched_pos s' = i" for s' :: "'a sys_scheme" by (simp add: sched_inv_def)
  have keep: "ptable s' = (ptable s)[i := p] \<Longrightarrow> others_kept i c s s'" for s' :: "'a sys_scheme" and p
    by (simp add: others_kept_def)
  have same: "ptable s' = ptable s \<Longrightarrow> others_kept i c s s'" for s' :: "'a sys_scheme"
    by (simp add: others_kept_def)
  have lockop: "erase s' = erase s \<Longrightarrow> lock_state s' hs' b \<Longrightarrow> sched_inv (Run i) s' \<and> others_kept i c s s'" for s' :: "'a sys_scheme" and hs'
    using sched_inv_erase [OF assms(1)] erase_inv(7) [of s' s] same by auto
  show ?thesis
  proof (cases c)
    case Yield
    then have "lock_state s [] b" using assms(2) held_none [OF l] l by (auto simp: legal_call_def)
    from yield_state [OF assms(1) this] show ?thesis using Yield keep pos by (fastforce simp: do_call_def)
  next
    case (Sleep ch lk)
    then obtain k where k: "lk = Some k" "held s = {k}" using assms(2) by (auto simp: legal_call_def split: option.splits)
    then have "lock_state s [k] b" using held_single [OF l] l by auto
    from sleep_state [OF assms(1) this, of After_sleep ch] show ?thesis using Sleep k keep pos by (fastforce simp: do_call_def)
  next
    case (Wakeup ch)
    then have "Ptable_lock \<notin> set hs" using assms(2) hd by (simp add: legal_call_def)
    from wakeup_state [OF assms(1) l this n, of ch] show ?thesis
      using Wakeup i(1) by (auto simp: do_call_def others_kept_def sys_ok_def)
  next
    case (Acquire k)
    then have "k \<notin> set hs" using assms(2) hd by (simp add: legal_call_def)
    from acquire_state [OF l this n'] show ?thesis using Acquire lockop by (auto simp: do_call_def)
  next
    case (Release k)
    then have "k \<in> set hs" using assms(2) hd by (simp add: legal_call_def)
    from release_state [OF l this n'] show ?thesis using Release lockop by (auto simp: do_call_def)
  next
    case (Acquire_sleep a)
    then have l0: "lock_state s [] b" using assms(2) held_none [OF l] l by (auto simp: legal_call_def)
    obtain s1 where s1: "acquire (Lock_at a) s = Inr s1" "lock_state s1 [Lock_at a] b" "erase s1 = erase s"
      using acquire_sys [OF l0, of "Lock_at a"] by auto
    show ?thesis using acquire_sleep_loop_state [OF sched_inv_erase [OF assms(1) s1(3,2)] s1(2)] s1(1) Acquire_sleep
        erase_inv(7) [OF s1(3)] by (auto simp: do_call_def acquire_sleep_def others_kept_def)
  next
    case (Init_sleeplock a nm)
    then have "Lock_at a \<notin> set hs" using assms(2) hd by (simp add: legal_call_def)
    then show ?thesis using init_sleeplock_state [OF assms(1) l] Init_sleeplock same by (simp add: do_call_def)
  next
    case Cli
    then have "lock_state s [] b" using assms(2) held_none [OF l] l by (auto simp: legal_call_def)
    then have "lock_state (cli s) [] False" by (simp add: lock_state_def)
    then show ?thesis using run_invI [of "cli s" i "[]" False] i same [of "cli s"] Cli
      by (auto simp: do_call_def)
  next
    case Sti
    then have "lock_state s [] b" using assms(2) held_none [OF l] l by (auto simp: legal_call_def)
    then have "lock_state (sti s) [] True" by (simp add: lock_state_def)
    then show ?thesis using run_invI [of "sti s" i "[]" True] i same [of "sti s"] Sti
      by (auto simp: do_call_def)
  qed
qed

lemma kstep_safe:
  assumes "sched_inv th s" "kstep im (th, s) r"
  shows "\<exists>th' s'. r = Inr (th', s') \<and> sched_inv th' s'"
  using assms(2)
proof (cases rule: kstep.cases)
  case Top
  then show ?thesis using top_step [of s] assms(1) by fastforce
next
  case (Scan i)
  then show ?thesis using scan_step [of i s im] assms(1) by (auto split: if_splits)
next
  case (Back i)
  then show ?thesis using back_step [of i s] assms(1) by fastforce
next
  case (Call c i)
  then show ?thesis using call_step assms(1) by blast
qed

lemma ksteps_inv:
  "ksteps im c c' \<Longrightarrow> sched_inv (fst c) (snd c) \<Longrightarrow> sched_inv (fst c') (snd c')"
proof (induction rule: ksteps.induct)
  case (Step c c' c'')
  then show ?case using kstep_safe [of "fst c'" "snd c'" im "Inr c''"] by auto
qed simp

subsection \<open>Waiting for a turn\<close>

text \<open>\<open>turns j th\<close> bounds the switches until process \<open>j\<close> is offered the processor. A step either
  offers it to \<open>j\<close>, or leaves \<open>j\<close> RUNNABLE and lowers the bound, or is a step of the process
  that runs now.\<close>

definition turns_from :: "nat \<Rightarrow> nat \<Rightarrow> nat" where
  "turns_from j i = (if i \<le> j then 3 * (j - i) else 3 * (MAX_PROC - i) + 2 + 3 * j)"

primrec turns :: "nat \<Rightarrow> thread \<Rightarrow> nat" where
  "turns j Sched_top = 3 * j + 1"
| "turns j (Scan i) = turns_from j i"
| "turns j (Back i) = turns_from j (i + 1) + 1"
| "turns j (Run i) = turns_from j (i + 1) + 2"

lemma turns_le:
  assumes "j < MAX_PROC"
  shows "turns j th \<le> 6 * MAX_PROC + 4"
proof -
  have "turns_from j i \<le> 6 * MAX_PROC + 2" for i using assms unfolding turns_from_def by (auto simp: MAX_PROC_def)
  then have le: "turns_from j i + 2 \<le> 6 * MAX_PROC + 4" for i using add_le_mono1 [of "turns_from j i" "6 * MAX_PROC + 2" 2] by simp
  show ?thesis
  proof (cases th)
    case (Scan i)
    then show ?thesis using le [of i] by simp
  next
    case (Back i)
    then show ?thesis using le [of "i + 1"] by simp
  next
    case (Run i)
    then show ?thesis using le [of "i + 1"] by simp
  qed (use assms in simp)
qed

lemma turns_scan: "i < MAX_PROC \<Longrightarrow> i \<noteq> j \<Longrightarrow> turns_from j (i + 1) + 3 = turns_from j i"
  by (auto simp: turns_from_def)

lemma turn_step:
  assumes "sched_inv th s" "kstep im (th, s) (Inr (th', s'))" "j < MAX_PROC" "state (ptable s ! j) = RUNNABLE" "th \<noteq> Scan j"
  shows "state (ptable s' ! j) = RUNNABLE \<and> (th' = th \<or> turns j th' < turns j th)"
  using assms(2)
proof (cases rule: kstep.cases)
  case Top
  then show ?thesis using top_step [of s] assms(1,3,4) by (auto simp: turns_from_def)
next
  case (Scan i)
  show ?thesis
  proof (cases "i < MAX_PROC")
    case True
    note t = turns_scan [OF True, of j]
    show ?thesis using Scan scan_step [of i s im] assms(1,4,5) True t by (auto split: if_splits)
  next
    case False
    then have "turns j Sched_top < turns_from j i" using assms(3) by (auto simp: turns_from_def)
    then show ?thesis using Scan scan_step [of i s im] assms(1,4) False by auto
  qed
next
  case (Back i)
  then show ?thesis using back_step [of i s] assms(1,4) by auto
next
  case (Call c i)
  then have i: "sched_inv (Run i) s" using assms(1) by simp
  have "i \<noteq> j" using run_invD(6) [OF i] assms(4) by auto
  then show ?thesis using call_step [OF i Call(3)] Call assms(3,4) by (auto simp: others_kept_def)
qed

text \<open>\<open>waiting im j c n c'\<close>: from \<open>c\<close> to \<open>c'\<close> in \<open>n\<close> changes of thread, none of which
  is the scheduler's look at entry \<open>j\<close>.\<close>

inductive waiting :: "image \<Rightarrow> nat \<Rightarrow> thread \<times> 'a sys_scheme \<Rightarrow> nat \<Rightarrow> thread \<times> 'a sys_scheme \<Rightarrow> bool"
  for im j c where
  Start: "waiting im j c 0 c"
| Move: "waiting im j c n (th, s) \<Longrightarrow> th \<noteq> Scan j \<Longrightarrow> kstep im (th, s) (Inr (th', s')) \<Longrightarrow>
    waiting im j c (if th' = th then n else Suc n) (th', s')"

lemma waiting_turns:
  "waiting im j c n c' \<Longrightarrow> sched_inv (fst c) (snd c) \<Longrightarrow> j < MAX_PROC \<Longrightarrow> state (ptable (snd c) ! j) = RUNNABLE \<Longrightarrow>
    sched_inv (fst c') (snd c') \<and> state (ptable (snd c') ! j) = RUNNABLE \<and> n + turns j (fst c') \<le> turns j (fst c)"
proof (induction rule: waiting.induct)
  case (Move n th s th' s')
  then have IH: "sched_inv th s" "state (ptable s ! j) = RUNNABLE" "n + turns j th \<le> turns j (fst c)" by auto
  show ?case using turn_step [OF IH(1) Move.hyps(3) Move.prems(2) IH(2) Move.hyps(2)] kstep_safe [OF IH(1) Move.hyps(3)] IH(3)
    by auto
qed simp

subsection \<open>Properties\<close>

text \<open>The state in which \<^verbatim>\<open>launch_first_proc\<close> is called: no lock held, no process running.\<close>

definition can_launch :: "'a sys_scheme \<Rightarrow> bool" where
  "can_launch s \<longleftrightarrow> sys_ok s \<and> running_only None s \<and> (\<exists>b. lock_state s [] b)"

lemma launch_inv: "can_launch s \<Longrightarrow> sched_inv (fst (launch_first_proc s)) (snd (launch_first_proc s))"
  by (auto simp: can_launch_def sched_inv_def launch_first_proc_def sys_ok_def
      intro: lock_state_simps(11) [THEN iffD2])

definition example_sys :: sys where
  "example_sys = \<lparr>ram = \<lambda>_. 0, freelist = 0, k_maps = [], kpgdir = 0x80400000, cr3 = 0x400000,
     ports = ports idle_machine, eflags = 0x202, cpus = cpus idle_machine, cpu_id = 0, locks = locks idle_machine,
     ptable = (replicate MAX_PROC empty_proc)[3 := empty_proc\<lparr>state := RUNNABLE, pgdir := 0x80500000, kstack := 0x80600000\<rparr>,
       5 := empty_proc\<lparr>state := SLEEPING, pgdir := 0x80501000, kstack := 0x80601000, chan := 7\<rparr>],
     proc_first = Some 3, next_pid = 3, fork_first = True,
     konts = (\<lambda>_. Fork_ret)(5 := After_sleep Ide_lock 1), sched_pos = 0,
     sleeplocks = \<lambda>_. \<lparr>sl_locked = 0, sl_name = [], sl_pid = 0\<rparr>\<rparr>"

lemma example_table:
  "i < MAX_PROC \<Longrightarrow> ptable example_sys ! i = (if i = 5 then empty_proc\<lparr>state := SLEEPING, pgdir := 0x80501000, kstack := 0x80601000, chan := 7\<rparr>
     else if i = 3 then empty_proc\<lparr>state := RUNNABLE, pgdir := 0x80500000, kstack := 0x80600000\<rparr> else empty_proc)"
  by (simp add: example_sys_def nth_list_update MAX_PROC_def)

lemma example_launch: "can_launch example_sys"
proof -
  have "lock_state example_sys [] True" "uart_ready (ports example_sys)" "cpu_id example_sys = 0" "length (ptable example_sys) = MAX_PROC"
    by (simp_all add: lock_state_def example_sys_def idle_machine_def if_on_def FL_IF_def c_cpu_def uart_ready_def)
  then show ?thesis
    by (auto simp: can_launch_def sys_ok_def running_only_def example_table proc_ok_def empty_proc_def)
qed

text \<open>Process 3 of it in the kernel, with interrupts on and no lock held.\<close>

definition example_running :: sys where
  "example_running = (set_proc 3 (\<lambda>p. p\<lparr>state := RUNNING\<rparr>) example_sys)
     \<lparr>sched_pos := 3, cpus := (\<lambda>i. (cpus example_sys i)\<lparr>cur_proc := Some 3\<rparr>)\<rparr>"

lemma example_run: "sched_inv (Run 3) example_running" "lock_state example_running [] True"
proof -
  have t: "i < MAX_PROC \<Longrightarrow> ptable example_running ! i = (if i = 3 then (ptable example_sys ! 3)\<lparr>state := RUNNING\<rparr> else ptable example_sys ! i)" for i
    by (simp add: example_running_def set_proc_def example_sys_def MAX_PROC_def)
  show l: "lock_state example_running [] True"
    by (simp add: lock_state_def example_running_def example_sys_def idle_machine_def if_on_def FL_IF_def c_cpu_def set_proc_def)
  have "uart_ready (ports example_running)" "cpu_id example_running = 0" "length (ptable example_running) = MAX_PROC"
      "cur example_running = Some 3" "sched_pos example_running = 3"
    by (simp_all add: example_running_def example_sys_def idle_machine_def c_cpu_def uart_ready_def cur_def set_proc_def)
  moreover have "3 < MAX_PROC" by (simp add: MAX_PROC_def)
  ultimately show "sched_inv (Run 3) example_running"
    using l by (intro run_invI) (auto simp: sys_ok_def running_only_def t example_table proc_ok_def empty_proc_def)
qed

text \<open>C3: the kernel never stops: from the call of launch_first_proc, whatever the processes call
  within the locking discipline, no step of the scheduler, of yield, sleep, wakeup, the sleep locks or the
  spin locks panics, hangs or is undefined; in every reachable state the one process whose state is
  RUNNING is the one that runs, and the scheduler works with interrupts off and exactly the lock of the
  process table held.\<close>

theorem scheduler_never_stops:
  assumes "can_launch s" "ksteps im (launch_first_proc s) (th, s')"
  shows "(\<forall>r. kstep im (th, s') r \<longrightarrow> (\<exists>c. r = Inr c))
    \<and> (\<forall>i < MAX_PROC. state (ptable s' ! i) = RUNNING \<longleftrightarrow> th = Run i)
    \<and> (case th of Sched_top \<Rightarrow> held s' = {} | Run i \<Rightarrow> cur s' = Some i
       | _ \<Rightarrow> held s' = {Ptable_lock} \<and> ncli (this_cpu s') = 1 \<and> \<not> if_on s')"
proof -
  have i: "sched_inv th s'" using ksteps_inv [OF assms(2) launch_inv [OF assms(1)]] by simp
  have locks_of: "lock_state s' [] b \<Longrightarrow> held s' = {}"
    "lock_state s' [Ptable_lock] b \<Longrightarrow> held s' = {Ptable_lock} \<and> ncli (this_cpu s') = 1 \<and> \<not> if_on s'" for b
    using held_eq [of s' "[]" b] held_eq [of s' "[Ptable_lock]" b] unfolding lock_state_def by simp_all
  have "case th of Sched_top \<Rightarrow> held s' = {} | Run i \<Rightarrow> cur s' = Some i
       | _ \<Rightarrow> held s' = {Ptable_lock} \<and> ncli (this_cpu s') = 1 \<and> \<not> if_on s'"
    using i locks_of by (cases th) (auto simp: sched_inv_def)
  moreover have "\<forall>i < MAX_PROC. state (ptable s' ! i) = RUNNING \<longleftrightarrow> th = Run i"
    using i by (cases th) (auto simp: sched_inv_def running_only_def)
  ultimately show ?thesis using kstep_safe [OF i] by blast
qed

theorem scheduler_never_stops_witness:
  "\<exists>s'. ksteps example_image (launch_first_proc example_sys) (Scan 0, s') \<and> held s' = {Ptable_lock} \<and> \<not> if_on s'"
proof -
  let ?c = "launch_first_proc example_sys"
  obtain s' where "sched_top (snd ?c) = Inr (Scan 0, s')"
    using top_step launch_inv [OF example_launch] by (fastforce simp: launch_first_proc_def)
  then have "ksteps example_image ?c (Scan 0, s')"
    using ksteps.Step [OF ksteps.Refl, of example_image ?c "(Scan 0, s')"] kstep.Top [of example_image "snd ?c"]
    by (simp add: launch_first_proc_def)
  then show ?thesis using scheduler_never_stops [OF example_launch, of example_image "Scan 0" s'] by (intro exI [of _ s']) simp
qed

text \<open>C7: no process starves: a RUNNABLE process is offered the processor after at most 388 changes of
  thread, whatever the other processes do, and stays RUNNABLE until then; when the scheduler comes to it,
  it gets the processor.\<close>

theorem runnable_gets_turn:
  assumes "can_launch s" "ksteps im (launch_first_proc s) c" "j < MAX_PROC" "state (ptable (snd c) ! j) = RUNNABLE"
    and "waiting im j c n c'"
  shows "n \<le> 388 \<and> state (ptable (snd c') ! j) = RUNNABLE
    \<and> (fst c' = Scan j \<longrightarrow> (\<exists>s'. handed_to im j (snd c') s' \<and> kstep im c' (resume j s')))"
proof -
  have i: "sched_inv (fst c) (snd c)" using ksteps_inv [OF assms(2) launch_inv [OF assms(1)]] .
  note w = waiting_turns [OF assms(5) i assms(3,4)]
  have "\<exists>s'. handed_to im j (snd c') s' \<and> kstep im c' (resume j s')" if f: "fst c' = Scan j"
  proof -
    obtain s' where s': "handed_to im j (snd c') s'"
      using scan_runnable [of j "snd c'" im] w unfolding f using assms(3) by blast
    then have "scan im j (snd c') = resume j s'" by (simp add: handed_to_def)
    then show ?thesis using s' kstep.Scan [of im j "snd c'"] f by (intro exI [of _ s']) (metis prod.collapse)
  qed
  then show ?thesis using w turns_le [OF assms(3), of "fst c"] by (simp add: MAX_PROC_def)
qed

theorem runnable_gets_turn_witness:
  "\<exists>n c'. waiting example_image 3 (launch_first_proc example_sys) n c' \<and> 0 < n \<and> n \<le> 388
    \<and> state (ptable (snd c') ! 3) = RUNNABLE"
proof -
  let ?c = "launch_first_proc example_sys"
  have c: "?c = (Sched_top, snd ?c)" by (simp add: launch_first_proc_def)
  obtain s' where s': "sched_top (snd ?c) = Inr (Scan 0, s')"
    using top_step launch_inv [OF example_launch] by (fastforce simp: launch_first_proc_def)
  then have "kstep example_image (Sched_top, snd ?c) (Inr (Scan 0, s'))" using kstep.Top [of example_image "snd ?c"] by simp
  then have w: "waiting example_image 3 ?c (if Scan 0 = Sched_top then 0 else Suc 0) (Scan 0, s')"
    using waiting.Move [of example_image 3 ?c 0 Sched_top "snd ?c" "Scan 0" s'] waiting.Start [of example_image 3 ?c]
    unfolding c [symmetric] by simp
  have r: "state (ptable (snd ?c) ! 3) = RUNNABLE"
    by (simp add: launch_first_proc_def set_cpu0_def example_table MAX_PROC_def)
  have "3 < MAX_PROC" by (simp add: MAX_PROC_def)
  from runnable_gets_turn [OF example_launch ksteps.Refl this r w] show ?thesis using w
    by (intro exI [of _ "Suc 0"] exI [of _ "(Scan 0, s')"]) simp
qed

text \<open>C28: a sleeping process is woken only by a wakeup on its channel: in every step of the system it
  stays as it is, or the running process calls wakeup with that channel and it becomes RUNNABLE; and a
  wakeup leaves nobody asleep on its channel and changes no other process.\<close>

theorem only_wakeup_wakes:
  assumes "can_launch s" "ksteps im (launch_first_proc s) (th, s1)" "kstep im (th, s1) (Inr (th', s2))"
    and "j < MAX_PROC" "state (ptable s1 ! j) = SLEEPING"
  shows "ptable s2 ! j = ptable s1 ! j \<or> (\<exists>i. th = Run i \<and> do_call i (Wakeup (chan (ptable s1 ! j))) s1 = Inr (th', s2)
      \<and> th' = Run i \<and> ptable s2 = map (\<lambda>p. if state p = SLEEPING \<and> chan p = chan (ptable s1 ! j) then p\<lparr>state := RUNNABLE\<rparr> else p) (ptable s1))"
proof -
  have i: "sched_inv th s1" using ksteps_inv [OF assms(2) launch_inv [OF assms(1)]] by simp
  show ?thesis using assms(3)
  proof (cases rule: kstep.cases)
    case Top
    then show ?thesis using top_step [of s1] i by auto
  next
    case (Scan k)
    have "k \<noteq> j" if "state (ptable s1 ! k) = RUNNABLE" using that assms(5) by auto
    then show ?thesis using Scan scan_step [of k s1 im] i by (auto split: if_splits)
  next
    case (Back k)
    then show ?thesis using back_step [of k s1] i by auto
  next
    case (Call c k)
    then have r: "sched_inv (Run k) s1" using i by simp
    have "k \<noteq> j" using run_invD(6) [OF r] assms(5) by auto
    then consider "ptable s2 ! j = ptable s1 ! j" | "c = Wakeup (chan (ptable s1 ! j))"
      using call_step [OF r Call(3)] Call assms(4) by (auto simp: others_kept_def)
    then show ?thesis
    proof cases
      case 2
      obtain hs b where l: "lock_state s1 hs b" using run_invD(7) [OF r] by blast
      have "Ptable_lock \<notin> set hs" "length hs < 2147483640"
        using Call(3) 2 held_eq [OF l] l by (auto simp: legal_call_def lock_state_def)
      from wakeup_state [OF r l this, of "chan (ptable s1 ! j)"] show ?thesis using Call 2 by (auto simp: do_call_def)
    qed simp
  qed
qed

theorem only_wakeup_wakes_witness:
  "\<exists>s'. kstep example_image (launch_first_proc example_sys) (Inr (Scan 0, s'))
    \<and> state (ptable s' ! 5) = SLEEPING \<and> chan (ptable s' ! 5) = 7"
proof -
  define s where "s = snd (launch_first_proc example_sys)"
  have c: "launch_first_proc example_sys = (Sched_top, s)" by (simp add: s_def launch_first_proc_def)
  obtain s' where s': "sched_top s = Inr (Scan 0, s')"
    using top_step launch_inv [OF example_launch] by (fastforce simp: c)
  then have k: "kstep example_image (Sched_top, s) (Inr (Scan 0, s'))" using kstep.Top [of example_image s] by simp
  have e: "state (ptable s ! 5) = SLEEPING" "chan (ptable s ! 5) = 7"
    by (simp_all add: s_def launch_first_proc_def set_cpu0_def example_table MAX_PROC_def)
  have "ksteps example_image (launch_first_proc example_sys) (Sched_top, s)" unfolding c by (rule ksteps.Refl)
  from only_wakeup_wakes [OF example_launch this k _ e(1)] have "ptable s' ! 5 = ptable s ! 5" by (simp add: MAX_PROC_def)
  then show ?thesis using k e unfolding c by (intro exI [of _ s']) simp
qed

text \<open>giving up the processor outside the discipline panics: with a spin lock held, yield panics in
  sched, and so does sleep when it is given one of two held locks; sched itself panics without the lock of
  the process table; sleep panics without a process or without a lock.\<close>

theorem sched_misuse:
  assumes "lock_state s (l # hs) b" "length hs < 2147483640" "cur s = Some i" "i < length (ptable s)"
    and "Ptable_lock \<notin> set (l # hs)"
  shows "yield s = panic ''sched locks'' \<and> sched k s = panic ''sched ptable.lock''
    \<and> sleep k2 ch None s = panic ''sleep without lock'' \<and> yield (set_cpu (\<lambda>c. c\<lparr>cur_proc := None\<rparr>) s) = Inl (Undef ''null process'')
    \<and> (hs \<noteq> [] \<longrightarrow> sleep k2 ch (Some l) s = panic ''sched locks'')"
proof -
  have c: "cur_proc (this_cpu s) = Some i" using assms(3) by (simp add: cur_def)
  obtain s1 where s1: "acquire Ptable_lock s = Inr s1" "lock_state s1 (Ptable_lock # l # hs) b" "erase s1 = erase s"
    using acquire_sys [OF assms(1), of Ptable_lock] assms(2,5) by auto
  have c1: "cur_proc (this_cpu s1) = Some i" using erase_inv(3) [OF s1(3)] assms(3) by (simp add: cur_def)
  have bad: "sched k s' = panic ''sched locks''" if "lock_state s' (Ptable_lock # hs') b" "hs' \<noteq> []" "length hs' < 2147483643"
    for s' :: "'a sys_scheme" and hs' k using sched_with_locks [OF that(1)] that(2,3) by simp
  have "lock_state (set_proc i (\<lambda>p. p\<lparr>state := RUNNABLE\<rparr>) s1) (Ptable_lock # l # hs) b" using s1(2) by simp
  from bad [OF this] have "yield s = panic ''sched locks''" unfolding yield_def s1(1) using c1 assms(2) by simp
  moreover have "sched k s = panic ''sched ptable.lock''"
    using sched_without_lock [OF assms(1) _ assms(5)] assms(2) by simp
  moreover have "sleep k2 ch (Some l) s = panic ''sched locks''" if ne: "hs \<noteq> []"
  proof -
    have n: "l \<noteq> Ptable_lock" using assms(5) by auto
    have "remove1 l (Ptable_lock # l # hs) = Ptable_lock # hs" "length (Ptable_lock # l # hs) < 2147483645" using n assms(2) by simp_all
    then obtain s2 where s2: "release l s1 = Inr s2" "lock_state s2 (Ptable_lock # hs) b"
      using release_state [OF s1(2), of l] by (metis list.set_intros)
    have "lock_state (set_proc i (\<lambda>p. p\<lparr>chan := ch, state := SLEEPING\<rparr>) s2) (Ptable_lock # hs) b" using s2(2) by simp
    from bad [OF this] ne show ?thesis unfolding sleep_def c option.case s1(1) using n s2(1) assms(2) by simp
  qed
  moreover have "yield (set_cpu (\<lambda>c. c\<lparr>cur_proc := None\<rparr>) s) = Inl (Undef ''null process'')"
  proof -
    let ?s = "set_cpu (\<lambda>c. c\<lparr>cur_proc := None\<rparr>) s"
    have l: "lock_state ?s (l # hs) b" using assms(1) by simp
    obtain s3 where "acquire Ptable_lock ?s = Inr s3" "erase s3 = erase ?s"
      using acquire_sys [OF l, of Ptable_lock] assms(2,5) by auto
    then show ?thesis using erase_inv(3) [of s3 ?s] by (simp add: yield_def cur_def)
  qed
  ultimately show ?thesis using c by (simp add: sleep_def)
qed

theorem sched_misuse_witness:
  "\<exists>s. acquire Ide_lock example_running = Inr s \<and> yield s = panic ''sched locks''"
proof -
  obtain s where s: "acquire Ide_lock example_running = Inr s" "lock_state s [Ide_lock] True" "erase s = erase example_running"
    using acquire_sys [OF example_run(2), of Ide_lock] by auto
  have "cur s = Some 3" "ptable s = ptable example_running"
    using erase_inv(3,7) [OF s(3)] run_invD(2) [OF example_run(1)] by simp_all
  then have "yield s = panic ''sched locks''"
    using sched_misuse [OF s(2), of 3] by (simp add: example_running_def example_sys_def MAX_PROC_def)
  then show ?thesis using s(1) by blast
qed

text \<open>acquire_sleep takes a free sleep lock and leaves no spin lock held; while the lock is taken,
  it puts the process to sleep on the lock's address, with the guarding spin lock given up.\<close>

theorem acquire_sleep_takes_or_sleeps:
  assumes "sched_inv (Run i) s" "lock_state s [] b"
  shows "(sl_locked (sleeplocks s a) = 0 \<longrightarrow> (\<exists>s'. acquire_sleep i a s = Inr (Run i, s') \<and> lock_state s' [] b
      \<and> sl_locked (sleeplocks s' a) = 1 \<and> (\<forall>a'. a' \<noteq> a \<longrightarrow> sleeplocks s' a' = sleeplocks s a')))
    \<and> (sl_locked (sleeplocks s a) \<noteq> 0 \<longrightarrow> (\<exists>s'. acquire_sleep i a s = Inr (Back i, s') \<and> held s' = {Ptable_lock}
      \<and> state (ptable s' ! i) = SLEEPING \<and> chan (ptable s' ! i) = a \<and> (\<exists>ie. konts s' i = After_lock_sleep a ie)))"
proof -
  obtain s1 where s1: "acquire (Lock_at a) s = Inr s1" "lock_state s1 [Lock_at a] b" "erase s1 = erase s"
    using acquire_sys [OF assms(2), of "Lock_at a"] by auto
  have i1: "sched_inv (Run i) s1" using sched_inv_erase [OF assms(1) s1(3,2)] .
  have sl: "sleeplocks s1 = sleeplocks s" using erase_inv(6) [OF s1(3)] .
  have "\<exists>s'. acquire_sleep i a s = Inr (Run i, s') \<and> lock_state s' [] b
      \<and> sl_locked (sleeplocks s' a) = 1 \<and> (\<forall>a'. a' \<noteq> a \<longrightarrow> sleeplocks s' a' = sleeplocks s a')" if free: "sl_locked (sleeplocks s a) = 0"
  proof -
    let ?s2 = "set_sleeplock a (\<lambda>l. l\<lparr>sl_locked := 1, sl_pid := cpu_pid (this_cpu s1)\<rparr>) s1"
    have l: "lock_state ?s2 [Lock_at a] b" using s1(2) by simp
    obtain s3 where s3: "release (Lock_at a) ?s2 = Inr s3" "lock_state s3 [] b" "erase s3 = erase ?s2"
      using release_sys [OF l, of "Lock_at a"] by auto
    show ?thesis using s1(1) s3 free sl erase_inv(6) [OF s3(3)]
      by (simp add: acquire_sleep_def acquire_sleep_loop_def set_sleeplock_def)
  qed
  moreover have "\<exists>s'. acquire_sleep i a s = Inr (Back i, s') \<and> held s' = {Ptable_lock}
      \<and> state (ptable s' ! i) = SLEEPING \<and> chan (ptable s' ! i) = a \<and> (\<exists>ie. konts s' i = After_lock_sleep a ie)"
    if taken: "sl_locked (sleeplocks s a) \<noteq> 0"
  proof -
    obtain s2 ie where s2: "sleep (\<lambda>_. After_lock_sleep a) a (Some (Lock_at a)) s1 = Inr s2" "sched_inv (Back i) s2"
        "konts s2 = (konts s1)(i := After_lock_sleep a ie)" "ptable s2 = (ptable s1)[i := (ptable s1 ! i)\<lparr>chan := a, state := SLEEPING\<rparr>]"
      using sleep_state [OF i1 s1(2), of "\<lambda>_. After_lock_sleep a" a] by blast
    have "i < length (ptable s1)" using run_invD(1,3) [OF i1] by (simp add: sys_ok_def)
    moreover have "sched_pos s2 = i" "held s2 = {Ptable_lock}" using s2(2) held_eq [of s2 "[Ptable_lock]"] by (auto simp: sched_inv_def)
    ultimately show ?thesis using s1(1) s2 taken sl by (simp add: acquire_sleep_def acquire_sleep_loop_def)
  qed
  ultimately show ?thesis by blast
qed

theorem acquire_sleep_takes_or_sleeps_witness:
  "\<exists>s'. acquire_sleep 3 0x80200000 example_running = Inr (Run 3, s') \<and> sl_locked (sleeplocks s' 0x80200000) = 1"
proof -
  have "sl_locked (sleeplocks example_running 0x80200000) = 0" by (simp add: example_running_def example_sys_def)
  then show ?thesis using acquire_sleep_takes_or_sleeps [OF example_run, of "0x80200000"] by blast
qed

text \<open>The machine before \<^verbatim>\<open>init_user\<close>: an empty table, no lock taken, no process, a pool of pages.\<close>

definition booted :: "'a sys_scheme \<Rightarrow> bool" where
  "booted s \<longleftrightarrow> cpu_id s = 0 \<and> length (ptable s) = MAX_PROC \<and> uart_ready (ports s)
    \<and> (\<forall>i < MAX_PROC. state (ptable s ! i) = UNUSED) \<and> (\<exists>b. lock_state s [] b) \<and> (\<forall>i. konts s i = Fork_ret)"

lemma init_user_can_launch:
  assumes b: "booted s" and pool: "free_pages s (k # xs)" "67 \<le> length xs"
    and kd: "kdata_ok kdata" "k_maps s = kernel_maps kdata" and code: "code_outside im (insert k (set xs))"
  shows "\<exists>s'. init_user im s = Inr s' \<and> can_launch s' \<and> konts s' 0 = Fork_ret \<and> proc_first s' = Some 0
    \<and> state (ptable s' ! 0) = RUNNABLE \<and> kstack (ptable s' ! 0) = k \<and> same_cpu s s'
    \<and> (\<forall>j. j \<noteq> 0 \<longrightarrow> ptable s' ! j = ptable s ! j) \<and> konts s' = konts s
    \<and> (\<exists>y. user_space kdata (set xs) s' (pgdir (ptable s' ! 0)) y)"
proof -
  have tab: "length (ptable s) = MAX_PROC" "0 < MAX_PROC" "state (ptable s ! 0) = UNUSED" "\<forall>j < 0. state (ptable s ! j) \<noteq> UNUSED"
    using b by (simp_all add: booted_def MAX_PROC_def)
  obtain s' pg y where s': "init_user im s = Inr s'" "proc_first s' = Some 0"
      "ptable s' = (ptable s)[0 := (ptable s ! 0)\<lparr>state := RUNNABLE, pid := next_pid s, psize := PGSIZE, pgdir := pg,
          tf := k + 4 * 1005, ctx := k + 4 * 999, pname := strncpy_array ''initcode'' 16, kstack := k\<rparr>]"
      "pg \<noteq> 0" "locks s' = locks (init_lock Ptable_lock ''ptable'' s)" "same_cpu s s'" "user_space kdata (set xs) s' pg y"
    using init_user_state [OF pool kd tab code] by blast
  have k: "k \<noteq> 0" using free_pages_frames [OF pool(1), of k] by simp
  have p: "ptable s' ! i = (if i = 0 then (ptable s ! 0)\<lparr>state := RUNNABLE, pid := next_pid s, psize := PGSIZE, pgdir := pg,
          tf := k + 4 * 1005, ctx := k + 4 * 999, pname := strncpy_array ''initcode'' 16, kstack := k\<rparr> else ptable s ! i)" for i
    using tab s'(3) by simp
  have "sys_ok s'" using b s'(3,6) k s'(4) p by (auto simp: sys_ok_def booted_def same_cpu_def proc_ok_def)
  moreover have "running_only None s'" using b p by (auto simp: running_only_def booted_def)
  moreover obtain ie where "lock_state s [] ie" using b by (auto simp: booted_def)
  then have "lock_state (init_lock Ptable_lock ''ptable'' s) [] ie" by (rule lock_state_init_lock) simp
  then have "lock_state s' [] ie" using s'(5,6)
    by (subst lock_state_cong [of _ "init_lock Ptable_lock ''ptable'' s"]) (simp_all add: same_cpu_def init_lock_def set_lock_def c_cpu_def)
  ultimately have "can_launch s'" by (auto simp: can_launch_def)
  moreover have "konts s' = konts s" using s'(6) by (cases s; cases s'; simp add: same_cpu_def)
  moreover have "\<exists>y. user_space kdata (set xs) s' (pgdir (ptable s' ! 0)) y" using s'(7) p by auto
  ultimately show ?thesis using s'(1,2,6) p b by (intro exI [of _ s']) (simp add: booted_def)
qed

text \<open>from boot to the first process: with an empty table and a pool of at least 68 pages, init_user
  followed by the scheduler hands the processor, in the scheduler's second step, to the new process: its
  page directory is loaded, the task segment names the top of its kernel stack, it is the only process
  RUNNING, and what it runs is fork_ret.\<close>

theorem boot_hands_over:
  assumes "booted s" "free_pages s (k # xs)" "67 \<le> length xs" "kdata_ok kdata" "k_maps s = kernel_maps kdata"
    and "code_outside im (insert k (set xs))"
  shows "\<exists>s1 s2 s3. init_user im s = Inr s1 \<and> ksteps im (launch_first_proc s1) (Scan 0, s2) \<and> kstep im (Scan 0, s2) (resume 0 s3)
    \<and> cr3 s3 = V2P (pgdir (ptable s1 ! 0)) \<and> esp0 (ts (this_cpu s3)) = k + 4096 \<and> ss0 (ts (this_cpu s3)) = KER_DS
    \<and> cur s3 = Some 0 \<and> running_only (Some 0) s3 \<and> konts s3 0 = Fork_ret
    \<and> (\<exists>s4. resume 0 s3 = Inr (Run 0, s4))"
proof -
  obtain s1 where s1: "init_user im s = Inr s1" "can_launch s1" "konts s1 0 = Fork_ret" "state (ptable s1 ! 0) = RUNNABLE"
      "kstack (ptable s1 ! 0) = k"
    using init_user_can_launch [OF assms] by blast
  define s0 where "s0 = snd (launch_first_proc s1)"
  have c: "launch_first_proc s1 = (Sched_top, s0)" "ptable s0 = ptable s1" "konts s0 = konts s1"
    by (simp_all add: s0_def launch_first_proc_def)
  have i0: "sched_inv Sched_top s0" using launch_inv [OF s1(2)] c(1) by simp
  then obtain b where "lock_state s0 [] b" by (auto simp: sched_inv_def)
  then have "lock_state (sti s0) [] True" by (simp add: lock_state_def)
  from acquire_state [OF this, of Ptable_lock]
  obtain s2 where s2: "acquire Ptable_lock (sti s0) = Inr s2" "erase s2 = erase s0" by auto
  have k2: "kstep im (launch_first_proc s1) (Inr (Scan 0, s2))"
    using kstep.Top [of im s0] s2(1) c(1) by (simp add: sched_top_def)
  have i2: "sched_inv (Scan 0) s2" using kstep_safe [OF i0, of im "Inr (Scan 0, s2)"] k2 c(1) by simp
  have e2: "ptable s2 = ptable s1" "konts s2 = konts s1"
    using erase_inv(5,7) [OF s2(2)] c(2,3) by simp_all
  obtain s3 where s3: "handed_to im 0 s2 s3" using scan_runnable [OF i2, of im] s1(4) e2(1) by (auto simp: MAX_PROC_def)
  then have f3: "konts s3 0 = Fork_ret" "sched_inv (Run 0) s3" "scan im 0 s2 = resume 0 s3" using s1(3) e2 by (simp_all add: handed_to_def)
  obtain b' where b': "lock_state s3 [Ptable_lock] b'" using s3 by (auto simp: handed_to_def)
  obtain s4 where "fork_ret_body s3 = Inr s4" using fork_ret_state [OF f3(2) b'] by blast
  then have "resume 0 s3 = Inr (Run 0, s4)" using f3(1) by (simp add: resume_def)
  then show ?thesis
    using s1(1,5) ksteps.Step [OF ksteps.Refl k2] kstep.Scan [of im 0 s2] s3 f3 e2(1) run_invD [OF f3(2)]
    by (intro exI [of _ s1] exI [of _ s2] exI [of _ s3]) (auto simp: handed_to_def KSTACK_SIZE_def)
qed

definition example_boot :: sys where
  "example_boot = \<lparr>ram = ram example_pool, freelist = freelist example_pool, k_maps = kernel_maps 0x80110000,
     kpgdir = 0, cr3 = 0, ports = ports idle_machine, eflags = 0x202, cpus = cpus idle_machine, cpu_id = 0,
     locks = locks idle_machine, ptable = replicate MAX_PROC empty_proc, proc_first = None, next_pid = 1, fork_first = True,
     konts = (\<lambda>_. Fork_ret), sched_pos = 0, sleeplocks = \<lambda>_. \<lparr>sl_locked = 0, sl_name = [], sl_pid = 0\<rparr>\<rparr>"

theorem boot_hands_over_witness:
  "\<exists>s1 s2 (s3 :: sys). init_user example_image example_boot = Inr s1 \<and> kstep example_image (Scan 0, s2) (resume 0 s3)
    \<and> cur s3 = Some 0 \<and> esp0 (ts (this_cpu s3)) = 0x80444000"
proof -
  have l: "lock_state example_boot [] True"
    by (simp add: lock_state_def example_boot_def idle_machine_def if_on_def FL_IF_def c_cpu_def)
  have b: "booted example_boot" unfolding booted_def
    by (intro conjI exI [of _ True] l) (simp_all add: example_boot_def empty_proc_def idle_machine_def uart_ready_def)
  have "free_pages example_boot (0x80443000 # example_xs)"
    using example_facts(1) by (simp add: free_pages_def example_kernel_def example_boot_def)
  moreover have "k_maps example_boot = kernel_maps 0x80110000" by (simp add: example_boot_def)
  ultimately obtain s1 s2 and s3 :: sys where "init_user example_image example_boot = Inr s1" "kstep example_image (Scan 0, s2) (resume 0 s3)"
      "cur s3 = Some 0" "esp0 (ts (this_cpu s3)) = 0x80443000 + 4096"
    using boot_hands_over [OF b _ example_facts(2,3) _ example_facts(9)] by blast
  then show ?thesis by (intro exI [of _ s1] exI [of _ s2] exI [of _ s3]) simp
qed

end
