(* ===== verification/Syscall.thy ===== *)
theory Syscall
  imports Sched
begin

section \<open>System calls\<close>

text \<open>
  \<^verbatim>\<open>kernel/sys/syscall.c\<close> and \<^verbatim>\<open>kernel/sys/sysfile.c\<close>. The arguments are words of the
  trap frame at \<open>frame\<close>, the result goes back into its \<^verbatim>\<open>eax\<close>, and \<open>th\<close> is the
  thread the trap came from. Reading \<^verbatim>\<open>ofile\<close> outside
  its 16 entries and following a null file pointer have no meaning in C and are \<open>Undef\<close>. The bodies of
  \<^verbatim>\<open>sys_open\<close>, \<^verbatim>\<open>sys_read\<close> and \<^verbatim>\<open>extract_filename\<close> are commented out in the source
  and are here what is left of them.
\<close>

definition SYS_EXIT :: u32 where "SYS_EXIT = 2"
definition SYS_READ :: u32 where "SYS_READ = 5"
definition SYS_OPEN :: u32 where "SYS_OPEN = 15"
definition SYS_WRITE :: u32 where "SYS_WRITE = 16"
definition O_CREAT :: u32 where "O_CREAT = 0x200"
definition OFILE_NUM :: nat where "OFILE_NUM = 16"

lemmas syscall_numbers = SYS_EXIT_def SYS_READ_def SYS_OPEN_def SYS_WRITE_def

definition text_valid_file :: "u8 list" where
  "text_valid_file = lit ([CHR 0xE6, CHR 0x9C, CHR 0x89, CHR 0xE6, CHR 0x95, CHR 0x88, CHR 0xE6, CHR 0x96, CHR 0x87, CHR 0xE4, CHR
     0xBB, CHR 0xB6, CHR 0xEF, CHR 0xBC, CHR 0x8C, CHR 0xE6, CHR 0x96, CHR 0x87, CHR 0xE4, CHR 0xBB, CHR 0xB6,
     CHR 0xE4, CHR 0xBF, CHR 0xA1, CHR 0xE6, CHR 0x81, CHR 0xAF] @ '':'' @ [CHR 0x0A])"

definition text_syscall :: "u8 list" where
  "text_syscall = lit ([CHR 0xE7, CHR 0xB3, CHR 0xBB, CHR 0xE7, CHR 0xBB, CHR 0x9F, CHR 0xE8, CHR 0xB0, CHR 0x83, CHR 0xE7, CHR
     0x94, CHR 0xA8, CHR 0xE5, CHR 0x8F, CHR 0xB7, CHR 0xE4, CHR 0xB8, CHR 0xBA] @ '': %d'' @ [CHR 0x0A])"

definition text_unknown :: "u8 list" where
  "text_unknown = lit ([CHR 0xE6, CHR 0x9C, CHR 0xAA, CHR 0xE7, CHR 0x9F, CHR 0xA5, CHR 0xE7, CHR 0xB3, CHR 0xBB, CHR 0xE7, CHR
     0xBB, CHR 0x9F, CHR 0xE8, CHR 0xB0, CHR 0x83, CHR 0xE7, CHR 0x94, CHR 0xA8] @ '': %d'' @ [CHR 0x0A])"

definition extract_filename :: "u32 \<Rightarrow> u32 \<Rightarrow> u32" where
  "extract_filename path file_name = file_name"

text \<open>The first field of \<^verbatim>\<open>struct file\<close> is its reference count.\<close>

definition sys_write :: "int \<Rightarrow> u32 \<Rightarrow> u32 \<Rightarrow> 'a sys_scheme \<Rightarrow> (u32 \<times> 'a sys_scheme) res" where
  "sys_write fd buf count s =
     (case cur_proc (this_cpu s) of None \<Rightarrow> Inl (Undef ''null process'')
      | Some i \<Rightarrow>
          if fd < 0 \<or> fd \<ge> int OFILE_NUM then Inl (Undef ''ofile index'')
          else (let f = ofile (ptable s ! i) ! nat fd
                in if f = 0 then Inl (Undef ''null file'')
                   else if load32 (ram s) f = 0 then Inr (- 1, s)
                   else bindR (with_ports (serial_printf text_valid_file []) s) (\<lambda>s1. Inr (count, s1))))"

definition sys_open :: "u32 \<Rightarrow> u32 \<Rightarrow> u32" where
  "sys_open path mode = (let fd = - 1 in if mode AND O_CREAT \<noteq> 0 then fd else fd)"

definition sys_read :: "int \<Rightarrow> u32 \<Rightarrow> u32 \<Rightarrow> u32" where
  "sys_read fd buf count = - 1"

definition syscall_handlers :: "thread \<Rightarrow> u32 \<Rightarrow> 'a sys_scheme \<Rightarrow> (thread \<times> 'a sys_scheme) res" where
  "syscall_handlers th frame s =
     (let syscall_num = load32 (ram s) (frame + tf_eax);
          arg1 = load32 (ram s) (frame + tf_ebx);
          arg2 = load32 (ram s) (frame + tf_ecx);
          arg3 = load32 (ram s) (frame + tf_edx)
      in bindR (with_ports (serial_printf text_syscall [Word syscall_num]) s) (\<lambda>s1.
           if syscall_num = SYS_EXIT then
             (case cur_proc (this_cpu s1) of None \<Rightarrow> Inl (Undef ''null process'')
              | Some p \<Rightarrow> bindR (sched (After_exit frame) (set_proc p (\<lambda>q. q\<lparr>state := ZOMBIE\<rparr>) s1))
                  (\<lambda>s2. Inr (Back (sched_pos s2), s2)))
           else bindR (if syscall_num = SYS_WRITE then sys_write (sint arg1) arg2 arg3 s1
                       else if syscall_num = SYS_OPEN then Inr (sys_open arg1 arg2, s1)
                       else if syscall_num = SYS_READ then Inr (sys_read (sint arg1) arg2 arg3, s1)
                       else bindR (with_ports (serial_printf text_unknown [Word syscall_num]) s1) (\<lambda>s2. Inr (- 1, s2)))
                (\<lambda>(ret, s2). Inr (th, s2\<lparr>ram := store32 (ram s2) (frame + tf_eax) ret\<rparr>))))"

subsection \<open>What a call leaves behind\<close>

text \<open>\<open>says s t s'\<close>: \<open>s'\<close> is \<open>s\<close> after the bytes \<open>t\<close> on the serial line.\<close>

definition says :: "'a machine_scheme \<Rightarrow> u8 list \<Rightarrow> 'a machine_scheme \<Rightarrow> bool" where
  "says s t s' \<longleftrightarrow> (\<exists>d. s' = s\<lparr>ports := d\<rparr> \<and> uart_ready d \<and> uart_sends (ports s) t d)"

lemma say_step:
  assumes "sys_ok s" "printf_text fmt args = Some t"
  shows "\<exists>s'. with_ports (serial_printf fmt args) s = Inr s' \<and> says s t s'"
proof -
  have "uart_ready (ports s)" using assms(1) by (simp add: sys_ok_def)
  from serial_printf_step [OF this assms(2)]
  obtain d where "serial_printf fmt args (ports s) = Inr d" "uart_ready d" "uart_sends (ports s) t d" .
  then show ?thesis by (auto simp: with_ports_def says_def)
qed

lemma sched_inv_same:
  assumes "sched_inv th s" "sys_ok s'" "cur s' = cur s" "sched_pos s' = sched_pos s"
    and "\<And>r. running_only r s' = running_only r s" "\<And>hs b. lock_state s' hs b = lock_state s hs b"
  shows "sched_inv th s'"
proof -
  have "lock_state s' = lock_state s" using assms(6) by (simp add: fun_eq_iff)
  then show ?thesis using assms(1-5) by (cases th) (auto simp: sched_inv_def)
qed

lemma sched_inv_ok: "sched_inv th s \<Longrightarrow> sys_ok s"
  by (simp add: sched_inv_def)

lemma says_inv:
  assumes "says s t s'" "sched_inv th s"
  shows "sched_inv th s'"
proof -
  obtain d where "s' = s\<lparr>ports := d\<rparr>" "uart_ready d" using assms(1) by (auto simp: says_def)
  then show ?thesis using sched_inv_ok [OF assms(2)] by (intro sched_inv_same [OF assms(2)]) simp_all
qed

lemma says_simps:
  assumes "says s t s'"
  shows "ram s' = ram s" "ptable s' = ptable s" "cur s' = cur s" "sys_ok s \<Longrightarrow> sys_ok s'" "lock_state s' hs b = lock_state s hs b"
    "sent (ports s') = sent (ports s) @ t" "p \<noteq> 0x3F8 \<Longrightarrow> written p (trace (ports s')) = written p (trace (ports s))"
    "this_cpu s' = this_cpu s"
  using assms by (auto simp: says_def uart_sends_def c_cpu_def)

lemma says_trans: "says s t s1 \<Longrightarrow> says s1 u s2 \<Longrightarrow> says s (t @ u) s2"
  using uart.eff_trans by (fastforce simp: says_def)

lemma text_syscall_printed:
  "printf_text text_syscall [Word n] = Some (take (length text_syscall - 3) text_syscall @ int_text (sint n) @ [10])"
  "printf_text text_unknown [Word n] = Some (take (length text_unknown - 3) text_unknown @ int_text (sint n) @ [10])"
  by (simp_all add: text_syscall_def text_unknown_def takes_arg_def)

lemma text_valid_plain: "37 \<notin> set text_valid_file"
  by (simp add: text_valid_file_def)

text \<open>Storing a result keeps the invariant.\<close>

lemma store_inv: "sched_inv th s \<Longrightarrow> sched_inv th (s\<lparr>ram := m\<rparr>)"
  by (rule sched_inv_same) (simp_all add: sched_inv_ok)

text \<open>A call that is neither exit nor write says what it has to and leaves -1 in the frame.\<close>

lemma failing_says:
  assumes "sched_inv (Run i) s" "load32 (ram s) (frame + tf_eax) \<notin> {SYS_EXIT, SYS_WRITE}"
  shows "\<exists>s3 v. says s v s3 \<and> syscall_handlers (Run i) frame s = Inr (Run i, s3\<lparr>ram := store32 (ram s3) (frame + tf_eax) (- 1)\<rparr>)"
proof -
  let ?n = "load32 (ram s) (frame + tf_eax)"
  obtain s1 t where s1: "with_ports (serial_printf text_syscall [Word ?n]) s = Inr s1" "says s t s1"
    using say_step [OF sched_inv_ok [OF assms(1)] text_syscall_printed(1)] by blast
  note i1 = says_inv [OF s1(2) assms(1)]
  obtain s2 u where s2: "with_ports (serial_printf text_unknown [Word ?n]) s1 = Inr s2" "says s1 u s2"
    using say_step [OF sched_inv_ok [OF i1] text_syscall_printed(2)] by blast
  show ?thesis
  proof (cases "?n \<in> {SYS_OPEN, SYS_READ}")
    case True
    then show ?thesis using s1 assms(2)
      by (intro exI [of _ s1] exI [of _ t]) (auto simp: syscall_handlers_def Let_def syscall_numbers sys_open_def sys_read_def)
  next
    case False
    then show ?thesis using s1 s2 assms(2) says_trans [OF s1(2) s2(2)]
      by (intro exI [of _ s2] exI [of _ "t @ u"]) (simp add: syscall_handlers_def Let_def)
  qed
qed

lemma failing_call:
  assumes "sched_inv (Run i) s" "load32 (ram s) (frame + tf_eax) \<notin> {SYS_EXIT, SYS_WRITE}"
  shows "\<exists>s'. syscall_handlers (Run i) frame s = Inr (Run i, s') \<and> ram s' = store32 (ram s) (frame + tf_eax) (- 1)
    \<and> sched_inv (Run i) s' \<and> ptable s' = ptable s \<and> this_cpu s' = this_cpu s
    \<and> (\<forall>hs b. lock_state s' hs b = lock_state s hs b)
    \<and> (\<forall>p. p \<noteq> 0x3F8 \<longrightarrow> written p (trace (ports s')) = written p (trace (ports s)))"
proof -
  obtain s3 v where s3: "says s v s3" "syscall_handlers (Run i) frame s = Inr (Run i, s3\<lparr>ram := store32 (ram s3) (frame + tf_eax) (- 1)\<rparr>)"
    using failing_says [OF assms] by blast
  then show ?thesis
    using says_simps [OF s3(1)] store_inv [OF says_inv [OF s3(1) assms(1)]]
    by (intro exI [of _ "s3\<lparr>ram := store32 (ram s3) (frame + tf_eax) (- 1)\<rparr>"]) (simp add: c_cpu_def)
qed

text \<open>Write either reaches a null file or says what it has to.\<close>

lemma write_says:
  assumes "sched_inv (Run i) s"
  shows "(\<exists>w. sys_write fd buf count s = Inl (Undef w)) \<or> (\<exists>r v s'. sys_write fd buf count s = Inr (r, s') \<and> says s v s')"
proof -
  have c: "cur_proc (this_cpu s) = Some i" using run_invD(2) [OF assms] by (simp add: cur_def)
  obtain s1 where s1: "with_ports (serial_printf text_valid_file []) s = Inr s1" "says s text_valid_file s1"
    using say_step [OF sched_inv_ok [OF assms] printf_text_plain [OF text_valid_plain]] by blast
  have "says s [] s" unfolding says_def
    using sched_inv_ok [OF assms] uart.eff_refl [of "ports s"] by (intro exI [of _ "ports s"]) (simp add: sys_ok_def)
  then show ?thesis using c s1 by (auto simp: sys_write_def Let_def)
qed

lemma exit_call:
  assumes "sched_inv (Run i) s" "lock_state s [] b" "load32 (ram s) (frame + tf_eax) = SYS_EXIT"
  shows "syscall_handlers (Run i) frame s = panic ''sched ptable.lock''"
proof -
  obtain s1 where s1: "with_ports (serial_printf text_syscall [Word SYS_EXIT]) s = Inr s1" "says s (take (length text_syscall - 3) text_syscall @ int_text (sint SYS_EXIT) @ [10]) s1"
    using say_step [OF sched_inv_ok [OF assms(1)] text_syscall_printed(1)] by blast
  have c: "cur_proc (this_cpu s1) = Some i" using says_simps(3) [OF s1(2)] run_invD(2) [OF assms(1)] by (simp add: cur_def)
  have "lock_state (set_proc i (\<lambda>q. q\<lparr>state := ZOMBIE\<rparr>) s1) [] b" using assms(2) says_simps(5) [OF s1(2)] by simp
  then have "sched (After_exit frame) (set_proc i (\<lambda>q. q\<lparr>state := ZOMBIE\<rparr>) s1) = panic ''sched ptable.lock''"
    by (rule sched_without_lock) simp_all
  then show ?thesis using s1(1) assms(3) c by (simp add: syscall_handlers_def Let_def)
qed

subsection \<open>Properties\<close>

text \<open>C34: exit always stops the kernel: for a process in the kernel with no lock held, as at every trap,
  the exit call makes it a zombie and calls sched without the lock of the process table, which panics; the
  process never leaves the processor.\<close>

theorem exit_panics:
  assumes "sched_inv (Run i) s" "lock_state s [] b" "load32 (ram s) (frame + tf_eax) = SYS_EXIT"
  shows "syscall_handlers (Run i) frame s = panic ''sched ptable.lock''"
  by (rule exit_call [OF assms])

theorem exit_panics_witness:
  "syscall_handlers (Run 3) 0x80600FB4 (example_running\<lparr>ram := store32 (\<lambda>_. 0) 0x80600FD0 2\<rparr>) = panic ''sched ptable.lock''"
proof -
  have "lock_state (example_running\<lparr>ram := store32 (\<lambda>_. 0) 0x80600FD0 2\<rparr>) [] True" using example_run(2) by simp
  from exit_panics [OF store_inv [OF example_run(1)] this, of "0x80600FB4"] show ?thesis
    by (simp add: tf_eax_def SYS_EXIT_def)
qed

text \<open>every other call comes back with -1: open, read and every unknown number return to the same
  process with -1 in eax of the frame; no other byte of memory, no process and no lock changes, and only the
  serial line is written to.\<close>

theorem syscalls_fail_cleanly:
  assumes "sched_inv (Run i) s" "load32 (ram s) (frame + tf_eax) \<notin> {SYS_EXIT, SYS_WRITE}"
  shows "\<exists>s'. syscall_handlers (Run i) frame s = Inr (Run i, s') \<and> ram s' = store32 (ram s) (frame + tf_eax) (- 1)
    \<and> sched_inv (Run i) s' \<and> ptable s' = ptable s \<and> this_cpu s' = this_cpu s
    \<and> (\<forall>hs b. lock_state s' hs b = lock_state s hs b)
    \<and> (\<forall>p. p \<noteq> 0x3F8 \<longrightarrow> written p (trace (ports s')) = written p (trace (ports s)))"
  by (rule failing_call [OF assms])

theorem syscalls_fail_cleanly_witness:
  "\<exists>s'. syscall_handlers (Run 3) 0x80600FB4 (example_running\<lparr>ram := store32 (\<lambda>_. 0) 0x80600FD0 5\<rparr>) = Inr (Run 3, s')
    \<and> load32 (ram s') 0x80600FD0 = - 1"
  using syscalls_fail_cleanly [OF store_inv [OF example_run(1)], of "store32 (\<lambda>_. 0) 0x80600FD0 5" "0x80600FB4"]
  by (force simp: tf_eax_def syscall_numbers)

text \<open>write is undefined for every process of this kernel: no code ever stores a file in the table of
  open files, so with its entries null every descriptor leads to a null pointer or past the table; with a
  file in the table, write reports the count, or -1 when nobody holds the file.\<close>

theorem write_needs_file:
  assumes "sched_inv (Run i) s" "length (ofile (ptable s ! i)) = OFILE_NUM"
  shows "((\<forall>f \<in> set (ofile (ptable s ! i)). f = 0) \<longrightarrow> (\<exists>w. sys_write fd buf count s = Inl (Undef w)))
    \<and> (0 \<le> fd \<and> fd < 16 \<and> ofile (ptable s ! i) ! nat fd \<noteq> 0 \<longrightarrow>
        (\<exists>s' r. sys_write fd buf count s = Inr (r, s') \<and> ram s' = ram s \<and> sched_inv (Run i) s'
          \<and> r = (if load32 (ram s) (ofile (ptable s ! i) ! nat fd) = 0 then - 1 else count)))"
proof (intro conjI impI)
  have c: "cur_proc (this_cpu s) = Some i" using run_invD(2) [OF assms(1)] by (simp add: cur_def)
  show "\<exists>w. sys_write fd buf count s = Inl (Undef w)" if z: "\<forall>f \<in> set (ofile (ptable s ! i)). f = 0"
  proof (cases "fd < 0 \<or> fd \<ge> int OFILE_NUM")
    case False
    then have "nat fd < length (ofile (ptable s ! i))" using assms(2) by auto
    then have "ofile (ptable s ! i) ! nat fd = 0" using z nth_mem by blast
    then show ?thesis using False c by (simp add: sys_write_def)
  qed (use c in \<open>simp add: sys_write_def\<close>)
  assume f: "0 \<le> fd \<and> fd < 16 \<and> ofile (ptable s ! i) ! nat fd \<noteq> 0"
  obtain s1 where s1: "with_ports (serial_printf text_valid_file []) s = Inr s1" "says s text_valid_file s1"
    using say_step [OF sched_inv_ok [OF assms(1)] printf_text_plain [OF text_valid_plain]] by blast
  show "\<exists>s' r. sys_write fd buf count s = Inr (r, s') \<and> ram s' = ram s \<and> sched_inv (Run i) s'
          \<and> r = (if load32 (ram s) (ofile (ptable s ! i) ! nat fd) = 0 then - 1 else count)"
    using f c s1 assms(1) says_inv [OF s1(2) assms(1)] says_simps(1) [OF s1(2)]
    by (cases "load32 (ram s) (ofile (ptable s ! i) ! nat fd) = 0") (simp_all add: sys_write_def OFILE_NUM_def Let_def)
qed

theorem write_needs_file_witness:
  "\<exists>w. sys_write 1 0 5 example_running = Inl (Undef w)"
proof -
  have p: "ofile (ptable example_running ! 3) = replicate 16 0"
    by (simp add: example_running_def set_proc_def example_sys_def MAX_PROC_def empty_proc_def)
  show ?thesis using write_needs_file [OF example_run(1), of 1 0 5] by (simp add: p OFILE_NUM_def)
qed

end
