(* ===== verification/Pic.thy ===== *)
theory Pic
  imports Ports
begin

section \<open>The interrupt controllers\<close>

text \<open>
  \<^verbatim>\<open>kernel/drivers/pic.c\<close>: programming of the two 8259A controllers. \<open>mask_of\<close> is the
  abstraction: the mask register of a controller is what was last written to its data port. That a read of
  a data port gives the mask back is documented behaviour of the device and is the hypothesis
  \<open>reads_mask\<close> of the theorems on single interrupt lines.
\<close>

definition PIC1_CMD :: u16 where "PIC1_CMD = 0x20"
definition PIC1_DATA :: u16 where "PIC1_DATA = 0x21"
definition PIC2_CMD :: u16 where "PIC2_CMD = 0xA0"
definition PIC2_DATA :: u16 where "PIC2_DATA = 0xA1"
definition IRQ_KEYBOARD :: u8 where "IRQ_KEYBOARD = 1"
definition IRQ_ATA1 :: u8 where "IRQ_ATA1 = 14"

lemmas pic_ports = PIC1_CMD_def PIC1_DATA_def PIC2_CMD_def PIC2_DATA_def

definition disable_pic :: "io \<Rightarrow> io" where
  "disable_pic d = outb PIC2_DATA 0xFF (outb PIC1_DATA 0xFF d)"

definition init_pic :: "io \<Rightarrow> io" where
  "init_pic d =
     (let d1 = outb PIC2_CMD 0x11 (outb PIC1_CMD 0x11 d);
          d2 = outb PIC2_DATA 0x28 (outb PIC1_DATA 0x20 d1);
          d3 = outb PIC2_DATA 0x02 (outb PIC1_DATA 0x04 d2);
          d4 = outb PIC2_DATA 0x01 (outb PIC1_DATA 0x01 d3)
      in disable_pic d4)"

text \<open>The shift is done on \<^verbatim>\<open>int\<close>; the result is cut to a byte.\<close>

definition enable_irq :: "u8 \<Rightarrow> io \<Rightarrow> io" where
  "enable_irq irq d =
     (let (port, irq') = (if irq < 8 then (PIC1_DATA, irq) else (PIC2_DATA, irq - 8));
          (v, d1) = inb port d;
          value = ucast ((ucast v :: u32) AND NOT (push_bit (unat irq') 1))
      in outb port value d1)"

definition disable_irq :: "u8 \<Rightarrow> io \<Rightarrow> io" where
  "disable_irq irq d =
     (let (port, irq') = (if irq < 8 then (PIC1_DATA, irq) else (PIC2_DATA, irq - 8));
          (v, d1) = inb port d;
          value = ucast ((ucast v :: u32) OR push_bit (unat irq') 1)
      in outb port value d1)"

definition send_eoi :: "u8 \<Rightarrow> io \<Rightarrow> io" where
  "send_eoi irq d = outb PIC1_CMD 0x20 (if irq \<ge> 8 then outb PIC2_CMD 0x20 d else d)"

subsection \<open>Mask registers\<close>

fun last_out :: "u16 \<Rightarrow> io_event list \<Rightarrow> u8" where
  "last_out p [] = 0"
| "last_out p (OutB q v # es) = (if q = p then v else last_out p es)"
| "last_out p (_ # es) = last_out p es"

definition reads_mask :: "io \<Rightarrow> bool" where
  "reads_mask d \<longleftrightarrow> (\<forall>h. ucast (dev d h PIC1_DATA) = last_out PIC1_DATA h \<and> ucast (dev d h PIC2_DATA) = last_out PIC2_DATA h)"

text \<open>Line \<open>n\<close>, 0 to 15, is masked.\<close>

definition masked :: "io \<Rightarrow> nat \<Rightarrow> bool" where
  "masked d n \<longleftrightarrow> (if n < 8 then bit (last_out PIC1_DATA (trace d)) n else bit (last_out PIC2_DATA (trace d)) (n - 8))"

lemma last_out_simps [simp]:
  "last_out p (trace (outb q v d)) = (if q = p then v else last_out p (trace d))"
  "last_out p (trace (snd (inb q d))) = last_out p (trace d)"
  by (simp_all add: trace_simps)

lemma last_out_written: "last_out p h = (if written p h = [] then 0 else last (written p h))"
  by (induction p h rule: last_out.induct) auto

lemma masked_written:
  "written PIC1_DATA (trace d') = written PIC1_DATA (trace d) \<Longrightarrow> written PIC2_DATA (trace d') = written PIC2_DATA (trace d)
    \<Longrightarrow> masked d' n = masked d n"
  by (simp add: masked_def last_out_written)

lemma reads_mask_dev: "dev d' = dev d \<Longrightarrow> reads_mask d' = reads_mask d"
  by (simp add: reads_mask_def)

lemma inb_mask:
  "reads_mask d \<Longrightarrow> fst (inb PIC1_DATA d) = last_out PIC1_DATA (trace d)"
  "reads_mask d \<Longrightarrow> fst (inb PIC2_DATA d) = last_out PIC2_DATA (trace d)"
  by (simp_all add: reads_mask_def inb_def Let_def)

lemma reads_mask_simps [simp]:
  "reads_mask (outb p v d) = reads_mask d" "reads_mask (snd (inb p d)) = reads_mask d"
  by (simp_all add: reads_mask_def)

lemma bit_len8: "bit (v :: u8) k \<Longrightarrow> k < 8"
  using bit_imp_le_length by fastforce

lemma byte_of_word: "ucast (ucast (v :: u8) :: u32) = v"
  by (rule bit_word_eqI) (auto simp: bit_simps)

lemma byte_clear_bit: "n < 8 \<Longrightarrow> bit (ucast ((ucast (v :: u8) :: u32) AND NOT (2 ^ n)) :: u8) k \<longleftrightarrow> bit v k \<and> k \<noteq> n"
  using bit_len8 [of v k] by (auto simp: bit_simps possible_bit_def)

lemma byte_set_bit: "n < 8 \<Longrightarrow> bit (ucast ((ucast (v :: u8) :: u32) OR 2 ^ n) :: u8) k \<longleftrightarrow> bit v k \<or> k = n"
  using bit_len8 [of v k] by (auto simp: bit_simps possible_bit_def)

lemma irq_low: "(irq :: u8) < 8 \<Longrightarrow> unat irq < 8"
  by (simp add: word_less_nat_alt)

lemma irq_high: "(irq :: u8) < 16 \<Longrightarrow> \<not> irq < 8 \<Longrightarrow> 8 \<le> unat irq \<and> unat irq < 16 \<and> unat (irq - 8) = unat irq - 8"
  using unat_sub [of 8 irq] by (simp add: word_less_nat_alt word_le_nat_alt)

lemmas irq_simps = masked_def case_prod_beta Let_def byte_clear_bit byte_set_bit pic_ports

lemma masked_enable:
  assumes "reads_mask d" "irq < 16" "n < 16"
  shows "masked (enable_irq irq d) n \<longleftrightarrow> masked d n \<and> n \<noteq> unat irq"
proof (cases "irq < 8")
  case True
  then show ?thesis using irq_low [OF True] assms(3) inb_mask [OF assms(1)]
    by (auto simp: enable_irq_def irq_simps)
next
  case False
  then show ?thesis using irq_high [OF assms(2) False] assms(3) inb_mask [OF assms(1)]
    by (auto simp: enable_irq_def irq_simps)
qed

lemma masked_disable:
  assumes "reads_mask d" "irq < 16" "n < 16"
  shows "masked (disable_irq irq d) n \<longleftrightarrow> masked d n \<or> n = unat irq"
proof (cases "irq < 8")
  case True
  then show ?thesis using irq_low [OF True] assms(3) inb_mask [OF assms(1)]
    by (auto simp: disable_irq_def irq_simps)
next
  case False
  then show ?thesis using irq_high [OF assms(2) False] assms(3) inb_mask [OF assms(1)]
    by (auto simp: disable_irq_def irq_simps)
qed

lemma reads_mask_irq [simp]: "reads_mask (enable_irq irq d) = reads_mask d" "reads_mask (disable_irq irq d) = reads_mask d"
  by (simp_all add: enable_irq_def disable_irq_def case_prod_beta Let_def)

lemma masked_init: "n < 16 \<Longrightarrow> masked (init_pic d) n"
proof -
  have "bit (255 :: u8) k" if "k < 8" for k
  proof -
    have "bit (mask 8 :: u8) k" using that by (simp add: bit_mask_iff possible_bit_def)
    then show ?thesis by (simp add: mask_eq_exp_minus_1)
  qed
  then show "n < 16 \<Longrightarrow> masked (init_pic d) n"
    by (auto simp: masked_def init_pic_def disable_pic_def Let_def pic_ports)
qed

subsection \<open>Properties\<close>

datatype irq_op = Enable u8 | Disable u8

fun irq_of :: "irq_op \<Rightarrow> u8" where
  "irq_of (Enable i) = i" | "irq_of (Disable i) = i"

fun run_irq :: "irq_op \<Rightarrow> io \<Rightarrow> io" where
  "run_irq (Enable i) d = enable_irq i d" | "run_irq (Disable i) d = disable_irq i d"

fun enabled_after :: "irq_op list \<Rightarrow> nat set" where
  "enabled_after [] = {}"
| "enabled_after (Enable i # ops) = insert (unat i) (enabled_after ops)"
| "enabled_after (Disable i # ops) = enabled_after ops - {unat i}"

text \<open>C35: interrupt lines: init_pic remaps the controllers to vectors 0x20 and 0x28 and masks all
  sixteen lines; after any sequence of enable_irq and disable_irq, exactly the lines whose last operation
  was enable_irq are unmasked.\<close>

theorem irq_lines_follow_ops:
  assumes "reads_mask d" "\<forall>op \<in> set ops. irq_of op < 16"
  shows "(\<forall>n < 16. masked (foldr run_irq ops (init_pic d)) n \<longleftrightarrow> n \<notin> enabled_after ops)
    \<and> written PIC1_CMD (trace (init_pic d)) = written PIC1_CMD (trace d) @ [0x11]
    \<and> written PIC1_DATA (trace (init_pic d)) = written PIC1_DATA (trace d) @ [0x20, 0x04, 0x01, 0xFF]
    \<and> written PIC2_CMD (trace (init_pic d)) = written PIC2_CMD (trace d) @ [0x11]
    \<and> written PIC2_DATA (trace (init_pic d)) = written PIC2_DATA (trace d) @ [0x28, 0x02, 0x01, 0xFF]"
proof (intro conjI)
  have "reads_mask (foldr run_irq ops (init_pic d)) \<and> (\<forall>n < 16. masked (foldr run_irq ops (init_pic d)) n \<longleftrightarrow> n \<notin> enabled_after ops)"
    using assms(2)
  proof (induction ops)
    case Nil
    have "reads_mask (init_pic d)" using assms(1) by (simp add: init_pic_def disable_pic_def Let_def)
    then show ?case by (simp add: masked_init)
  next
    case (Cons op ops)
    then show ?case by (cases op) (auto simp: masked_enable masked_disable)
  qed
  then show "\<forall>n < 16. masked (foldr run_irq ops (init_pic d)) n \<longleftrightarrow> n \<notin> enabled_after ops" by blast
qed (simp_all add: init_pic_def disable_pic_def Let_def pic_ports)

theorem irq_lines_follow_ops_witness:
  "\<not> masked (foldr run_irq [Enable IRQ_KEYBOARD, Disable 14, Enable 14]
     (init_pic \<lparr>dev = \<lambda>h p. ucast (last_out p h), trace = []\<rparr>)) 1"
proof -
  have "reads_mask \<lparr>dev = \<lambda>h p. ucast (last_out p h), trace = []\<rparr>"
    unfolding reads_mask_def by (simp add: byte_of_word)
  from irq_lines_follow_ops [OF this, of "[Enable IRQ_KEYBOARD, Disable 14, Enable 14]"]
  show ?thesis by (simp add: IRQ_KEYBOARD_def del: foldr.simps)
qed

end
