(* ===== verification/Timer.thy ===== *)
theory Timer
  imports Pic Serial
begin

section \<open>The interval timer\<close>

text \<open>
  \<^verbatim>\<open>kernel/drivers/timer.c\<close>. The state of the driver is the counter of ticks; the divisor is
  written to the device in two bytes.
\<close>

definition text_zero_frequency :: "u8 list" where
  "text_zero_frequency = lit (''frequency cannot be zero!'' @ [CHR 0x0A])"
definition text_low_frequency :: "u8 list" where
  "text_low_frequency = lit (''Warning: frequency too low, using minimum frequency'' @ [CHR 0x0A])"
definition text_high_frequency :: "u8 list" where
  "text_high_frequency = lit (''Warning: frequency too high, using maximum frequency'' @ [CHR 0x0A])"
definition text_timer_ready :: "u8 list" where
  "text_timer_ready = lit (''Timer initialized with frequency: %d Hz'' @ [CHR 0x0A])"

lemmas timer_texts = text_zero_frequency_def text_low_frequency_def text_high_frequency_def text_timer_ready_def

definition init_timer :: "u32 \<Rightarrow> io \<Rightarrow> io res" where
  "init_timer frequency d =
     (if frequency = 0 then serial_printf text_zero_frequency [] d
      else (let divisor = 1193180 div frequency
            in bindR (if divisor > 65535 then bindR (serial_printf text_low_frequency [] d) (\<lambda>d. Inr (65535, d))
                      else if divisor < 1 then bindR (serial_printf text_high_frequency [] d) (\<lambda>d. Inr (1, d))
                      else Inr (divisor, d)) (\<lambda>(divisor, d).
                 let d1 = outb 0x43 0x36 d;
                     d2 = outb 0x40 (ucast (divisor AND 0xFF)) d1;
                     d3 = outb 0x40 (ucast (drop_bit 8 divisor AND 0xFF)) d2
                 in serial_printf text_timer_ready [Word frequency] d3)))"

definition timer_handler :: "u32 \<Rightarrow> u32 \<times> io \<Rightarrow> u32 \<times> io" where
  "timer_handler int_no = (\<lambda>(ticks, d). (ticks + 1, send_eoi (ucast int_no) d))"

subsection \<open>The divisor the device gets\<close>

definition divisor_of :: "nat \<Rightarrow> nat" where
  "divisor_of f = (if 1193180 div f > 65535 then 65535 else if 1193180 div f < 1 then 1 else 1193180 div f)"

definition le16 :: "u8 list \<Rightarrow> nat" where
  "le16 bs = unat (bs ! 0) + 256 * unat (bs ! 1)"

lemma ready_text: "printf_text text_timer_ready [Word f] = Some (lit ''Timer initialized with frequency: ''
   @ int_text (sint f) @ lit ('' Hz'' @ [CHR 0x0A]))"
proof -
  have e: "text_timer_ready = lit ''Timer initialized with frequency: '' @ [37, 100] @ lit ('' Hz'' @ [CHR 0x0A])"
    by (simp add: text_timer_ready_def)
  have "37 \<notin> set (lit ''Timer initialized with frequency: '')" "37 \<notin> set (lit ('' Hz'' @ [CHR 0x0A]))" by simp_all
  then show ?thesis unfolding e
    by (subst printf_text_append) (simp_all add: takes_arg_def printf_text_plain)
qed

lemma warnings_plain: "37 \<notin> set text_zero_frequency" "37 \<notin> set text_low_frequency" "37 \<notin> set text_high_frequency"
  by (simp_all add: timer_texts)

lemma two_bytes:
  assumes "unat (v :: u32) < 65536"
  shows "le16 [ucast (v AND 0xFF), ucast (drop_bit 8 v AND 0xFF)] = unat v"
proof -
  have m: "(0xFF :: u32) = mask 8" by (simp add: mask_eq_exp_minus_1)
  have "unat (ucast (v AND 0xFF) :: u8) = unat v mod 256" "unat (ucast (drop_bit 8 v AND 0xFF) :: u8) = unat v div 256 mod 256"
    unfolding m take_bit_eq_mask [symmetric]
    by (simp_all add: unsigned_ucast_eq unsigned_take_bit_eq unsigned_drop_bit_eq take_bit_eq_mod drop_bit_eq_div
        unat_mod unat_div mod_mod_cancel)
  then show ?thesis using assms by (simp add: le16_def)
qed

definition prescaled :: "u32 \<Rightarrow> io \<Rightarrow> (u32 \<times> io) res" where
  "prescaled f d =
     (let divisor = 1193180 div f
      in if divisor > 65535 then bindR (serial_printf text_low_frequency [] d) (\<lambda>d. Inr (65535, d))
         else if divisor < 1 then bindR (serial_printf text_high_frequency [] d) (\<lambda>d. Inr (1, d))
         else Inr (divisor, d))"

lemma prescaled_step:
  assumes "uart_ready d"
  shows "\<exists>v d1 t. prescaled f d = Inr (v, d1) \<and> uart_ready d1 \<and> uart_sends d t d1
    \<and> unat v = divisor_of (unat f) \<and> divisor_of (unat f) < 65536"
proof -
  have dv: "unat (1193180 div f) = 1193180 div unat f" by (simp add: unat_div)
  have c: "(1193180 div f > 65535) = (1193180 div unat f > 65535)" "(1193180 div f < 1) = (1193180 div unat f < 1)"
    by (simp_all add: word_less_nat_alt dv)
  consider "1193180 div f > 65535" | "\<not> 1193180 div f > 65535" "1193180 div f < 1" | "\<not> 1193180 div f > 65535" "\<not> 1193180 div f < 1"
    by blast
  then show ?thesis
  proof cases
    case 1
    obtain d1 where "serial_printf text_low_frequency [] d = Inr d1" "uart_ready d1" "uart_sends d text_low_frequency d1"
      using serial_printf_step [OF assms printf_text_plain [OF warnings_plain(2)]] .
    moreover have "divisor_of (unat f) = 65535" using 1 c(1) by (simp add: divisor_of_def)
    ultimately show ?thesis using 1 by (intro exI [of _ 65535] exI [of _ d1] exI [of _ text_low_frequency]) (simp add: prescaled_def Let_def)
  next
    case 2
    obtain d1 where "serial_printf text_high_frequency [] d = Inr d1" "uart_ready d1" "uart_sends d text_high_frequency d1"
      using serial_printf_step [OF assms printf_text_plain [OF warnings_plain(3)]] .
    moreover have "divisor_of (unat f) = 1" using 2 c by (simp add: divisor_of_def)
    ultimately show ?thesis using 2 by (intro exI [of _ 1] exI [of _ d1] exI [of _ text_high_frequency]) (simp add: prescaled_def Let_def)
  next
    case 3
    then have "divisor_of (unat f) = 1193180 div unat f" "1193180 div unat f < 65536" using c by (auto simp: divisor_of_def)
    then show ?thesis using 3 assms uart.eff_refl dv
      by (intro exI [of _ "1193180 div f"] exI [of _ d] exI [of _ "[]"]) (simp add: prescaled_def Let_def)
  qed
qed

lemma timer_programmed:
  assumes "uart_ready d" "f \<noteq> 0"
  shows "\<exists>d' bs. init_timer f d = Inr d' \<and> dev d' = dev d \<and> written 0x43 (trace d') = written 0x43 (trace d) @ [0x36]
      \<and> written 0x40 (trace d') = written 0x40 (trace d) @ bs \<and> length bs = 2 \<and> le16 bs = divisor_of (unat f)
      \<and> (\<forall>p. p \<notin> {0x3F8, 0x40, 0x43} \<longrightarrow> written p (trace d') = written p (trace d))"
proof -
  obtain v d1 t where v: "prescaled f d = Inr (v, d1)" "uart_ready d1" "uart_sends d t d1"
      "unat v = divisor_of (unat f)" "divisor_of (unat f) < 65536"
    using prescaled_step [OF assms(1)] by blast
  let ?bs = "[ucast (v AND 0xFF), ucast (drop_bit 8 v AND 0xFF)] :: u8 list"
  let ?d = "outb 0x40 (?bs ! 1) (outb 0x40 (?bs ! 0) (outb 0x43 0x36 d1))"
  have "uart_ready ?d" using v(2) by simp
  from serial_printf_step [OF this ready_text [of f]]
  obtain d' t' where d': "serial_printf text_timer_ready [Word f] ?d = Inr d'" "uart_sends ?d t' d'" by blast
  have "init_timer f d = Inr d'"
    using assms(2) v(1) d'(1) by (simp add: init_timer_def prescaled_def Let_def)
  moreover have "le16 ?bs = divisor_of (unat f)" using two_bytes [of v] v(4,5) by simp
  ultimately show "\<exists>d' bs. init_timer f d = Inr d' \<and> dev d' = dev d \<and> written 0x43 (trace d') = written 0x43 (trace d) @ [0x36]
      \<and> written 0x40 (trace d') = written 0x40 (trace d) @ bs \<and> length bs = 2 \<and> le16 bs = divisor_of (unat f)
      \<and> (\<forall>p. p \<notin> {0x3F8, 0x40, 0x43} \<longrightarrow> written p (trace d') = written p (trace d))"
    using v(3) d'(2) by (intro exI [of _ d'] exI [of _ ?bs]) (simp add: uart_sends_def)
qed

subsection \<open>Properties\<close>

text \<open>init_timer programs the divisor: for every nonzero frequency the device gets mode byte 0x36 and
  then, in two bytes, the clock 1193180 divided by the frequency, cut to 1 .. 65535; nothing else is
  written except to the serial line; frequency 0 is refused without touching the device; and each tick
  adds one to the counter and ends the interrupt.\<close>

theorem init_timer_programs_divisor:
  assumes "uart_ready d"
  shows "(f \<noteq> 0 \<longrightarrow> (\<exists>d' bs. init_timer f d = Inr d' \<and> written 0x43 (trace d') = written 0x43 (trace d) @ [0x36]
      \<and> written 0x40 (trace d') = written 0x40 (trace d) @ bs \<and> length bs = 2 \<and> le16 bs = divisor_of (unat f)
      \<and> (\<forall>p. p \<notin> {0x3F8, 0x40, 0x43} \<longrightarrow> written p (trace d') = written p (trace d))))
    \<and> (\<exists>d'. init_timer 0 d = Inr d' \<and> (\<forall>p. p \<noteq> 0x3F8 \<longrightarrow> written p (trace d') = written p (trace d)))"
proof (intro conjI impI)
  assume "f \<noteq> 0"
  then show "\<exists>d' bs. init_timer f d = Inr d' \<and> written 0x43 (trace d') = written 0x43 (trace d) @ [0x36]
      \<and> written 0x40 (trace d') = written 0x40 (trace d) @ bs \<and> length bs = 2 \<and> le16 bs = divisor_of (unat f)
      \<and> (\<forall>p. p \<notin> {0x3F8, 0x40, 0x43} \<longrightarrow> written p (trace d') = written p (trace d))"
    using timer_programmed [OF assms] by blast
next
  obtain d' where "serial_printf text_zero_frequency [] d = Inr d'" "uart_sends d text_zero_frequency d'"
    using serial_printf_step [OF assms printf_text_plain [OF warnings_plain(1)]] .
  then show "\<exists>d'. init_timer 0 d = Inr d' \<and> (\<forall>p. p \<noteq> 0x3F8 \<longrightarrow> written p (trace d') = written p (trace d))"
    by (auto simp: init_timer_def uart_sends_def)
qed

theorem init_timer_programs_divisor_witness:
  "\<exists>d' bs. init_timer 20 \<lparr>dev = \<lambda>_ _. 0x20, trace = []\<rparr> = Inr d' \<and> written 0x40 (trace d') = bs \<and> le16 bs = 59659"
  using init_timer_programs_divisor [of "\<lparr>dev = \<lambda>_ _. 0x20, trace = []\<rparr>" 20]
  by (fastforce simp: uart_ready_def divisor_of_def)

end
