(* ===== verification/Keyboard.thy ===== *)
theory Keyboard
  imports Pic Serial
begin

section \<open>The keyboard\<close>

text \<open>
  \<^verbatim>\<open>kernel/drivers/keyboard.c\<close>. \<open>keys\<close> is the table of the switch statement of
  \<^verbatim>\<open>scancode_to_char\<close>: a scan code and the character it returns.
\<close>

definition keys :: "(u8 \<times> u8) list" where
  "keys = [(0x02, 0x31), (0x03, 0x32), (0x04, 0x33), (0x05, 0x34), (0x06, 0x35), (0x07, 0x36), (0x08, 0x37), (0x09,
     0x38), (0x0A, 0x39), (0x0B, 0x30), (0x10, 0x71), (0x11, 0x77), (0x12, 0x65), (0x13, 0x72), (0x14, 0x74),
     (0x15, 0x79), (0x16, 0x75), (0x17, 0x69), (0x18, 0x6F), (0x19, 0x70), (0x1E, 0x61), (0x1F, 0x73), (0x20,
     0x64), (0x21, 0x66), (0x22, 0x67), (0x23, 0x68), (0x24, 0x6A), (0x25, 0x6B), (0x26, 0x6C), (0x2C, 0x7A),
     (0x2D, 0x78), (0x2E, 0x63), (0x2F, 0x76), (0x30, 0x62), (0x31, 0x6E), (0x32, 0x6D), (0x29, 0x60), (0x0C,
     0x2D), (0x0D, 0x3D), (0x1A, 0x5B), (0x1B, 0x5D), (0x2B, 0x5C), (0x27, 0x3B), (0x28, 0x27), (0x33, 0x2C),
     (0x34, 0x2E), (0x35, 0x2F), (0x39, 0x20), (0x1C, 0x0A), (0x0E, 0x08), (0x01, 0x1B)]"

definition scancode_to_char :: "u8 \<Rightarrow> u8" where
  "scancode_to_char sc = (case map_of keys sc of Some c \<Rightarrow> c | None \<Rightarrow> 0)"

definition text_key :: "u8 list" where
  "text_key = lit ([CHR 0xE6, CHR 0x8C, CHR 0x89, CHR 0xE9, CHR 0x94, CHR 0xAE, CHR 0xE6, CHR 0x8C, CHR 0x89, CHR 0xE4, CHR
     0xB8, CHR 0x8B] @ '':[%c] '' @ [CHR 0xE6, CHR 0x89, CHR 0xAB, CHR 0xE6, CHR 0x8F, CHR 0x8F, CHR 0xE7, CHR
     0xA0, CHR 0x81] @ '':%x'' @ [CHR 0x0A])"

definition text_special :: "u8 list" where
  "text_special = lit ([CHR 0xE7, CHR 0x89, CHR 0xB9, CHR 0xE6, CHR 0xAE, CHR 0x8A, CHR 0xE9, CHR 0x94, CHR 0xAE, CHR 0xE6, CHR
     0x8C, CHR 0x89, CHR 0xE4, CHR 0xB8, CHR 0x8B, CHR 0xEF, CHR 0xBC, CHR 0x8C, CHR 0xE6, CHR 0x89, CHR 0xAB,
     CHR 0xE6, CHR 0x8F, CHR 0x8F, CHR 0xE7, CHR 0xA0, CHR 0x81] @ '':%x'' @ [CHR 0x0A])"

definition keyboard_handler :: "u32 \<Rightarrow> io \<Rightarrow> io res" where
  "keyboard_handler int_no d =
     (let (scancode, d1) = inb 0x60 d
      in bindR (if scancode < 0x80
                then (let c = scancode_to_char scancode
                      in if c \<noteq> 0 then serial_printf text_key [Word (scast c), Word (ucast scancode)] d1
                         else serial_printf text_special [Word (ucast scancode)] d1)
                else Inr d1) (\<lambda>d2. Inr (send_eoi (ucast int_no) d2)))"

subsection \<open>The two messages\<close>

definition key_message :: "u8 \<Rightarrow> u32 \<Rightarrow> u8 list" where
  "key_message c sc = take 14 text_key @ [c] @ drop 16 (take 28 text_key) @ hex_text sc @ [10]"

definition special_message :: "u32 \<Rightarrow> u8 list" where
  "special_message sc = take (length text_special - 3) text_special @ hex_text sc @ [10]"

lemma text_key_printed: "printf_text text_key [Word c, Word sc] = Some (key_message (ucast c) sc)"
  by (simp add: text_key_def key_message_def takes_arg_def)

lemma text_special_printed: "printf_text text_special [Word sc] = Some (special_message sc)"
  by (simp add: text_special_def special_message_def takes_arg_def)

lemma byte_of_int: "ucast (scast (c :: u8) :: u32) = c"
  by (rule bit_word_eqI) (auto simp: bit_simps)

definition key_reaction :: "u8 \<Rightarrow> u8 list" where
  "key_reaction sc = (if sc \<ge> 0x80 then [] else if scancode_to_char sc \<noteq> 0 then key_message (scancode_to_char sc) (ucast sc)
     else special_message (ucast sc))"

lemma react_step:
  assumes "uart_ready d"
  shows "\<exists>d'. (if sc < 0x80
      then (let c = scancode_to_char sc
            in if c \<noteq> 0 then serial_printf text_key [Word (scast c), Word (ucast sc)] d
               else serial_printf text_special [Word (ucast sc)] d)
      else Inr d) = Inr d' \<and> uart_ready d' \<and> uart_sends d (key_reaction sc) d'"
proof (cases "sc < 0x80")
  case True
  then have low: "\<not> 0x80 \<le> sc" by (simp add: word_less_nat_alt word_le_nat_alt)
  show ?thesis
  proof (cases "scancode_to_char sc = 0")
    case False
    from serial_printf_step [OF assms text_key_printed [of "scast (scancode_to_char sc)" "ucast sc"]]
    obtain d' where "serial_printf text_key [Word (scast (scancode_to_char sc)), Word (ucast sc)] d = Inr d'" "uart_ready d'"
      "uart_sends d (key_message (ucast (scast (scancode_to_char sc) :: u32)) (ucast sc)) d'" .
    then show ?thesis using True False low by (simp add: key_reaction_def byte_of_int)
  next
    case z: True
    from serial_printf_step [OF assms text_special_printed [of "ucast sc"]]
    obtain d' where "serial_printf text_special [Word (ucast sc)] d = Inr d'" "uart_ready d'" "uart_sends d (special_message (ucast sc)) d'" .
    then show ?thesis using True z low by (simp add: key_reaction_def)
  qed
next
  case False
  then have "0x80 \<le> sc" by (simp add: not_less)
  then show ?thesis unfolding if_not_P [OF False] using assms uart.eff_refl by (simp add: key_reaction_def)
qed

lemma keys_distinct: "distinct (map fst keys)" "distinct (map snd keys)" "0 \<notin> snd ` set keys"
  by (simp_all add: keys_def)

lemma scancode_key: "scancode_to_char sc = c \<Longrightarrow> c \<noteq> 0 \<Longrightarrow> (sc, c) \<in> set keys"
  by (auto simp: scancode_to_char_def dest: map_of_SomeD split: option.splits)

lemma keys_low: "(sc, c) \<in> set keys \<Longrightarrow> sc < 0x80"
  by (auto simp: keys_def)

lemma keyboard_step:
  assumes "uart_ready d"
  shows "\<exists>d'. keyboard_handler n d = Inr (send_eoi (ucast n) d') \<and> uart_ready d' \<and> uart_sends (snd (inb 0x60 d)) (key_reaction (fst (inb 0x60 d))) d'"
proof -
  have "uart_ready (snd (inb 0x60 d))" using assms(1) by simp
  from react_step [OF this, of "fst (inb 0x60 d)"] obtain d' where d':
    "(if fst (inb 0x60 d) < 0x80
      then (let c = scancode_to_char (fst (inb 0x60 d))
            in if c \<noteq> 0 then serial_printf text_key [Word (scast c), Word (ucast (fst (inb 0x60 d)))] (snd (inb 0x60 d))
               else serial_printf text_special [Word (ucast (fst (inb 0x60 d)))] (snd (inb 0x60 d)))
      else Inr (snd (inb 0x60 d))) = Inr d'" "uart_ready d'" "uart_sends (snd (inb 0x60 d)) (key_reaction (fst (inb 0x60 d))) d'" by blast
  have "keyboard_handler n d = Inr (send_eoi (ucast n) d')"
    unfolding keyboard_handler_def case_prod_beta Let_def
    by (simp only: d'(1) [unfolded Let_def] bindR_simps)
  then show ?thesis using d'(2,3) by blast
qed

subsection \<open>Properties\<close>

text \<open>keys decode uniquely: two scan codes that give the same character are the same key, no release
  code gives a character, and exactly the 51 keys of the table give one.\<close>

theorem scancodes_unique:
  "(\<forall>a b. scancode_to_char a = scancode_to_char b \<and> scancode_to_char a \<noteq> 0 \<longrightarrow> a = b)
    \<and> (\<forall>a \<ge> 0x80. scancode_to_char a = 0)
    \<and> card {a. scancode_to_char a \<noteq> 0} = 51"
proof (intro conjI allI impI)
  fix a b assume "scancode_to_char a = scancode_to_char b \<and> scancode_to_char a \<noteq> 0"
  then have e: "scancode_to_char a = scancode_to_char a" "scancode_to_char b = scancode_to_char a" "scancode_to_char a \<noteq> 0" by auto
  have "(a, scancode_to_char a) \<in> set keys" "(b, scancode_to_char a) \<in> set keys" by (rule scancode_key [OF e(1,3)], rule scancode_key [OF e(2,3)])
  then show "a = b" using keys_distinct(2) by (metis eq_key_imp_eq_value map_of_eq_Some_iff distinct_map inj_onD snd_conv prod.inject)
next
  fix a :: u8 assume "0x80 \<le> a"
  then show "scancode_to_char a = 0" using scancode_key [of a] keys_low by (metis not_less)
next
  have "{a. scancode_to_char a \<noteq> 0} = fst ` set keys"
  proof
    show "{a. scancode_to_char a \<noteq> 0} \<subseteq> fst ` set keys" using scancode_key by force
    show "fst ` set keys \<subseteq> {a. scancode_to_char a \<noteq> 0}"
    proof
      fix a assume "a \<in> fst ` set keys"
      then obtain c where "(a, c) \<in> set keys" by force
      moreover from this have "c \<noteq> 0" using keys_distinct(3) by force
      ultimately show "a \<in> {a. scancode_to_char a \<noteq> 0}" using keys_distinct(1) by (simp add: scancode_to_char_def)
    qed
  qed
  moreover have "card (fst ` set keys) = length keys" using distinct_card [OF keys_distinct(1)] by simp
  moreover have "length keys = 51" by (simp add: keys_def)
  ultimately show "card {a. scancode_to_char a \<noteq> 0} = 51" by simp
qed

text \<open>C36: the keyboard interrupt: the handler reads one scan code, reports a pressed key with its
  character and code, says nothing for a release, and ends the interrupt at the first controller; because
  it hands the vector and not the line to send_eoi, the second controller gets an end of interrupt too.\<close>

theorem keyboard_handler_reports:
  assumes "uart_ready d" "sc = fst (inb 0x60 d)"
  shows "\<exists>d'. keyboard_handler 33 d = Inr d' \<and> sent d' = sent d @ key_reaction sc
    \<and> written PIC1_CMD (trace d') = written PIC1_CMD (trace d) @ [0x20]
    \<and> written PIC2_CMD (trace d') = written PIC2_CMD (trace d) @ [0x20]
    \<and> (\<forall>p. p \<notin> {0x3F8, PIC1_CMD, PIC2_CMD} \<longrightarrow> written p (trace d') = written p (trace d))"
proof -
  obtain d' where "keyboard_handler 33 d = Inr (send_eoi 33 d')" "uart_sends (snd (inb 0x60 d)) (key_reaction sc) d'"
    using keyboard_step [OF assms(1), of 33] assms(2) by auto
  then show ?thesis
    by (intro exI [of _ "send_eoi 33 d'"]) (simp add: send_eoi_def uart_sends_def pic_ports)
qed

theorem keyboard_handler_reports_witness:
  "\<exists>d'. keyboard_handler 33 \<lparr>dev = \<lambda>_ p. if p = 0x60 then 0x1E else 0x20, trace = []\<rparr> = Inr d'
    \<and> sent d' = key_message 97 0x1E \<and> written PIC2_CMD (trace d') = [0x20]"
proof -
  let ?d = "\<lparr>dev = \<lambda>_ p. if p = 0x60 then 0x1E else 0x20, trace = []\<rparr> :: io"
  have "uart_ready ?d" "0x1E = fst (inb 0x60 ?d)" by (simp_all add: uart_ready_def inb_def)
  from keyboard_handler_reports [OF this] show ?thesis
    by (simp add: key_reaction_def scancode_to_char_def keys_def sent_def) blast
qed

end
