(* ===== verification/Screen.thy ===== *)
theory Screen
  imports Memory Mmu Decimal Serial
begin

section \<open>The text screen\<close>

text \<open>
  \<^verbatim>\<open>kernel/drivers/screen.c\<close>: characters in video memory. The buffer of \<^verbatim>\<open>kprintf\<close> is
  the list of its first \<^verbatim>\<open>pos\<close> bytes; \<open>add_buffer\<close> is the loop that copies a text into it
  while there is room.
\<close>

definition put_char :: "u8 \<Rightarrow> int \<Rightarrow> int \<Rightarrow> mem \<Rightarrow> mem" where
  "put_char c row col m =
     (if row < 0 \<or> row \<ge> 25 \<or> col < 0 \<or> col \<ge> 80 then m
      else (let video = P2V 0xB8000 + of_int ((row * 80 + col) * 2)
            in (m(video := c))(video + 1 := 0x0E)))"

primrec kprint_loop :: "int \<Rightarrow> int \<Rightarrow> int \<Rightarrow> u8 list \<Rightarrow> mem \<Rightarrow> mem" where
  "kprint_loop row col i [] m = m"
| "kprint_loop row col i (c # str) m = kprint_loop row col (i + 1) str (put_char c row (wrap32 (col + i)) m)"

definition kprint :: "int \<Rightarrow> int \<Rightarrow> u8 list \<Rightarrow> mem \<Rightarrow> mem" where
  "kprint row col str m = kprint_loop row col 0 str m"

fun add_buffer :: "u8 list \<Rightarrow> u8 list \<Rightarrow> u8 list" where
  "add_buffer buffer [] = buffer"
| "add_buffer buffer (c # str) = (if length buffer < 127 then add_buffer (buffer @ [c]) str else buffer)"

function num_loop :: "int \<Rightarrow> u8 list \<Rightarrow> u8 list" where
  "num_loop num num_buf =
     (if num > 0 \<and> length num_buf < 15 then num_loop (num div 10) (num_buf @ [of_int (48 + num mod 10)]) else num_buf)"
  by pat_completeness auto
termination by (relation "measure (\<lambda>(num, _). nat num)") auto

declare num_loop.simps [simp del]

definition upper_hex :: "u32 \<Rightarrow> u8 list" where
  "upper_hex num = map (\<lambda>j. let digit = uint (drop_bit (j * 4) num AND 0xF)
     in if digit < 10 then of_int (48 + digit) else of_int (65 + digit - 10)) (rev [0..<8])"

text \<open>One round of the loop of \<^verbatim>\<open>kprintf\<close> for each character or conversion of the format.\<close>

fun kprintf_loop :: "u8 list \<Rightarrow> arg list \<Rightarrow> u8 list \<Rightarrow> u8 list res" where
  "kprintf_loop [] args buffer = Inr buffer"
| "kprintf_loop [c] args buffer = Inr (if length buffer < 127 then buffer @ [c] else buffer)"
| "kprintf_loop (c # k # fmt) args buffer =
     (if \<not> length buffer < 127 then Inr buffer
      else if c = 37 \<and> k = of_char CHR ''s'' then
        (case args of Str s # rest \<Rightarrow> kprintf_loop fmt rest (add_buffer buffer s)
         | Word w # rest \<Rightarrow> (if w = 0 then kprintf_loop fmt rest buffer else Inl (Undef ''va_arg''))
         | [] \<Rightarrow> Inl (Undef ''va_arg''))
      else if c = 37 \<and> k = of_char CHR ''d'' then
        (case args of Word w # rest \<Rightarrow>
           kprintf_loop fmt rest (add_buffer buffer (if sint w = 0 then [48] else rev (num_loop (sint w) [])))
         | _ \<Rightarrow> Inl (Undef ''va_arg''))
      else if c = 37 \<and> k = of_char CHR ''x'' then
        (case args of Word w # rest \<Rightarrow> kprintf_loop fmt rest (add_buffer buffer (upper_hex w))
         | _ \<Rightarrow> Inl (Undef ''va_arg''))
      else kprintf_loop (k # fmt) args (buffer @ [c]))"

definition kprintf :: "int \<Rightarrow> int \<Rightarrow> u8 list \<Rightarrow> arg list \<Rightarrow> mem \<Rightarrow> mem res" where
  "kprintf row col fmt args m = bindR (kprintf_loop fmt args []) (\<lambda>buffer. Inr (kprint row col buffer m))"

text \<open>\<^verbatim>\<open>clear_screen\<close> uses the physical address of the video memory.\<close>

primrec clear_loop :: "nat \<Rightarrow> mem \<Rightarrow> mem" where
  "clear_loop 0 m = m"
| "clear_loop (Suc n) m = (let m' = clear_loop n m
     in (m'(0xB8000 + of_nat (2 * n) := 32))(0xB8000 + of_nat (2 * n) + 1 := 0x07))"

definition clear_screen :: "mem \<Rightarrow> mem" where
  "clear_screen m = clear_loop 2000 m"

subsection \<open>Cells\<close>

definition cell_at :: "nat \<Rightarrow> u32" where
  "cell_at n = 0x800B8000 + of_nat (2 * n)"

lemma put_char_cell:
  assumes "0 \<le> row" "row < 25" "0 \<le> col" "col < 80"
  shows "put_char c row col m = (m(cell_at (nat (row * 80 + col)) := c))(cell_at (nat (row * 80 + col)) + 1 := 0x0E)"
proof -
  have "P2V 0xB8000 + of_int ((row * 80 + col) * 2) = cell_at (nat (row * 80 + col))"
    using assms by (simp add: cell_at_def P2V_def mmu_consts)
  then show ?thesis using assms by (simp add: put_char_def Let_def)
qed

lemma cell_at_inj: "n < 2000 \<Longrightarrow> k < 2000 \<Longrightarrow> cell_at n = cell_at k \<longleftrightarrow> n = k"
  using of_nat_inj_u32 [of "2 * n" "2 * k"] by (simp add: cell_at_def)

lemma cell_at_odd: "n < 2000 \<Longrightarrow> k < 2000 \<Longrightarrow> cell_at n + 1 \<noteq> cell_at k" "n < 2000 \<Longrightarrow> k < 2000 \<Longrightarrow> cell_at k \<noteq> cell_at n + 1"
proof -
  assume b: "n < 2000" "k < 2000"
  then have r: "2 * n + 1 < 4294967296" "2 * k < 4294967296" by simp_all
  have "2 * n + 1 \<noteq> 2 * k" by presburger
  then have "(of_nat (2 * n + 1) :: u32) \<noteq> of_nat (2 * k)" using of_nat_inj_u32 [OF r] by blast
  then show "cell_at n + 1 \<noteq> cell_at k" by (simp add: cell_at_def)
  then show "cell_at k \<noteq> cell_at n + 1" by simp
qed

lemma cell_at_Suc_inj: "n < 2000 \<Longrightarrow> k < 2000 \<Longrightarrow> cell_at n + 1 = cell_at k + 1 \<longleftrightarrow> n = k"
  using cell_at_inj by simp

text \<open>What \<^verbatim>\<open>kprint\<close> leaves in memory: the reference is the pair of bytes of each cell.\<close>

definition shows_text :: "nat \<Rightarrow> nat \<Rightarrow> u8 list \<Rightarrow> mem \<Rightarrow> mem \<Rightarrow> bool" where
  "shows_text row col str m m' \<longleftrightarrow>
     (\<forall>i < length str. col + i < 80 \<longrightarrow> m' (cell_at (row * 80 + (col + i))) = str ! i \<and> m' (cell_at (row * 80 + (col + i)) + 1) = 0x0E)
     \<and> (\<forall>a. (\<forall>k < 80. col \<le> k \<and> k < col + length str \<longrightarrow> a \<noteq> cell_at (row * 80 + k) \<and> a \<noteq> cell_at (row * 80 + k) + 1) \<longrightarrow> m' a = m a)"

lemma kprint_loop_outside:
  "int col + i \<ge> 80 \<Longrightarrow> int col + i + int (length str) < 2147483648 \<Longrightarrow> kprint_loop row (int col) i str m = m"
  by (induction str arbitrary: i m) (auto simp: put_char_def)

lemma kprint_loop_shows:
  "row < 25 \<Longrightarrow> col + i + length str < 2147483648 \<Longrightarrow> shows_text row (col + i) str m (kprint_loop (int row) (int col) (int i) str m)"
proof (induction str arbitrary: i m)
  case (Cons c str)
  show ?case
  proof (cases "col + i < 80")
    case False
    then show ?thesis using kprint_loop_outside [of col "int i" "c # str" "int row" m] Cons.prems(2) by (simp add: shows_text_def)
  next
    case True
    let ?n = "row * 80 + (col + i)"
    let ?m = "put_char c (int row) (wrap32 (int col + int i)) m"
    have nat: "nat (int row * 80 + (int col + int i)) = ?n" by simp
    have m: "?m = (m(cell_at ?n := c))(cell_at ?n + 1 := 0x0E)"
      using put_char_cell [of "int row" "int col + int i" c m] Cons.prems True unfolding nat by simp
    have IH: "shows_text row (col + Suc i) str ?m (kprint_loop (int row) (int col) (int (Suc i)) str ?m)"
      using Cons.IH [of "Suc i" ?m] Cons.prems by simp
    let ?m' = "kprint_loop (int row) (int col) (int (Suc i)) str ?m"
    have e: "kprint_loop (int row) (int col) (int i) (c # str) m = ?m'" by (simp add: add.commute)
    have low: "?n < 2000" "row * 80 + k < 2000" if "k < 80" for k using Cons.prems(1) True that by auto
    have keep: "?m' (cell_at ?n) = ?m (cell_at ?n)" "?m' (cell_at ?n + 1) = ?m (cell_at ?n + 1)"
    proof -
      have "\<forall>k < 80. col + Suc i \<le> k \<and> k < col + Suc i + length str \<longrightarrow>
          cell_at ?n \<noteq> cell_at (row * 80 + k) \<and> cell_at ?n \<noteq> cell_at (row * 80 + k) + 1"
        using low True by (auto simp: cell_at_inj cell_at_odd)
      then show "?m' (cell_at ?n) = ?m (cell_at ?n)" using IH unfolding shows_text_def by blast
      have "\<forall>k < 80. col + Suc i \<le> k \<and> k < col + Suc i + length str \<longrightarrow>
          cell_at ?n + 1 \<noteq> cell_at (row * 80 + k) \<and> cell_at ?n + 1 \<noteq> cell_at (row * 80 + k) + 1"
        using low True by (auto simp: cell_at_inj cell_at_odd)
      then show "?m' (cell_at ?n + 1) = ?m (cell_at ?n + 1)" using IH unfolding shows_text_def by blast
    qed
    have at: "?m (cell_at ?n) = c" "?m (cell_at ?n + 1) = 0x0E" unfolding m by simp_all
    have "?m' (cell_at (row * 80 + (col + i + j))) = (c # str) ! j \<and> ?m' (cell_at (row * 80 + (col + i + j)) + 1) = 0x0E"
      if "j < length (c # str)" "col + i + j < 80" for j
    proof (cases j)
      case 0
      then show ?thesis using keep at by simp
    next
      case (Suc j')
      then have "j' < length str" "col + Suc i + j' < 80" "col + i + j = col + Suc i + j'" using that by simp_all
      then show ?thesis using IH Suc unfolding shows_text_def by simp
    qed
    moreover have "?m' a = m a" if a: "\<forall>k < 80. col + i \<le> k \<and> k < col + i + length (c # str) \<longrightarrow> a \<noteq> cell_at (row * 80 + k) \<and> a \<noteq> cell_at (row * 80 + k) + 1" for a
    proof -
      have "?m' a = ?m a" using IH a unfolding shows_text_def by simp
      moreover have "a \<noteq> cell_at ?n" "a \<noteq> cell_at ?n + 1" using a True by auto
      ultimately show ?thesis unfolding m by simp
    qed
    ultimately show ?thesis unfolding e shows_text_def by blast
  qed
qed (simp add: shows_text_def)

subsection \<open>Formatting into the buffer\<close>

lemma add_buffer_take: "length buffer \<le> 127 \<Longrightarrow> add_buffer buffer str = take 127 (buffer @ str)"
  by (induction buffer str rule: add_buffer.induct) (auto simp: take_append)

lemma add_buffer_length: "length buffer \<le> 127 \<Longrightarrow> length (add_buffer buffer str) \<le> 127"
  by (simp add: add_buffer_take)

text \<open>The reference: the whole text of a format, without a buffer. A negative number has no digits.\<close>

definition screen_int :: "int \<Rightarrow> u8 list" where
  "screen_int z = (if z < 0 then [] else dec_text z)"

fun screen_text :: "u8 list \<Rightarrow> arg list \<Rightarrow> u8 list option" where
  "screen_text [] args = Some []"
| "screen_text [c] args = Some [c]"
| "screen_text (c # k # fmt) args =
     (if c = 37 \<and> k = of_char CHR ''s'' then
        (case args of Str s # rest \<Rightarrow> map_option ((@) s) (screen_text fmt rest)
         | Word w # rest \<Rightarrow> (if w = 0 then screen_text fmt rest else None) | [] \<Rightarrow> None)
      else if c = 37 \<and> k = of_char CHR ''d'' then
        (case args of Word w # rest \<Rightarrow> map_option ((@) (screen_int (sint w))) (screen_text fmt rest) | _ \<Rightarrow> None)
      else if c = 37 \<and> k = of_char CHR ''x'' then
        (case args of Word w # rest \<Rightarrow> map_option ((@) (upper_hex w)) (screen_text fmt rest) | _ \<Rightarrow> None)
      else map_option ((#) c) (screen_text (k # fmt) args))"

lemma num_loop_rdigits:
  "length nb + length (rdigits n) \<le> 15 \<Longrightarrow> num_loop (int n) nb = nb @ rdigits n"
proof (induction n arbitrary: nb rule: rdigits.induct)
  case (1 n)
  show ?case
  proof (cases "n = 0")
    case True
    then show ?thesis by (simp add: num_loop.simps rdigits.simps)
  next
    case False
    have r: "rdigits n = (48 + of_nat (n mod 10)) # rdigits (n div 10)" using False by (simp add: rdigits.simps [of n])
    have d: "(of_int (int n mod 10) :: u8) = of_nat (n mod 10)"
    proof -
      have "int n mod 10 = int (n mod 10)" by (simp add: zmod_int)
      then show ?thesis by (simp only: of_int_of_nat_eq)
    qed
    have "num_loop (int (n div 10)) (nb @ [48 + of_nat (n mod 10)]) = (nb @ [48 + of_nat (n mod 10)]) @ rdigits (n div 10)"
      using 1(2) r by (intro 1(1) False) simp
    then show ?thesis using False 1(2) r by (subst num_loop.simps) (simp add: d zdiv_int)
  qed
qed

lemma screen_int_loop: "(if sint w = 0 then [48] else rev (num_loop (sint w) [])) = screen_int (sint (w :: u32))"
proof -
  consider "sint w = 0" | "sint w < 0" | "0 < sint w" by linarith
  then show ?thesis
  proof cases
    case 3
    have "sint w < 2147483648" using sint_less [of w] by simp
    then have "nat (sint w) < 10 ^ 10" by simp
    then have "length (rdigits (nat (sint w))) \<le> 10" by (rule length_rdigits)
    then show ?thesis using 3 num_loop_rdigits [of "[]" "nat (sint w)"] by (simp add: screen_int_def dec_text_def)
  qed (simp_all add: screen_int_def dec_text_def num_loop.simps)
qed

lemma kprintf_loop_text:
  "screen_text fmt args = Some t \<Longrightarrow> length buffer \<le> 127 \<Longrightarrow> kprintf_loop fmt args buffer = Inr (take 127 (buffer @ t))"
proof (induction fmt args arbitrary: t buffer rule: screen_text.induct)
  case (2 c args)
  then show ?case by auto
next
  case (3 c k fmt args)
  show ?case
  proof (cases "length buffer < 127")
    case True
    have ab: "add_buffer buffer x = take 127 (buffer @ x)" "length (add_buffer buffer x) \<le> 127" for x
      using True by (simp_all add: add_buffer_take)
    have tk: "take 127 (take 127 (buffer @ x) @ y) = take 127 (buffer @ x @ y)" for x y :: "u8 list"
      using True by (cases "length x \<le> 127 - length buffer") simp_all
    show ?thesis
    proof (cases "c = 37 \<and> k \<in> {of_char CHR ''s'', of_char CHR ''d'', of_char CHR ''x''}")
      case conv: True
      then consider (s) "c = 37" "k = 115" | (d) "c = 37" "k = 100" | (x) "c = 37" "k = 120" by auto
      then show ?thesis
      proof cases
        case s
        show ?thesis
        proof (cases args)
          case (Cons a rest)
          show ?thesis
          proof (cases a)
            case (Str str)
            then obtain u where "screen_text fmt rest = Some u" "t = str @ u" using "3.prems"(1) s Cons by auto
            then show ?thesis using "3.IH"(2) [OF _ Cons Str, of u "add_buffer buffer str"] s Cons Str True ab tk by simp
          next
            case (Word w)
            then have w: "w = 0" "screen_text fmt rest = Some t" using "3.prems"(1) s Cons by (auto split: if_splits)
            then show ?thesis using "3.IH"(1) [OF _ Cons Word w, of buffer] s Cons Word True by simp
          qed
        qed (use "3.prems"(1) s in simp)
      next
        case d
        then obtain w rest u where a: "args = Word w # rest" "screen_text fmt rest = Some u" "t = screen_int (sint w) @ u"
          using "3.prems"(1) by (auto split: list.splits arg.splits)
        have "kprintf_loop fmt rest (add_buffer buffer (screen_int (sint w))) = Inr (take 127 (add_buffer buffer (screen_int (sint w)) @ u))"
          by (rule "3.IH"(3) [OF _ _ a(1) refl a(2) ab(2)]) (use d in simp_all)
        then show ?thesis using d a True ab(1) tk screen_int_loop [of w] by simp
      next
        case x
        then obtain w rest u where a: "args = Word w # rest" "screen_text fmt rest = Some u" "t = upper_hex w @ u"
          using "3.prems"(1) by (auto split: list.splits arg.splits)
        have "kprintf_loop fmt rest (add_buffer buffer (upper_hex w)) = Inr (take 127 (add_buffer buffer (upper_hex w) @ u))"
          by (rule "3.IH"(4) [OF _ _ _ a(1) refl a(2) ab(2)]) (use x in simp_all)
        then show ?thesis using x a True ab(1) tk by simp
      qed
    next
      case False
      then obtain u where u: "screen_text (k # fmt) args = Some u" "t = c # u" using "3.prems"(1) by (auto split: if_splits)
      then have "kprintf_loop (k # fmt) args (buffer @ [c]) = Inr (take 127 ((buffer @ [c]) @ u))"
        using False True by (intro "3.IH"(5)) auto
      then show ?thesis using False True u(2) by auto
    qed
  qed (use 3 in \<open>simp add: take_append\<close>)
qed simp

lemma kprintf_loop_bound: "kprintf_loop fmt args buffer = Inr b \<Longrightarrow> length buffer \<le> 127 \<Longrightarrow> length b \<le> 127"
proof (induction fmt args buffer rule: kprintf_loop.induct)
  case (3 c k fmt args buffer)
  show ?case
  proof (cases "length buffer < 127")
    case True
    then have ab: "length (add_buffer buffer x) \<le> 127" for x by (simp add: add_buffer_length)
    show ?thesis using 3 True ab by (auto split: if_splits list.splits arg.splits)
  qed (use 3 in simp)
qed (auto split: if_splits)

subsection \<open>Properties\<close>

text \<open>C37: kprintf shows the text of its format: on a row of the screen and from a column on, the cells up
  to the right edge hold the first 127 bytes of the text in yellow, whatever its length, and nothing else in
  memory changes; the buffer of 128 bytes never overflows; and a row outside the screen changes nothing.\<close>

theorem kprintf_shows_text:
  assumes "screen_text fmt args = Some t"
  shows "(row < 25 \<and> col < 1000 \<longrightarrow> (\<exists>m'. kprintf (int row) (int col) fmt args m = Inr m' \<and> shows_text row col (take 127 t) m m'))
    \<and> (\<forall>b. kprintf_loop fmt args [] = Inr b \<longrightarrow> length b < 128)
    \<and> (r < 0 \<or> r \<ge> 25 \<longrightarrow> kprintf r (int col) fmt args m = Inr m)"
proof -
  have k: "kprintf_loop fmt args [] = Inr (take 127 t)" using kprintf_loop_text [OF assms, of "[]"] by simp
  have out: "kprint_loop r c i str m = m" if "r < 0 \<or> r \<ge> 25" for c i str
    using that by (induction str arbitrary: i m) (auto simp: put_char_def)
  have "shows_text row col (take 127 t) m (kprint (int row) (int col) (take 127 t) m)" if "row < 25" "col < 1000"
    using kprint_loop_shows [of row col 0 "take 127 t" m] that by (simp add: kprint_def)
  then show ?thesis using k out by (auto simp: kprintf_def kprint_def)
qed

theorem kprintf_shows_text_witness:
  "\<exists>m'. kprintf 5 78 (lit ''pid %d'') [Word 12] (\<lambda>_. 0) = Inr m' \<and> m' (cell_at 478) = 112 \<and> m' (cell_at 479) = 105
    \<and> m' (cell_at 480) = 0"
proof -
  have "screen_text (lit ''pid %d'') [Word 12] = Some (lit ''pid '' @ dec_text 12)" by (simp add: screen_int_def)
  from kprintf_shows_text [OF this, of 5 78 "\<lambda>_. 0"] obtain m'
    where m': "kprintf 5 78 (lit ''pid %d'') [Word 12] (\<lambda>_. 0) = Inr m'" "shows_text 5 78 (take 127 (lit ''pid '' @ dec_text 12)) (\<lambda>_. 0) m'"
    by auto
  let ?t = "take 127 (lit ''pid '' @ dec_text 12)"
  have t: "?t ! 0 = 112" "?t ! 1 = 105" "4 \<le> length ?t" by simp_all
  have "m' (cell_at (5 * 80 + (78 + i))) = ?t ! i" if "i < 2" for i
    using m'(2) that t(3) unfolding shows_text_def by auto
  from this [of 0] this [of 1] have "m' (cell_at 478) = 112" "m' (cell_at 479) = 105" using t by simp_all
  moreover have "m' (cell_at 480) = 0"
  proof -
    have "\<forall>k < 80. 78 \<le> k \<and> k < 78 + length ?t \<longrightarrow> cell_at 480 \<noteq> cell_at (5 * 80 + k) \<and> cell_at 480 \<noteq> cell_at (5 * 80 + k) + 1"
      by (auto simp: cell_at_inj cell_at_odd)
    then show ?thesis using m'(2) unfolding shows_text_def by blast
  qed
  ultimately show ?thesis using m'(1) by (intro exI [of _ m']) simp
qed

text \<open>kprintf prints no negative numbers: for \<^verbatim>\<open>%d\<close> with an argument below zero the digit loop does
  not run and neither digits nor a sign appear.\<close>

theorem kprintf_negative_empty:
  assumes "sint w < 0"
  shows "kprintf_loop (lit ''[%d]'') [Word w] [] = Inr (lit ''[]'')"
  using assms kprintf_loop_text [of "lit ''[%d]''" "[Word w]" "lit ''[]''" "[]"] by (simp add: screen_int_def)

theorem kprintf_negative_empty_witness:
  "kprintf_loop (lit ''[%d]'') [Word (- 5)] [] = Inr (lit ''[]'')"
  by (rule kprintf_negative_empty) simp

end
