(* ===== verification/Interrupts.thy ===== *)
theory Interrupts
  imports Syscall Timer Keyboard Screen
begin

section \<open>Interrupt handlers\<close>

text \<open>
  \<^verbatim>\<open>kernel/trap/interrupts.c\<close>, one definition per handler in the order of the source. A handler
  runs on the thread \<open>th\<close> that was interrupted, with the address of the trap frame, and gives the thread
  that runs afterwards. \<open>traps\<close> adds to the machine what only the handlers touch: the tick counter and
  the control and status registers named in their inline assembly. A fatal handler ends in its halting loop.
\<close>

record traps = sys +
  timer_ticks :: u32
  cr0 :: u32
  cr2 :: u32
  fpu_status :: u16
  mxcsr :: u32

type_synonym 'a isr = "thread \<Rightarrow> u32 \<Rightarrow> 'a traps_scheme \<Rightarrow> (thread \<times> 'a traps_scheme) res"

definition say :: "u8 list \<Rightarrow> arg list \<Rightarrow> 'a machine_scheme \<Rightarrow> 'a machine_scheme res" where
  "say fmt args s = with_ports (serial_printf fmt args) s"

definition isr_default_handler :: "'a isr" where
  "isr_default_handler th frame s =
     (let int_no = load32 (ram s) (frame + tf_int_no)
      in if int_no < 32
         then (let m1 = kprint 15 0 (lit (''Ex:'' @ [CHR 0x0A])) (ram s);
                   num_str = [48 + ucast (int_no div 10), 48 + ucast (int_no mod 10)];
                   s1 = s\<lparr>ram := kprint 15 3 num_str m1\<rparr>
               in Inl Hang)
         else Inr (th, s))"

definition isr_divide_error_handler :: "'a isr" where
  "isr_divide_error_handler th frame s =
     bindR (say (lit (''Divide Error at EIP: %x - Fixed'' @ [CHR 0x0A])) [Word (load32 (ram s) (frame +
       tf_eip))] s)
     (\<lambda>s. let m1 = store32 (ram s) (frame + tf_eax) 0;
                m2 = store32 m1 (frame + tf_eip) (load32 m1 (frame + tf_eip) + 2)
            in Inr (th, s\<lparr>ram := m2\<rparr>))"

definition isr_debug_exception_handler :: "'a isr" where
  "isr_debug_exception_handler th frame s =
     bindR (say (lit (''Debug Exception at EIP: %x - Continue'' @ [CHR 0x0A])) [Word (load32 (ram s) (frame +
       tf_eip))] s)
     (\<lambda>s. Inl Hang)"

definition isr_nmi_handler :: "'a isr" where
  "isr_nmi_handler th frame s =
     bindR (say (lit (''NMI Interrupt - Hardware Failure'' @ [CHR 0x0A])) [] s)
     (\<lambda>s. bindR (say (lit (''System Halted'' @ [CHR 0x0A])) [] s)
     (\<lambda>s. Inl Hang))"

definition isr_breakpoint_handler :: "'a isr" where
  "isr_breakpoint_handler th frame s =
     bindR (say (lit (''Breakpoint at EIP: %x - Continue'' @ [CHR 0x0A])) [Word (load32 (ram s) (frame +
       tf_eip))] s)
     (\<lambda>s. Inr (th, s))"

definition isr_overflow_handler :: "'a isr" where
  "isr_overflow_handler th frame s =
     bindR (say (lit (''Overflow at EIP: %x - Cleared'' @ [CHR 0x0A])) [Word (load32 (ram s) (frame + tf_eip))]
       s)
     (\<lambda>s. Inr (th, s))"

definition isr_bounds_check_handler :: "'a isr" where
  "isr_bounds_check_handler th frame s =
     bindR (say (lit (''Bounds Check at EIP: %x - Fixed'' @ [CHR 0x0A])) [Word (load32 (ram s) (frame +
       tf_eip))] s)
     (\<lambda>s. Inr (th, s))"

definition isr_invalid_opcode_handler :: "'a isr" where
  "isr_invalid_opcode_handler th frame s =
     bindR (say (lit (''Invalid Opcode at EIP: %x'' @ [CHR 0x0A])) [Word (load32 (ram s) (frame + tf_eip))] s)
     (\<lambda>s. bindR (say (lit (''Unrecoverable - System Halted'' @ [CHR 0x0A])) [] s)
     (\<lambda>s. Inl Hang))"

definition isr_device_not_available_handler :: "'a isr" where
  "isr_device_not_available_handler th frame s =
     bindR (say (lit (''Device Not Available'' @ [CHR 0x0A])) [] s)
     (\<lambda>s. Inr (th, s\<lparr>cr0 := cr0 s AND 0xFFFFFFFB\<rparr>))"

definition isr_double_fault_handler :: "'a isr" where
  "isr_double_fault_handler th frame s =
     bindR (say (lit (''Double Fault! Error: %x'' @ [CHR 0x0A])) [Word (load32 (ram s) (frame + tf_err_code))] s)
     (\<lambda>s. Inl Hang)"

definition isr_coprocessor_segment_handler :: "'a isr" where
  "isr_coprocessor_segment_handler th frame s =
     bindR (say (lit (''Coprocessor Segment Overrun - Fixed'' @ [CHR 0x0A])) [] s)
     (\<lambda>s. Inr (th, s))"

definition isr_invalid_tss_handler :: "'a isr" where
  "isr_invalid_tss_handler th frame s =
     bindR (say (lit (''Invalid TSS. Error: %x'' @ [CHR 0x0A])) [Word (load32 (ram s) (frame + tf_err_code))] s)
     (\<lambda>s. bindR (say (lit (''Kernel Panic - System Halted'' @ [CHR 0x0A])) [] s)
     (\<lambda>s. Inl Hang))"

definition isr_segment_not_present_handler :: "'a isr" where
  "isr_segment_not_present_handler th frame s =
     bindR (say (lit (''Segment Not Present. Error: %x'' @ [CHR 0x0A])) [Word (load32 (ram s) (frame +
       tf_err_code))] s)
     (\<lambda>s. Inr (th, s))"

definition isr_stack_segment_fault_handler :: "'a isr" where
  "isr_stack_segment_fault_handler th frame s =
     bindR (say (lit (''Stack Segment Fault. Error: %x'' @ [CHR 0x0A])) [Word (load32 (ram s) (frame +
       tf_err_code))] s)
     (\<lambda>s. bindR (say (lit (''Stack Corrupted - System Halted'' @ [CHR 0x0A])) [] s)
     (\<lambda>s. Inl Hang))"

definition isr_general_protection_fault_handler :: "'a isr" where
  "isr_general_protection_fault_handler th frame s =
     bindR (say (lit (''General Protection Fault! Error: %x'' @ [CHR 0x0A])) [Word (load32 (ram s) (frame +
       tf_err_code))] s)
     (\<lambda>s. bindR (say (lit (''System Halted'' @ [CHR 0x0A])) [] s)
     (\<lambda>s. Inl Hang))"

definition isr_page_fault_handler :: "'a isr" where
  "isr_page_fault_handler th frame s =
     bindR (say (lit (''Error Code: %x'' @ [CHR 0x0A])) [Word (load32 (ram s) (frame + tf_err_code))] s)
     (\<lambda>s. bindR (if load32 (ram s) (frame + tf_err_code) AND 1 \<noteq> 0
       then say (lit (''Page Fault: '' @ [CHR 0xE9, CHR 0xA1, CHR 0xB5, CHR 0xE9, CHR 0x9D, CHR 0xA2, CHR 0xE4,
       CHR 0xB8, CHR 0x8D, CHR 0xE5, CHR 0xAD, CHR 0x98, CHR 0xE5, CHR 0x9C, CHR 0xA8] @ '' %x'' @ [CHR
       0x0A])) [Word (cr2 s)] s
       else say (lit (''Page Fault: '' @ [CHR 0xE6, CHR 0x9D, CHR 0x83, CHR 0xE9, CHR 0x99, CHR 0x90, CHR 0xE9,
       CHR 0x94, CHR 0x99, CHR 0xE8, CHR 0xAF, CHR 0xAF] @ '' %x - Halting'' @ [CHR 0x0A])) [Word (cr2 s)]
       s)
     (\<lambda>s. bindR (say (lit (''  P=%d'' @ [CHR 0x0A])) [Word (if load32 (ram s) (frame + tf_err_code) AND 0x1 \<noteq>
       0 then 1 else 0)] s)
     (\<lambda>s. bindR (say (lit (''  W/R=%d (%s operation)'' @ [CHR 0x0A])) [Word (if load32 (ram s) (frame + tf_err_code)
       AND 0x2 \<noteq> 0 then 1 else 0)] s)
     (\<lambda>s. bindR (say (lit (''  U/S=%d (%s mode)'' @ [CHR 0x0A])) [Word (if load32 (ram s) (frame + tf_err_code) AND
       0x4 \<noteq> 0 then 1 else 0)] s)
     (\<lambda>s. bindR (say (lit (''  RSVD=%d (Reserved bit %s)'' @ [CHR 0x0A])) [Word (if load32 (ram s) (frame +
       tf_err_code) AND 0x8 \<noteq> 0 then 1 else 0)] s)
     (\<lambda>s. bindR (say (lit (''  I/D=%d (%s fetch)'' @ [CHR 0x0A])) [Word (if load32 (ram s) (frame + tf_err_code) AND
       0x10 \<noteq> 0 then 1 else 0)] s)
     (\<lambda>s. Inl Hang)))))))"

definition isr_reserved_15_handler :: "'a isr" where
  "isr_reserved_15_handler th frame s =
     bindR (say (lit (''Reserved Exception 15 - Ignored'' @ [CHR 0x0A])) [] s)
     (\<lambda>s. Inr (th, s))"

definition isr_floating_point_handler :: "'a isr" where
  "isr_floating_point_handler th frame s =
     bindR (say (lit (''Floating Point Exception - Cleared'' @ [CHR 0x0A])) [] s)
     (\<lambda>s. Inr (th, s\<lparr>fpu_status := fpu_status s AND 0x7F00\<rparr>))"

definition isr_alignment_check_handler :: "'a isr" where
  "isr_alignment_check_handler th frame s =
     bindR (say (lit (''Alignment Check. Error: %x - Fixed'' @ [CHR 0x0A])) [Word (load32 (ram s) (frame +
       tf_err_code))] s)
     (\<lambda>s. Inr (th, s))"

definition isr_machine_check_handler :: "'a isr" where
  "isr_machine_check_handler th frame s =
     bindR (say (lit (''Machine Check - Hardware Failure'' @ [CHR 0x0A])) [] s)
     (\<lambda>s. bindR (say (lit (''Critical Error - System Halted'' @ [CHR 0x0A])) [] s)
     (\<lambda>s. Inl Hang))"

definition isr_simd_floating_point_handler :: "'a isr" where
  "isr_simd_floating_point_handler th frame s =
     bindR (say (lit (''SIMD Floating Point Exception - Cleared'' @ [CHR 0x0A])) [] s)
     (\<lambda>s. Inr (th, s\<lparr>mxcsr := 0x1F80\<rparr>))"

definition isr_virtualization_handler :: "'a isr" where
  "isr_virtualization_handler th frame s =
     bindR (say (lit (''Virtualization Exception - Ignored'' @ [CHR 0x0A])) [] s)
     (\<lambda>s. Inr (th, s))"

definition isr_control_protection_handler :: "'a isr" where
  "isr_control_protection_handler th frame s =
     bindR (say (lit (''Control Protection Exception. Error: %x'' @ [CHR 0x0A])) [Word (load32 (ram s) (frame +
       tf_err_code))] s)
     (\<lambda>s. Inr (th, s))"

definition isr_reserved_22_handler :: "'a isr" where
  "isr_reserved_22_handler th frame s =
     bindR (say (lit (''Reserved Exception 22 - Ignored'' @ [CHR 0x0A])) [] s)
     (\<lambda>s. Inr (th, s))"

definition isr_reserved_23_handler :: "'a isr" where
  "isr_reserved_23_handler th frame s =
     bindR (say (lit (''Reserved Exception 23 - Ignored'' @ [CHR 0x0A])) [] s)
     (\<lambda>s. Inr (th, s))"

definition isr_reserved_24_handler :: "'a isr" where
  "isr_reserved_24_handler th frame s =
     bindR (say (lit (''Reserved Exception 24 - Ignored'' @ [CHR 0x0A])) [] s)
     (\<lambda>s. Inr (th, s))"

definition isr_reserved_25_handler :: "'a isr" where
  "isr_reserved_25_handler th frame s =
     bindR (say (lit (''Reserved Exception 25 - Ignored'' @ [CHR 0x0A])) [] s)
     (\<lambda>s. Inr (th, s))"

definition isr_reserved_26_handler :: "'a isr" where
  "isr_reserved_26_handler th frame s =
     bindR (say (lit (''Reserved Exception 26 - Ignored'' @ [CHR 0x0A])) [] s)
     (\<lambda>s. Inr (th, s))"

definition isr_reserved_27_handler :: "'a isr" where
  "isr_reserved_27_handler th frame s =
     bindR (say (lit (''Reserved Exception 27 - Ignored'' @ [CHR 0x0A])) [] s)
     (\<lambda>s. Inr (th, s))"

definition isr_hypervisor_injection_handler :: "'a isr" where
  "isr_hypervisor_injection_handler th frame s =
     bindR (say (lit (''Hypervisor Injection Exception - Ignored'' @ [CHR 0x0A])) [] s)
     (\<lambda>s. Inr (th, s))"

definition isr_vmm_communication_handler :: "'a isr" where
  "isr_vmm_communication_handler th frame s =
     bindR (say (lit (''VMM Communication Exception - Ignored'' @ [CHR 0x0A])) [] s)
     (\<lambda>s. Inr (th, s))"

definition isr_security_exception_handler :: "'a isr" where
  "isr_security_exception_handler th frame s =
     bindR (say (lit (''Security Exception. Error: %x'' @ [CHR 0x0A])) [Word (load32 (ram s) (frame +
       tf_err_code))] s)
     (\<lambda>s. bindR (say (lit (''Security violation detected'' @ [CHR 0x0A])) [] s)
     (\<lambda>s. Inr (th, s)))"

definition isr_reserved_31_handler :: "'a isr" where
  "isr_reserved_31_handler th frame s =
     Inr (th, s)"

definition isr_timer_handler :: "'a isr" where
  "isr_timer_handler th frame s =
     (let (t, d) = timer_handler (load32 (ram s) (frame + tf_int_no)) (timer_ticks s, ports s)
      in Inr (th, s\<lparr>timer_ticks := t, ports := d\<rparr>))"

definition isr_keyboard_handler :: "'a isr" where
  "isr_keyboard_handler th frame s =
     bindR (with_ports (keyboard_handler (load32 (ram s) (frame + tf_int_no))) s) (\<lambda>s. Inr (th, s))"

definition isr_cascade_handler :: "'a isr" where
  "isr_cascade_handler th frame s =
     Inr (th, s)"

definition isr_com2_handler :: "'a isr" where
  "isr_com2_handler th frame s =
     Inr (th, s)"

definition isr_com1_handler :: "'a isr" where
  "isr_com1_handler th frame s =
     Inr (th, s)"

definition isr_lpt2_handler :: "'a isr" where
  "isr_lpt2_handler th frame s =
     Inr (th, s)"

definition isr_floppy_handler :: "'a isr" where
  "isr_floppy_handler th frame s =
     Inr (th, s)"

definition isr_lpt1_handler :: "'a isr" where
  "isr_lpt1_handler th frame s =
     Inr (th, s)"

definition isr_rtc_handler :: "'a isr" where
  "isr_rtc_handler th frame s =
     Inr (th, s)"

definition isr_reserved_41_handler :: "'a isr" where
  "isr_reserved_41_handler th frame s =
     Inr (th, s)"

definition isr_reserved_42_handler :: "'a isr" where
  "isr_reserved_42_handler th frame s =
     Inr (th, s)"

definition isr_reserved_43_handler :: "'a isr" where
  "isr_reserved_43_handler th frame s =
     Inr (th, s)"

definition isr_ps2_mouse_handler :: "'a isr" where
  "isr_ps2_mouse_handler th frame s =
     Inr (th, s)"

definition isr_fpu_handler :: "'a isr" where
  "isr_fpu_handler th frame s =
     Inr (th, s)"

definition isr_ata1_handler :: "'a isr" where
  "isr_ata1_handler th frame s =
     bindR (say (lit ([CHR 0xE4, CHR 0xB8, CHR 0xBB, CHR 0xE7, CHR 0xA3, CHR 0x81, CHR 0xE7, CHR 0x9B, CHR 0x98,
       CHR 0xE4, CHR 0xB8, CHR 0xAD, CHR 0xE6, CHR 0x96, CHR 0xAD, CHR 0xE8, CHR 0xA7, CHR 0xA6, CHR 0xE5,
       CHR 0x8F, CHR 0x91] @ ''!'')) [] s)
     (\<lambda>s. Inr (th, s\<lparr>ports := send_eoi (ucast (load32 (ram s) (frame + tf_int_no))) (ports s)\<rparr>))"

definition isr_ata2_handler :: "'a isr" where
  "isr_ata2_handler th frame s =
     Inr (th, s)"

definition isr_syscall_handler :: "'a isr" where
  "isr_syscall_handler th frame s =
     syscall_handlers th frame s"

subsection \<open>How a handler returns\<close>

text \<open>\<open>quiet s s'\<close>: memory, processes, locks, flags and the other devices are as before; so are the
  address space and the pool; only the serial line and the command ports of the interrupt controllers were written to.\<close>

definition quiet :: "'a sys_scheme \<Rightarrow> 'a sys_scheme \<Rightarrow> bool" where
  "quiet s s' \<longleftrightarrow> ram s' = ram s \<and> ptable s' = ptable s \<and> konts s' = konts s \<and> cpus s' = cpus s \<and> cpu_id s' = cpu_id s
    \<and> eflags s' = eflags s \<and> locks s' = locks s \<and> sched_pos s' = sched_pos s \<and> uart_ready (ports s')
    \<and> cr3 s' = cr3 s \<and> kpgdir s' = kpgdir s \<and> freelist s' = freelist s
    \<and> (\<forall>p. p \<notin> {0x3F8, PIC1_CMD, PIC2_CMD} \<longrightarrow> written p (trace (ports s')) = written p (trace (ports s)))"

lemma quiet_inv:
  assumes "quiet s s'" "sched_inv th s"
  shows "sched_inv th s'"
proof -
  have "sys_ok s'" using sched_inv_ok [OF assms(2)] assms(1) by (simp add: sys_ok_def quiet_def)
  moreover have "lock_state s' hs b = lock_state s hs b" for hs b
    using assms(1) by (intro lock_state_cong) (simp_all add: quiet_def c_cpu_def)
  moreover have "running_only r s' = running_only r s" for r using assms(1) by (simp add: running_only_def quiet_def)
  ultimately show ?thesis using assms(1) by (intro sched_inv_same [OF assms(2)]) (simp_all add: quiet_def cur_def c_cpu_def)
qed

text \<open>The end-of-interrupt commands of the two controllers.\<close>

definition eois :: "'a machine_scheme \<Rightarrow> nat \<times> nat" where
  "eois s = (length (written PIC1_CMD (trace (ports s))), length (written PIC2_CMD (trace (ports s))))"

lemma says_quiet:
  assumes "says s t s'"
  shows "quiet s s'" "eois s' = eois s"
  using assms by (auto simp: says_def uart_sends_def quiet_def eois_def pic_ports)

lemma quiet_trans: "quiet s s1 \<Longrightarrow> quiet s1 s2 \<Longrightarrow> quiet s s2"
  by (simp add: quiet_def)

lemma quiet_refl: "uart_ready (ports s) \<Longrightarrow> quiet s s"
  by (simp add: quiet_def)

lemma sys_ok_ready: "sys_ok s \<Longrightarrow> uart_ready (ports s)"
  by (simp add: sys_ok_def)

lemma say_quiet:
  assumes "sys_ok s" "printf_text fmt args \<noteq> None"
  shows "\<exists>s'. say fmt args s = Inr s' \<and> sys_ok s' \<and> quiet s s' \<and> eois s' = eois s \<and> (\<exists>d. s' = s\<lparr>ports := d\<rparr>)"
proof -
  obtain t where "printf_text fmt args = Some t" using assms(2) by blast
  from say_step [OF assms(1) this] obtain s' where s': "with_ports (serial_printf fmt args) s = Inr s'" "says s t s'" by blast
  then show ?thesis using says_quiet [OF s'(2)] says_simps(4) [OF s'(2) assms(1)] s'(2) by (auto simp: say_def says_def)
qed

lemma say_returns:
  assumes "sys_ok s" "printf_text fmt args \<noteq> None"
    and "\<And>d. sys_ok (s\<lparr>ports := d\<rparr>) \<Longrightarrow> quiet s (s\<lparr>ports := d\<rparr>) \<Longrightarrow> eois (s\<lparr>ports := d\<rparr>) = eois s \<Longrightarrow> P (f (s\<lparr>ports := d\<rparr>))"
  shows "P (bindR (say fmt args s) f)"
proof -
  obtain s' d where s': "say fmt args s = Inr s'" "sys_ok s'" "quiet s s'" "eois s' = eois s" "s' = s\<lparr>ports := d\<rparr>"
    using say_quiet [OF assms(1,2)] by blast
  then show ?thesis using assms(3) [of d] by simp
qed

end
