(* ===== verification/Idt.thy ===== *)
theory Idt
  imports Interrupts
begin

section \<open>The interrupt table\<close>

text \<open>
  \<^verbatim>\<open>kernel/trap/idt.c\<close> and the lists of \<^verbatim>\<open>include/Tuix/idt_list.h\<close>: the gates the
  processor uses and the table of C handlers \<^verbatim>\<open>isr_handler\<close> dispatches through. \<open>stub n\<close> is
  the address of the assembly stub of vector \<open>n\<close>, which the linker chooses.
\<close>

record idt_entry =
  base_low :: u16
  selector :: u16
  zero :: u8
  flags :: u8
  base_high :: u16

record idt_ptr =
  limit :: u16
  base :: u32

definition IDT_ITEM_NUM :: nat where "IDT_ITEM_NUM = 256"
definition sizeof_idt_entry :: nat where "sizeof_idt_entry = 8"

definition IDT_LIST_EXP :: "(nat \<times> 'a isr) list" where
  "IDT_LIST_EXP = [(0, isr_divide_error_handler), (1, isr_debug_exception_handler), (2, isr_nmi_handler),
     (3, isr_breakpoint_handler), (4, isr_overflow_handler), (5, isr_bounds_check_handler),
     (6, isr_invalid_opcode_handler), (7, isr_device_not_available_handler), (8, isr_double_fault_handler),
     (9, isr_coprocessor_segment_handler), (10, isr_invalid_tss_handler),
     (11, isr_segment_not_present_handler), (12, isr_stack_segment_fault_handler),
     (13, isr_general_protection_fault_handler), (14, isr_page_fault_handler), (15, isr_reserved_15_handler),
     (16, isr_floating_point_handler), (17, isr_alignment_check_handler), (18, isr_machine_check_handler),
     (19, isr_simd_floating_point_handler), (20, isr_virtualization_handler),
     (21, isr_control_protection_handler), (22, isr_reserved_22_handler), (23, isr_reserved_23_handler),
     (24, isr_reserved_24_handler), (25, isr_reserved_25_handler), (26, isr_reserved_26_handler),
     (27, isr_reserved_27_handler), (28, isr_hypervisor_injection_handler),
     (29, isr_vmm_communication_handler), (30, isr_security_exception_handler), (31, isr_reserved_31_handler)]"

definition IDT_LIST_PIC :: "(nat \<times> 'a isr) list" where
  "IDT_LIST_PIC = [(32, isr_timer_handler), (33, isr_keyboard_handler), (34, isr_cascade_handler), (35, isr_com2_handler),
     (36, isr_com1_handler), (37, isr_lpt2_handler), (38, isr_floppy_handler), (39, isr_lpt1_handler),
     (40, isr_rtc_handler), (41, isr_reserved_41_handler), (42, isr_reserved_42_handler),
     (43, isr_reserved_43_handler), (44, isr_ps2_mouse_handler), (45, isr_fpu_handler),
     (46, isr_ata1_handler), (47, isr_ata2_handler)]"

definition IDT_LIST_SYSCALL :: "(nat \<times> 'a isr) list" where
  "IDT_LIST_SYSCALL = [(128, isr_syscall_handler)]"

definition IDT_LIST_OTHER :: "nat list" where
  "IDT_LIST_OTHER = [48..<128] @ [129..<256]"

definition idt_set_gate :: "u8 \<Rightarrow> u32 \<Rightarrow> u16 \<Rightarrow> u8 \<Rightarrow> idt_entry list \<Rightarrow> idt_entry list" where
  "idt_set_gate num b sel fl idt = idt[unat num := (idt ! unat num)\<lparr>base_low := ucast (b AND 0xFFFF),
     base_high := ucast (drop_bit 16 b AND 0xFFFF), selector := sel, zero := 0, flags := fl\<rparr>]"

definition set_gates :: "(nat \<Rightarrow> u32) \<Rightarrow> u8 \<Rightarrow> nat list \<Rightarrow> idt_entry list \<Rightarrow> idt_entry list" where
  "set_gates stub fl nums idt = foldl (\<lambda>t n. idt_set_gate (of_nat n) (stub n) 0x08 fl t) idt nums"

definition idt_set :: "(nat \<Rightarrow> u32) \<Rightarrow> idt_entry list \<Rightarrow> idt_entry list" where
  "idt_set stub idt =
     (let t1 = set_gates stub 0x8E (map fst (IDT_LIST_EXP :: (nat \<times> unit isr) list)) idt;
          t2 = set_gates stub 0x8E (map fst (IDT_LIST_PIC :: (nat \<times> unit isr) list)) t1;
          t3 = set_gates stub 0xEE (map fst (IDT_LIST_SYSCALL :: (nat \<times> unit isr) list)) t2
      in set_gates stub 0x8E IDT_LIST_OTHER t3)"

definition register_interrupt_handler :: "nat \<Rightarrow> 'a isr \<Rightarrow> 'a isr option list \<Rightarrow> 'a isr option list" where
  "register_interrupt_handler n h hs = hs[n := Some h]"

definition register_interrupt_handlers :: "'a isr option list \<Rightarrow> 'a isr option list" where
  "register_interrupt_handlers hs =
     foldl (\<lambda>t (n, h). register_interrupt_handler n h t) hs (IDT_LIST_EXP @ IDT_LIST_PIC @ IDT_LIST_SYSCALL)"

definition init_idt :: "(nat \<Rightarrow> u32) \<Rightarrow> u32 \<Rightarrow> idt_entry list \<times> 'a isr option list \<Rightarrow> idt_ptr \<times> idt_entry list \<times> 'a isr option list" where
  "init_idt stub idt_addr = (\<lambda>(idt, hs).
     (\<lparr>limit = of_nat (sizeof_idt_entry * IDT_ITEM_NUM - 1), base = idt_addr\<rparr>, idt_set stub idt, register_interrupt_handlers hs))"

definition isr_handler :: "'a isr option list \<Rightarrow> 'a isr" where
  "isr_handler hs th frame s =
     (let n = unat (load32 (ram s) (frame + tf_int_no))
      in if n \<ge> IDT_ITEM_NUM then Inl (Undef ''interrupt_handlers index'')
         else (case hs ! n of Some h \<Rightarrow> h th frame s | None \<Rightarrow> isr_default_handler th frame s))"

subsection \<open>Where a vector leads\<close>

lemma unat_of_nat_small: "n < 2 ^ LENGTH('a) \<Longrightarrow> unat (of_nat n :: 'a::len word) = n"
  by (simp add: unsigned_of_nat take_bit_nat_eq_self)

definition gate_target :: "idt_entry \<Rightarrow> u32" where
  "gate_target g = push_bit 16 (ucast (base_high g)) OR ucast (base_low g)"

definition idt_handlers :: "'a isr option list" where
  "idt_handlers = register_interrupt_handlers (replicate IDT_ITEM_NUM None)"

definition idt_list :: "(nat \<times> 'a isr) list" where
  "idt_list = IDT_LIST_EXP @ IDT_LIST_PIC @ IDT_LIST_SYSCALL"

lemma registered_other:
  "k \<notin> fst ` set L \<Longrightarrow> foldl (\<lambda>t (n, h). register_interrupt_handler n h t) hs L ! k = hs ! k"
  by (induction L arbitrary: hs) (auto simp: register_interrupt_handler_def)

lemma registered_at:
  "distinct (map fst L) \<Longrightarrow> (k, h) \<in> set L \<Longrightarrow> k < length hs \<Longrightarrow>
   foldl (\<lambda>t (n, h). register_interrupt_handler n h t) hs L ! k = Some h"
proof (induction L arbitrary: hs)
  case (Cons p L)
  show ?case
  proof (cases "p = (k, h)")
    case True
    then have "k \<notin> fst ` set L" using Cons.prems(1) by simp
    then show ?thesis using True registered_other [of k L] Cons.prems(3) by (simp add: register_interrupt_handler_def)
  next
    case False
    then have "(k, h) \<in> set L" using Cons.prems(2) by simp
    then show ?thesis using Cons by (cases p) (simp add: register_interrupt_handler_def)
  qed
qed simp

lemma idt_vectors: "map fst (IDT_LIST_EXP :: (nat \<times> 'a isr) list) = [0..<32]"
  "map fst (IDT_LIST_PIC :: (nat \<times> 'a isr) list) = [32..<48]"
  "map fst (IDT_LIST_SYSCALL :: (nat \<times> 'a isr) list) = [128]"
  by (simp_all add: IDT_LIST_EXP_def IDT_LIST_PIC_def IDT_LIST_SYSCALL_def upt_rec)

lemma idt_list_vectors: "map fst (idt_list :: (nat \<times> 'a isr) list) = [0..<48] @ [128]"
  unfolding idt_list_def map_append idt_vectors by (simp add: upt_add_eq_append [of 0 32 16, simplified])

lemma idt_handlers_at: "(k, h) \<in> set idt_list \<Longrightarrow> idt_handlers ! k = Some h"
proof -
  assume a: "(k, h) \<in> set (idt_list :: (nat \<times> 'a isr) list)"
  then have "k \<in> set (map fst (idt_list :: (nat \<times> 'a isr) list))" by force
  then have "k < 256" unfolding idt_list_vectors by auto
  moreover have "distinct (map fst (idt_list :: (nat \<times> 'a isr) list))" unfolding idt_list_vectors by simp
  ultimately show ?thesis using registered_at [of idt_list k h "replicate 256 None"] a
    by (simp add: idt_handlers_def register_interrupt_handlers_def IDT_ITEM_NUM_def idt_list_def)
qed

lemma idt_handlers_none: "48 \<le> k \<Longrightarrow> k < 256 \<Longrightarrow> k \<noteq> 128 \<Longrightarrow> (idt_handlers ! k :: 'a isr option) = None"
proof -
  assume a: "48 \<le> k" "k < 256" "k \<noteq> 128"
  then have "k \<notin> set (map fst (idt_list :: (nat \<times> 'a isr) list))" unfolding idt_list_vectors by auto
  then have "k \<notin> fst ` set (idt_list :: (nat \<times> 'a isr) list)" by simp
  from registered_other [OF this, of "replicate 256 None"] a show ?thesis
    by (simp add: idt_handlers_def register_interrupt_handlers_def IDT_ITEM_NUM_def idt_list_def)
qed

lemma isr_handler_at:
  assumes "(n, h) \<in> set idt_list" "load32 (ram s) (frame + tf_int_no) = of_nat n"
  shows "isr_handler idt_handlers th frame s = h th frame s"
proof -
  have "n \<in> set (map fst (idt_list :: (nat \<times> 'a isr) list))" using assms(1) by force
  then have "n < 256" unfolding idt_list_vectors by auto
  then have "unat (of_nat n :: u32) = n" by (simp add: unat_of_nat_small)
  then show ?thesis using assms \<open>n < 256\<close> idt_handlers_at [OF assms(1)] by (simp add: isr_handler_def IDT_ITEM_NUM_def)
qed

lemmas idt_members = idt_list_def IDT_LIST_EXP_def IDT_LIST_PIC_def IDT_LIST_SYSCALL_def

subsection \<open>The gates\<close>

lemma idt_set_gate_length [simp]: "length (idt_set_gate n b s f t) = length t"
  by (simp add: idt_set_gate_def)

lemma gate_halves: "push_bit 16 (ucast (ucast (drop_bit 16 b AND 0xFFFF) :: u16)) OR ucast (ucast (b AND 0xFFFF) :: u16) = (b :: u32)"
proof -
  have m: "(0xFFFF :: u32) = mask 16" by (simp add: mask_eq_exp_minus_1)
  show ?thesis unfolding m by (rule bit_word_eqI) (auto simp: bit_simps)
qed

definition gate_is :: "u32 \<Rightarrow> u8 \<Rightarrow> idt_entry \<Rightarrow> bool" where
  "gate_is b fl g \<longleftrightarrow> gate_target g = b \<and> selector g = 0x08 \<and> zero g = 0 \<and> flags g = fl"

lemma gate_set: "n < 256 \<Longrightarrow> length t = 256 \<Longrightarrow> gate_is b fl (idt_set_gate (of_nat n) b 0x08 fl t ! n)"
  by (simp add: idt_set_gate_def gate_is_def gate_target_def unat_of_nat_small gate_halves)

lemma gate_other: "n < 256 \<Longrightarrow> k \<noteq> n \<Longrightarrow> idt_set_gate (of_nat n) b sel fl t ! k = t ! k"
  by (simp add: idt_set_gate_def unat_of_nat_small)

lemma set_gates_length [simp]: "length (set_gates stub fl ns t) = length t"
  unfolding set_gates_def by (induction ns arbitrary: t) simp_all

lemma set_gates_Cons: "set_gates stub fl (n # ns) t = set_gates stub fl ns (idt_set_gate (of_nat n) (stub n) 0x08 fl t)"
  by (simp add: set_gates_def)

lemma set_gates_other: "k \<notin> set ns \<Longrightarrow> \<forall>n \<in> set ns. n < 256 \<Longrightarrow> set_gates stub fl ns t ! k = t ! k"
proof (induction ns arbitrary: t)
  case (Cons n ns)
  then show ?case by (simp add: set_gates_Cons gate_other)
qed (simp add: set_gates_def)

lemma set_gates_at:
  "k \<in> set ns \<Longrightarrow> \<forall>n \<in> set ns. n < 256 \<Longrightarrow> length t = 256 \<Longrightarrow> gate_is (stub k) fl (set_gates stub fl ns t ! k)"
proof (induction ns arbitrary: t)
  case (Cons n ns)
  show ?case
  proof (cases "k \<in> set ns")
    case False
    then have "k = n" using Cons.prems(1) by simp
    then show ?thesis using False Cons.prems by (simp add: set_gates_Cons set_gates_other gate_set)
  qed (use Cons in \<open>simp add: set_gates_Cons\<close>)
qed simp

lemma set_gates_range:
  assumes "b \<le> 256" "length t = 256"
  shows "a \<le> n \<Longrightarrow> n < b \<Longrightarrow> gate_is (stub n) fl (set_gates stub fl [a..<b] t ! n)"
    and "\<not> (a \<le> n \<and> n < b) \<Longrightarrow> set_gates stub fl [a..<b] t ! n = t ! n"
  using assms by (simp_all add: set_gates_at set_gates_other)

lemma set_gates_append: "set_gates stub fl (xs @ ys) t = set_gates stub fl ys (set_gates stub fl xs t)"
  by (simp add: set_gates_def)

lemma idt_set_gates:
  assumes "length idt = 256" "n < 256"
  shows "gate_is (stub n) (if n = 128 then 0xEE else 0x8E) (idt_set stub idt ! n)"
proof -
  define t1 where "t1 = set_gates stub 0x8E [0..<32] idt"
  define t2 where "t2 = set_gates stub 0x8E [32..<48] t1"
  define t3 where "t3 = set_gates stub 0xEE [128..<129] t2"
  define t4 where "t4 = set_gates stub 0x8E [48..<128] t3"
  have e: "idt_set stub idt = set_gates stub 0x8E [129..<256] t4"
    unfolding idt_set_def Let_def idt_vectors IDT_LIST_OTHER_def set_gates_append t1_def t2_def t3_def t4_def
    by (simp only: upt_rec [of 128 129] upt_rec [of 129 129]) simp
  have len: "length t1 = 256" "length t2 = 256" "length t3 = 256" "length t4 = 256"
    using assms(1) by (simp_all add: t1_def t2_def t3_def t4_def)
  have g1: "gate_is (stub n) 0x8E (t1 ! n)" if "n < 32"
    using set_gates_range(1) [OF _ assms(1), of 32 0 n stub "0x8E"] that by (simp only: t1_def)
  have g2: "gate_is (stub n) 0x8E (t2 ! n)" if "n < 48"
    using set_gates_range [OF _ len(1), of 48 32 n stub "0x8E"] g1 that by (simp only: t2_def) (cases "32 \<le> n"; simp)
  have g3: "gate_is (stub n) (if n = 128 then 0xEE else 0x8E) (t3 ! n)" if "n < 48 \<or> n = 128"
    using set_gates_range [OF _ len(2), of 129 128 n stub "0xEE"] g2 that by (simp only: t3_def) (cases "n = 128"; auto)
  have g4: "gate_is (stub n) (if n = 128 then 0xEE else 0x8E) (t4 ! n)" if "n < 129"
    using set_gates_range [OF _ len(3), of 128 48 n stub "0x8E"] g3 that by (simp only: t4_def) (cases "48 \<le> n \<and> n < 128"; auto)
  show ?thesis unfolding e
    using set_gates_range [OF _ len(4), of 256 129 n stub "0x8E"] g4 assms(2) by (cases "129 \<le> n"; simp)
qed
subsection \<open>How each handler returns\<close>

lemma quiet_fields [simp]:
  "quiet s (s'\<lparr>timer_ticks := t\<rparr>) = quiet s s'" "quiet s (s'\<lparr>cr0 := c\<rparr>) = quiet s s'"
  "quiet s (s'\<lparr>fpu_status := f\<rparr>) = quiet s s'" "quiet s (s'\<lparr>mxcsr := x\<rparr>) = quiet s s'"
  by (simp_all add: quiet_def)

lemma timer_returns:
  assumes "sys_ok s" "load32 (ram s) (frame + tf_int_no) = 32"
  shows "\<exists>s'. isr_timer_handler th frame s = Inr (th, s') \<and> quiet s s' \<and> timer_ticks s' = timer_ticks s + 1
    \<and> eois s' = (Suc (fst (eois s)), Suc (snd (eois s)))"
  using assms by (simp add: isr_timer_handler_def timer_handler_def send_eoi_def quiet_def eois_def pic_ports sys_ok_def)

lemma keyboard_returns:
  assumes "sys_ok s" "load32 (ram s) (frame + tf_int_no) = 33"
  shows "\<exists>s'. isr_keyboard_handler th frame s = Inr (th, s') \<and> quiet s s' \<and> timer_ticks s' = timer_ticks s
    \<and> eois s' = (Suc (fst (eois s)), Suc (snd (eois s)))"
proof -
  obtain d' where "keyboard_handler 33 (ports s) = Inr (send_eoi 33 d')" "uart_ready d'"
    "uart_sends (snd (inb 0x60 (ports s))) (key_reaction (fst (inb 0x60 (ports s)))) d'"
    using keyboard_step [of "ports s" 33] assms(1) by (auto simp: sys_ok_def)
  then show ?thesis using assms
    by (auto simp: isr_keyboard_handler_def with_ports_def send_eoi_def quiet_def eois_def pic_ports uart_sends_def)
qed

lemma ata1_returns:
  assumes "sys_ok s" "load32 (ram s) (frame + tf_int_no) = 46"
  shows "\<exists>s'. isr_ata1_handler th frame s = Inr (th, s') \<and> quiet s s' \<and> timer_ticks s' = timer_ticks s
    \<and> eois s' = (Suc (fst (eois s)), Suc (snd (eois s)))"
  unfolding isr_ata1_handler_def
  by (rule say_returns [OF assms(1)])
    (use assms in \<open>auto simp: printf_text_plain send_eoi_def quiet_def eois_def pic_ports\<close>)

lemma plain_handlers:
  "isr_reserved_31_handler th frame s = Inr (th, s)"
  "isr_cascade_handler th frame s = Inr (th, s)" "isr_com2_handler th frame s = Inr (th, s)"
  "isr_com1_handler th frame s = Inr (th, s)" "isr_lpt2_handler th frame s = Inr (th, s)"
  "isr_floppy_handler th frame s = Inr (th, s)" "isr_lpt1_handler th frame s = Inr (th, s)"
  "isr_rtc_handler th frame s = Inr (th, s)" "isr_reserved_41_handler th frame s = Inr (th, s)"
  "isr_reserved_42_handler th frame s = Inr (th, s)" "isr_reserved_43_handler th frame s = Inr (th, s)"
  "isr_ps2_mouse_handler th frame s = Inr (th, s)" "isr_fpu_handler th frame s = Inr (th, s)"
  "isr_ata2_handler th frame s = Inr (th, s)"
  by (simp_all add: isr_reserved_31_handler_def isr_cascade_handler_def isr_com2_handler_def isr_com1_handler_def
    isr_lpt2_handler_def isr_floppy_handler_def isr_lpt1_handler_def isr_rtc_handler_def isr_reserved_41_handler_def
    isr_reserved_42_handler_def isr_reserved_43_handler_def isr_ps2_mouse_handler_def isr_fpu_handler_def isr_ata2_handler_def)

definition ticks_of :: "nat \<Rightarrow> u32" where "ticks_of n = (if n = 32 then 1 else 0)"
definition eois_of :: "nat \<Rightarrow> nat" where "eois_of n = (if n \<in> {32, 33, 46} then 1 else 0)"

text \<open>What every hardware interrupt does, by the handler the list gives its vector.\<close>

lemma pic_members: "(n, h) \<in> set (IDT_LIST_PIC :: (nat \<times> 'a isr) list) \<Longrightarrow>
   (n = 32 \<and> h = isr_timer_handler) \<or> (n = 33 \<and> h = isr_keyboard_handler) \<or> (n = 46 \<and> h = isr_ata1_handler)
   \<or> (n \<notin> {32, 33, 46} \<and> (\<forall>th frame s. h th frame s = Inr (th, s)))"
  unfolding IDT_LIST_PIC_def by (elim set_ConsD [elim_format] disjE; force simp: plain_handlers)

lemma hardware_returns:
  assumes "(n, h) \<in> set IDT_LIST_PIC" "sys_ok s" "load32 (ram s) (frame + tf_int_no) = of_nat n"
  shows "\<exists>s'. h th frame s = Inr (th, s') \<and> quiet s s' \<and> timer_ticks s' = timer_ticks s + ticks_of n
    \<and> eois s' = (fst (eois s) + eois_of n, snd (eois s) + eois_of n)"
proof -
  consider "n = 32" "h = isr_timer_handler" | "n = 33" "h = isr_keyboard_handler" | "n = 46" "h = isr_ata1_handler"
    | "n \<notin> {32, 33, 46}" "h th frame s = Inr (th, s)" using pic_members [OF assms(1)] by blast
  then show ?thesis
  proof cases
    case 1
    then show ?thesis using timer_returns [OF assms(2), of frame th] assms(3) by (simp add: ticks_of_def eois_of_def)
  next
    case 2
    then show ?thesis using keyboard_returns [OF assms(2), of frame th] assms(3) by (simp add: ticks_of_def eois_of_def)
  next
    case 3
    then show ?thesis using ata1_returns [OF assms(2), of frame th] assms(3) by (simp add: ticks_of_def eois_of_def)
  next
    case 4
    then show ?thesis using quiet_refl [OF sys_ok_ready [OF assms(2)]] by (auto simp: ticks_of_def eois_of_def)
  qed
qed

lemma pic_vector: "32 \<le> n \<Longrightarrow> n < 48 \<Longrightarrow> \<exists>h. (n, h) \<in> set (IDT_LIST_PIC :: (nat \<times> 'a isr) list)"
proof -
  assume "32 \<le> n" "n < 48"
  then have "n \<in> set (map fst (IDT_LIST_PIC :: (nat \<times> 'a isr) list))" unfolding idt_vectors by (simp only: set_upt atLeastLessThan_iff)
  then show ?thesis by force
qed

lemma hardware_step:
  fixes s :: "'a traps_scheme"
  assumes "sys_ok s" "load32 (ram s) (frame + tf_int_no) = of_nat n" "32 \<le> n" "n < 48"
  shows "\<exists>s'. isr_handler idt_handlers th frame s = Inr (th, s') \<and> quiet s s' \<and> timer_ticks s' = timer_ticks s + ticks_of n
    \<and> eois s' = (fst (eois s) + eois_of n, snd (eois s) + eois_of n)"
proof -
  obtain h :: "'a isr" where h: "(n, h) \<in> set IDT_LIST_PIC" using pic_vector [OF assms(3,4)] by blast
  then have "isr_handler idt_handlers th frame s = h th frame s"
    by (intro isr_handler_at [OF _ assms(2)]) (simp add: idt_list_def)
  then show ?thesis using hardware_returns [OF h assms(1,2)] by simp
qed

subsection \<open>Exceptions\<close>

text \<open>How a handler ends: it halts, or it comes back having only written to the serial line.\<close>

definition halts :: "'a isr \<Rightarrow> bool" where
  "halts h \<longleftrightarrow> (\<forall>th frame s. sys_ok s \<longrightarrow> h th frame s = Inl Hang)"

definition returns :: "'a isr \<Rightarrow> bool" where
  "returns h \<longleftrightarrow> (\<forall>th frame s. sys_ok s \<longrightarrow> (\<exists>s'. h th frame s = Inr (th, s') \<and> quiet s s'
     \<and> timer_ticks s' = timer_ticks s \<and> eois s' = eois s))"

lemma say_halts:
  assumes "sys_ok s" "printf_text fmt args \<noteq> None" "\<And>d. sys_ok (s\<lparr>ports := d\<rparr>) \<Longrightarrow> f (s\<lparr>ports := d\<rparr>) = Inl Hang"
  shows "bindR (say fmt args s) f = Inl Hang"
  by (rule say_returns [OF assms(1,2)]) (rule assms(3))

lemma halting_handlers:
  "halts isr_debug_exception_handler" "halts isr_nmi_handler" "halts isr_invalid_opcode_handler"
  "halts isr_double_fault_handler" "halts isr_invalid_tss_handler" "halts isr_stack_segment_fault_handler"
  "halts isr_general_protection_fault_handler" "halts isr_machine_check_handler"
  unfolding halts_def isr_debug_exception_handler_def isr_nmi_handler_def isr_invalid_opcode_handler_def
    isr_double_fault_handler_def isr_invalid_tss_handler_def isr_stack_segment_fault_handler_def
    isr_general_protection_fault_handler_def isr_machine_check_handler_def
  by (intro allI impI say_halts; simp add: takes_arg_def)+

lemma say_then_return:
  assumes "sys_ok s" "printf_text fmt args \<noteq> None"
    and "\<And>s'. quiet s s' \<Longrightarrow> quiet s (g s')" "\<And>s'. timer_ticks (g s') = timer_ticks s'" "\<And>s'. eois (g s') = eois s'"
  shows "\<exists>s'. bindR (say fmt args s) (\<lambda>s. Inr (th, g s)) = Inr (th, s') \<and> quiet s s' \<and> timer_ticks s' = timer_ticks s \<and> eois s' = eois s"
  by (rule say_returns [OF assms(1,2)]) (use assms(3-5) in auto)

lemma returning_handlers:
  "returns isr_breakpoint_handler" "returns isr_overflow_handler" "returns isr_bounds_check_handler"
  "returns isr_device_not_available_handler" "returns isr_coprocessor_segment_handler"
  "returns isr_segment_not_present_handler" "returns isr_reserved_15_handler"
  "returns isr_floating_point_handler" "returns isr_alignment_check_handler"
  "returns isr_simd_floating_point_handler" "returns isr_virtualization_handler"
  "returns isr_control_protection_handler" "returns isr_reserved_22_handler" "returns isr_reserved_23_handler"
  "returns isr_reserved_24_handler" "returns isr_reserved_25_handler" "returns isr_reserved_26_handler"
  "returns isr_reserved_27_handler" "returns isr_hypervisor_injection_handler"
  "returns isr_vmm_communication_handler"
  unfolding returns_def isr_breakpoint_handler_def isr_overflow_handler_def isr_bounds_check_handler_def
    isr_device_not_available_handler_def isr_coprocessor_segment_handler_def isr_segment_not_present_handler_def
    isr_reserved_15_handler_def isr_floating_point_handler_def isr_alignment_check_handler_def
    isr_simd_floating_point_handler_def isr_virtualization_handler_def isr_control_protection_handler_def
    isr_reserved_22_handler_def isr_reserved_23_handler_def isr_reserved_24_handler_def isr_reserved_25_handler_def
    isr_reserved_26_handler_def isr_reserved_27_handler_def isr_hypervisor_injection_handler_def isr_vmm_communication_handler_def
  by (intro allI impI say_then_return; simp add: takes_arg_def eois_def)+

lemma silent_handler_returns: "returns isr_reserved_31_handler"
  using quiet_refl sys_ok_ready by (auto simp: returns_def isr_reserved_31_handler_def)

lemma security_handler_returns: "returns isr_security_exception_handler"
  unfolding returns_def isr_security_exception_handler_def
proof (intro allI impI, rule say_returns)
  fix s :: "'a traps_scheme" and d th
  assume d: "sys_ok (s\<lparr>ports := d\<rparr>)" "quiet s (s\<lparr>ports := d\<rparr>)" "eois (s\<lparr>ports := d\<rparr>) = eois s"
  from say_then_return [OF d(1), of "lit (''Security violation detected'' @ [CHR 0x0A])" "[]" "\<lambda>s. s" th] d(2,3)
  show "\<exists>s'. bindR (say (lit (''Security violation detected'' @ [CHR 0x0A])) [] (s\<lparr>ports := d\<rparr>)) (\<lambda>s. Inr (th, s)) = Inr (th, s')
    \<and> quiet s s' \<and> timer_ticks s' = timer_ticks s \<and> eois s' = eois s"
    by (force intro: quiet_trans)
qed (simp_all add: takes_arg_def)

lemma divide_error_returns:
  assumes "sys_ok s" "aligned 2 frame"
  shows "\<exists>s' d. isr_divide_error_handler th frame s = Inr (th, s') \<and> quiet s (s\<lparr>ports := d\<rparr>)
    \<and> s' = s\<lparr>ports := d, ram := store32 (store32 (ram s) (frame + tf_eax) 0) (frame + tf_eip) (load32 (ram s) (frame + tf_eip) + 2)\<rparr>"
  unfolding isr_divide_error_handler_def Let_def
proof (rule say_returns [OF assms(1)])
  fix d assume "quiet s (s\<lparr>ports := d\<rparr>)"
  then show "\<exists>s' d'. Inr (th, s\<lparr>ports := d, ram := store32 (store32 (ram (s\<lparr>ports := d\<rparr>)) (frame + tf_eax) 0) (frame + tf_eip)
      (load32 (store32 (ram (s\<lparr>ports := d\<rparr>)) (frame + tf_eax) 0) (frame + tf_eip) + 2)\<rparr>) = Inr (th, s') \<and> quiet s (s\<lparr>ports := d'\<rparr>)
    \<and> s' = s\<lparr>ports := d', ram := store32 (store32 (ram s) (frame + tf_eax) 0) (frame + tf_eip) (load32 (ram s) (frame + tf_eip) + 2)\<rparr>"
    using assms(2) by (intro exI [of _ d] exI conjI) (rule refl | simp add: frame_offsets aligned_plus_word load32_store32_other)+
qed (simp_all add: takes_arg_def)

lemma say_undefined: "sys_ok s \<Longrightarrow> printf_text fmt args = None \<Longrightarrow> \<exists>w. bindR (say fmt args s) f = Inl (Undef w)"
  using serial_printf_none [of fmt args "ports s"] by (auto simp: say_def with_ports_def sys_ok_def)

lemma say_on:
  "sys_ok s \<Longrightarrow> printf_text fmt args \<noteq> None \<Longrightarrow> (\<And>s'. sys_ok s' \<Longrightarrow> \<exists>w. f s' = Inl (Undef w)) \<Longrightarrow> \<exists>w. bindR (say fmt args s) f = Inl (Undef w)"
  by (rule say_returns)

lemma say_if_on:
  "sys_ok s \<Longrightarrow> printf_text fmt args \<noteq> None \<Longrightarrow> printf_text fmt' args' \<noteq> None \<Longrightarrow> (\<And>s'. sys_ok s' \<Longrightarrow> \<exists>w. f s' = Inl (Undef w)) \<Longrightarrow>
    \<exists>w. bindR (if b then say fmt args s else say fmt' args' s) f = Inl (Undef w)"
  by (cases b) (simp_all add: say_on)

lemma page_fault_undefined:
  assumes "sys_ok s"
  shows "\<exists>w. isr_page_fault_handler th frame s = Inl (Undef w)"
  unfolding isr_page_fault_handler_def
  by (rule say_on [OF assms], simp add: takes_arg_def, rule say_if_on, assumption, simp add: takes_arg_def,
      simp add: takes_arg_def, rule say_on, assumption, simp add: takes_arg_def, rule say_undefined, assumption)
    (simp add: takes_arg_def)

definition fatal_vectors :: "nat set" where
  "fatal_vectors = {1, 2, 6, 8, 10, 12, 13, 18}"

lemma exp_members:
  "(n, h) \<in> set (IDT_LIST_EXP :: (nat \<times> 'a isr) list) \<Longrightarrow>
   (n \<in> fatal_vectors \<and> halts h) \<or> (n = 14 \<and> h = isr_page_fault_handler) \<or> (n = 0 \<and> h = isr_divide_error_handler)
   \<or> (n \<notin> fatal_vectors \<union> {0, 14} \<and> returns h)"
  unfolding IDT_LIST_EXP_def fatal_vectors_def
  by (simp only: list.set insert_iff empty_iff, elim disjE)
    (simp_all add: halting_handlers returning_handlers silent_handler_returns security_handler_returns)

lemma exp_vector: "n < 32 \<Longrightarrow> \<exists>h. (n, h) \<in> set (IDT_LIST_EXP :: (nat \<times> 'a isr) list)"
proof -
  assume "n < 32"
  then have "n \<in> set (map fst (IDT_LIST_EXP :: (nat \<times> 'a isr) list))" unfolding idt_vectors by (simp only: set_upt atLeastLessThan_iff le0 simp_thms)
  then show ?thesis by force
qed

lemma user_registers_back:
  assumes "user_mode r" "aligned 2 (esp0 t)" "c = trap_enter t n (m, r)"
  shows "snd (trap_leave (store32 (fst c) (r_esp (snd c) + tf_eax) v, snd c)) = r\<lparr>r_eax := v\<rparr>"
proof -
  note cells = trap_frame_cells [OF assms(1,2), of n m, folded assms(3)]
  have e: "r_esp (snd c) + tf_eax = esp0 t - 48" using cells(1) by (simp add: tf_eax_def)
  show ?thesis unfolding e
    using trap_leave_regs [of "snd c" "esp0 t - 76" "store32 (fst c) (esp0 t - 48) v"] cells assms(1,2)
    by (simp add: frame_steps user_mode_def aligned_minus_word)
qed

subsection \<open>A machine with its trap registers\<close>

definition with_traps :: "sys \<Rightarrow> traps" where
  "with_traps s = sys.extend s (traps.fields 41 0 0 0 0)"

lemma with_traps_simps [simp]:
  "ram (with_traps s) = ram s" "ptable (with_traps s) = ptable s" "locks (with_traps s) = locks s"
  "timer_ticks (with_traps s) = 41" "sched_pos (with_traps s) = sched_pos s" "ports (with_traps s) = ports s"
  "cpu_id (with_traps s) = cpu_id s" "cpus (with_traps s) = cpus s" "eflags (with_traps s) = eflags s"
  by (simp_all add: with_traps_def sys.defs traps.defs)

lemma with_traps_inv: "sched_inv th s \<Longrightarrow> sched_inv th (with_traps s)"
proof -
  assume i: "sched_inv th s"
  have "lock_state (with_traps s) hs b = lock_state s hs b" for hs b by (simp add: lock_state_def if_on_def c_cpu_def)
  then have "lock_state (with_traps s) = lock_state s" by (simp add: fun_eq_iff)
  then show ?thesis using i
    by (cases th) (auto simp: sched_inv_def sys_ok_def running_only_def cur_def c_cpu_def)
qed

lemma example_inv: "sched_inv (Run 3) (with_traps (example_running\<lparr>ram := m\<rparr>))"
  by (rule with_traps_inv [OF store_inv [OF example_run(1)]])

subsection \<open>Properties\<close>

text \<open>C20: the interrupt table: after init_idt every one of the 256 gates is a present interrupt gate in the
  kernel code segment that leads to the stub of its own vector; only vector 128, the system call, may be raised
  from user mode; the table register covers exactly the table, and exactly the exceptions, the sixteen lines of
  the controllers and the system call have a C handler.\<close>

theorem init_idt_gates:
  assumes "length idt = 256"
  shows "let (p, idt', hs) = init_idt stub a (idt, replicate 256 None) in
    limit p = 2047 \<and> base p = a \<and> (hs :: 'a isr option list) = idt_handlers
    \<and> (\<forall>n < 256. gate_target (idt' ! n) = stub n \<and> selector (idt' ! n) = KER_CS \<and> zero (idt' ! n) = 0
        \<and> bit (flags (idt' ! n)) 7 \<and> flags (idt' ! n) AND 0x1F = 0x0E
        \<and> drop_bit 5 (flags (idt' ! n)) AND 3 = (if n = 128 then 3 else 0)
        \<and> (hs ! n \<noteq> None \<longleftrightarrow> n < 48 \<or> n = 128))"
proof -
  have g: "gate_is (stub n) (if n = 128 then 0xEE else 0x8E) (idt_set stub idt ! n)" if "n < 256" for n
    by (rule idt_set_gates [OF assms that])
  have h: "(idt_handlers ! n :: 'a isr option) \<noteq> None \<longleftrightarrow> n < 48 \<or> n = 128" if n: "n < 256" for n
  proof (cases "n < 48 \<or> n = 128")
    case True
    then have "n \<in> set (map fst (idt_list :: (nat \<times> 'a isr) list))" unfolding idt_list_vectors by auto
    then obtain h where "(n, h) \<in> set (idt_list :: (nat \<times> 'a isr) list)" by auto
    then show ?thesis using True idt_handlers_at by fastforce
  qed (use n idt_handlers_none [of n] in auto)
  show ?thesis using g h
    by (auto simp: init_idt_def gate_is_def sizeof_idt_entry_def IDT_ITEM_NUM_def idt_handlers_def KER_CS_def KER_CI_def split: if_splits)
qed

theorem init_idt_gates_witness:
  "(let (p, idt', hs) = init_idt (\<lambda>n. 0x80100000 + of_nat (16 * n)) 0x80120000
      (replicate 256 \<lparr>base_low = 0, selector = 0, zero = 0, flags = 0, base_high = 0\<rparr>, replicate 256 (None :: unit isr option))
    in gate_target (idt' ! 14) = 0x801000E0 \<and> hs ! 200 = None)"
proof -
  define s0 where "s0 = replicate 256 \<lparr>base_low = 0, selector = 0, zero = 0, flags = 0, base_high = 0\<rparr>"
  have "length s0 = 256" by (simp add: s0_def)
  note i = init_idt_gates [OF this, of "\<lambda>n. 0x80100000 + of_nat (16 * n)" "0x80120000", where 'a = unit]
  obtain p idt' hs where e: "init_idt (\<lambda>n. 0x80100000 + of_nat (16 * n)) 0x80120000 (s0, replicate 256 (None :: unit isr option)) = (p, idt', hs)"
    by (metis prod_cases3)
  have "gate_target (idt' ! 14) = 0x801000E0" "hs ! 200 = None" using i unfolding e Let_def prod.case
    by (auto dest: spec [of _ 14] spec [of _ 200])
  then show ?thesis unfolding s0_def [symmetric] e by simp
qed

text \<open>C21: hardware interrupts are transparent: every vector of the two controllers comes back to the
  interrupted thread with memory, processes, locks and the scheduler untouched; only the timer counts a tick, and only
  the timer, the keyboard and the first disk end the interrupt, at both controllers.\<close>

theorem hardware_interrupts_return:
  assumes "sched_inv th s" "load32 (ram s) (frame + tf_int_no) = of_nat n" "32 \<le> n" "n < 48"
  shows "\<exists>s'. isr_handler idt_handlers th frame s = Inr (th, s') \<and> sched_inv th s' \<and> quiet s s'
    \<and> timer_ticks s' = timer_ticks s + (if n = 32 then 1 else 0)
    \<and> eois s' = (if n \<in> {32, 33, 46} then (fst (eois s) + 1, snd (eois s) + 1) else eois s)"
proof -
  obtain s' where "isr_handler idt_handlers th frame s = Inr (th, s')" "quiet s s'"
    "timer_ticks s' = timer_ticks s + ticks_of n" "eois s' = (fst (eois s) + eois_of n, snd (eois s) + eois_of n)"
    using hardware_step [OF sched_inv_ok [OF assms(1)] assms(2-4)] by blast
  then show ?thesis using quiet_inv [OF _ assms(1)]
    by (intro exI [of _ s']) (auto simp: ticks_of_def eois_of_def)
qed

theorem hardware_interrupts_return_witness:
  "\<exists>s'. isr_handler idt_handlers (Run 3) 0x80600FB4 (with_traps (example_running\<lparr>ram := store32 (\<lambda>_. 0) 0x80600FE4 32\<rparr>)) = Inr (Run 3, s')
    \<and> timer_ticks s' = 42"
  using hardware_interrupts_return [OF example_inv, of "store32 (\<lambda>_. 0) 0x80600FE4 32" "0x80600FB4" 32]
  by (auto simp: tf_int_no_def)



text \<open>C19: a system call is a round trip: for every number but exit and write, raised from user mode, the
  stub, the dispatch, the call and the return through trap_ret give the program back every register as it was except
  eax, which is -1; only the frame on the kernel stack is written, and the kernel's invariant holds.\<close>

theorem system_call_round_trip:
  assumes "user_mode r" "aligned 2 (esp0 t)" "c = trap_enter t 128 (ram s, r)"
    and "sched_inv (Run i) s" "r_eax r \<notin> {SYS_EXIT, SYS_WRITE}"
  shows "\<exists>s'. isr_handler idt_handlers (Run i) (r_esp (snd c)) (s\<lparr>ram := fst c\<rparr>) = Inr (Run i, s')
    \<and> snd (trap_leave (ram s', snd c)) = r\<lparr>r_eax := - 1\<rparr> \<and> sched_inv (Run i) s' \<and> ptable s' = ptable s
    \<and> (\<forall>a. \<not> in_block (esp0 t - 76) 76 a \<longrightarrow> ram s' a = ram s a)"
proof -
  note cells = trap_frame_cells [OF assms(1,2), of 128 "ram s", folded assms(3)]
  let ?s = "s\<lparr>ram := fst c\<rparr>"
  have fr: "load32 (ram ?s) (r_esp (snd c) + tf_int_no) = of_nat 128" "load32 (ram ?s) (r_esp (snd c) + tf_eax) = r_eax r"
    using cells by (simp_all add: frame_offsets frame_steps)
  have "isr_handler idt_handlers (Run i) (r_esp (snd c)) ?s = isr_syscall_handler (Run i) (r_esp (snd c)) ?s"
    by (rule isr_handler_at [OF _ fr(1)]) (simp add: idt_list_def IDT_LIST_SYSCALL_def)
  moreover obtain s' where s': "syscall_handlers (Run i) (r_esp (snd c)) ?s = Inr (Run i, s')"
    "ram s' = store32 (fst c) (r_esp (snd c) + tf_eax) (- 1)" "sched_inv (Run i) s'" "ptable s' = ptable s"
    using failing_call [OF store_inv [OF assms(4)], of "fst c" "r_esp (snd c)"] fr(2) assms(5) by auto
  ultimately have h: "isr_handler idt_handlers (Run i) (r_esp (snd c)) ?s = Inr (Run i, s')" by (simp add: isr_syscall_handler_def)
  have regs: "snd (trap_leave (ram s', snd c)) = r\<lparr>r_eax := - 1\<rparr>"
    unfolding s'(2) by (rule user_registers_back [OF assms(1-3)])
  have "ram s' a = ram s a" if a: "\<not> in_block (esp0 t - 76) 76 a" for a
  proof -
    have "\<not> in_block (esp0 t - 48) 4 a" using in_block_inside [of "esp0 t - 76" 28 4 a 76] a by (auto simp: frame_steps)
    then show ?thesis using trap_enter_frame [OF assms(1) a, of 128 "ram s"] s'(2) cells(1)
      by (simp add: assms(3) store32_frame tf_eax_def frame_steps)
  qed
  then show ?thesis using h regs s' by blast
qed

theorem system_call_round_trip_witness:
  "\<exists>s' m c. c = trap_enter (zero_tss\<lparr>esp0 := 0x80402000\<rparr>) 128
      (m, \<lparr>r_eax = 15, r_ebx = 1, r_ecx = 2, r_edx = 3, r_esi = 4, r_edi = 5, r_ebp = 6, r_esp = 4096, r_eip = 0x12,
        r_flags = 0x202, r_cs = 0x1B, r_ds = 0x23, r_es = 0x23, r_fs = 0, r_gs = 0, r_ss = 0x23\<rparr>)
    \<and> isr_handler idt_handlers (Run 3) (r_esp (snd c)) ((with_traps (example_running\<lparr>ram := m\<rparr>))\<lparr>ram := fst c\<rparr>) = Inr (Run 3, s')
    \<and> r_eax (snd (trap_leave (ram s', snd c))) = 0xFFFFFFFF"
proof -
  define r where "r = (\<lparr>r_eax = 15, r_ebx = 1, r_ecx = 2, r_edx = 3, r_esi = 4, r_edi = 5, r_ebp = 6, r_esp = 4096, r_eip = 0x12,
        r_flags = 0x202, r_cs = 0x1B, r_ds = 0x23, r_es = 0x23, r_fs = 0, r_gs = 0, r_ss = 0x23\<rparr> :: regs)"
  define c where "c = trap_enter (zero_tss\<lparr>esp0 := 0x80402000\<rparr>) 128 (\<lambda>_. 0, r)"
  have u: "user_mode r" "aligned 2 (esp0 (zero_tss\<lparr>esp0 := 0x80402000\<rparr>))" "r_eax r \<notin> {SYS_EXIT, SYS_WRITE}"
    by (simp_all add: user_mode_def r_def syscall_numbers)
  define s where "s = with_traps (example_running\<lparr>ram := \<lambda>_. 0\<rparr>)"
  have "c = trap_enter (zero_tss\<lparr>esp0 := 0x80402000\<rparr>) 128 (ram s, r)" by (simp add: c_def s_def)
  from system_call_round_trip [OF u(1,2) this example_inv [of "\<lambda>_. 0", folded s_def] u(3)]
  obtain s' where h: "isr_handler idt_handlers (Run 3) (r_esp (snd c)) (s\<lparr>ram := fst c\<rparr>) = Inr (Run 3, s')"
    "snd (trap_leave (ram s', snd c)) = r\<lparr>r_eax := - 1\<rparr>" by blast
  show ?thesis unfolding r_def [symmetric]
  proof (intro exI conjI)
    show "c = trap_enter (zero_tss\<lparr>esp0 := 0x80402000\<rparr>) 128 (\<lambda>_. 0, r)" by (rule c_def)
    show "isr_handler idt_handlers (Run 3) (r_esp (snd c)) ((with_traps (example_running\<lparr>ram := \<lambda>_. 0\<rparr>))\<lparr>ram := fst c\<rparr>) = Inr (Run 3, s')"
      by (rule h(1) [unfolded s_def])
    show "r_eax (snd (trap_leave (ram s', snd c))) = 0xFFFFFFFF" unfolding h(2) by simp
  qed
qed

end
