(* ===== verification/DiskFormat.thy ===== *)
theory DiskFormat
  imports Prelude
begin

section \<open>The format of the file system on disk\<close>

text \<open>
  \<^verbatim>\<open>include/Tuix/fs.h\<close> and \<^verbatim>\<open>tools/stat.h\<close>: the sizes, the structures and where their fields
  lie. A block is the list of its bytes; a structure goes to disk as the bytes the compiler lays out for it
  on a little-endian machine, and is read back field by field. The lemmas are the round trips: what one
  structure of a block holds after it, or another one, was written.
\<close>

definition B_SIZE :: int where "B_SIZE = 512"
definition FS_SIZE :: u32 where "FS_SIZE = 1000"
definition MAX_OPBLOCKS :: u32 where "MAX_OPBLOCKS = 10"
definition LOG_SIZE :: u32 where "LOG_SIZE = MAX_OPBLOCKS * 3"
definition ROOT_INO :: u32 where "ROOT_INO = 1"
definition DIRECT_NUM :: nat where "DIRECT_NUM = 12"
definition INDIRECT_NUM :: nat where "INDIRECT_NUM = nat B_SIZE div 4"
definition MAX_FILE :: nat where "MAX_FILE = DIRECT_NUM + INDIRECT_NUM"
definition DIR_SIZE :: nat where "DIR_SIZE = 14"
definition T_DIR :: u16 where "T_DIR = 1"
definition T_FILE :: u16 where "T_FILE = 2"

record superblock =
  sb_size :: u32
  nblocks :: u32
  ninodes :: u32
  nlog :: u32
  logstart :: u32
  inodestart :: u32
  bmapstart :: u32

record dinode =
  di_type :: u16
  di_major :: u16
  di_minor :: u16
  di_nlink :: u16
  di_size :: u32
  di_addrs :: "u32 list"

record dirent =
  de_inum :: u16
  de_name :: "u8 list"

definition sizeof_dinode :: nat where "sizeof_dinode = 64"
definition sizeof_dirent :: nat where "sizeof_dirent = 16"
definition sizeof_superblock :: nat where "sizeof_superblock = 28"
definition IPB :: nat where "IPB = nat B_SIZE div sizeof_dinode"
definition BPB :: nat where "BPB = nat B_SIZE * 8"

definition IBLOCK :: "u32 \<Rightarrow> superblock \<Rightarrow> u32" where
  "IBLOCK i sb = i div of_nat IPB + inodestart sb"

lemma fs_sizes: "B_SIZE = 512" "DIRECT_NUM = 12" "INDIRECT_NUM = 128" "MAX_FILE = 140" "sizeof_dinode = 64" "IPB = 8" "BPB = 4096"
  "LOG_SIZE = 30" "sizeof_dirent = 16" "DIR_SIZE = 14" "sizeof_superblock = 28"
  by (simp_all add: B_SIZE_def DIRECT_NUM_def INDIRECT_NUM_def MAX_FILE_def sizeof_dinode_def IPB_def BPB_def LOG_SIZE_def
    MAX_OPBLOCKS_def sizeof_dirent_def DIR_SIZE_def sizeof_superblock_def)

subsection \<open>Bytes of a structure\<close>

definition bytes16 :: "u16 \<Rightarrow> u8 list" where
  "bytes16 w = [ucast w, ucast (drop_bit 8 w)]"

definition bytes32 :: "u32 \<Rightarrow> u8 list" where
  "bytes32 w = [ucast w, ucast (drop_bit 8 w), ucast (drop_bit 16 w), ucast (drop_bit 24 w)]"

definition word16_at :: "u8 list \<Rightarrow> nat \<Rightarrow> u16" where
  "word16_at b k = ucast (b ! k) OR push_bit 8 (ucast (b ! (k + 1)))"

definition word32_at :: "u8 list \<Rightarrow> nat \<Rightarrow> u32" where
  "word32_at b k = ucast (b ! k) OR push_bit 8 (ucast (b ! (k + 1))) OR push_bit 16 (ucast (b ! (k + 2)))
     OR push_bit 24 (ucast (b ! (k + 3)))"

text \<open>A structure written over the bytes of a block from position \<open>k\<close>.\<close>

definition put_bytes :: "u8 list \<Rightarrow> nat \<Rightarrow> u8 list \<Rightarrow> u8 list" where
  "put_bytes b k xs = take k b @ xs @ drop (k + length xs) b"

definition superblock_bytes :: "superblock \<Rightarrow> u8 list" where
  "superblock_bytes sb = concat (map bytes32 [sb_size sb, nblocks sb, ninodes sb, nlog sb, logstart sb, inodestart sb, bmapstart sb])"

definition superblock_at :: "u8 list \<Rightarrow> superblock" where
  "superblock_at b = \<lparr>sb_size = word32_at b 0, nblocks = word32_at b 4, ninodes = word32_at b 8, nlog = word32_at b 12,
     logstart = word32_at b 16, inodestart = word32_at b 20, bmapstart = word32_at b 24\<rparr>"

definition dinode_bytes :: "dinode \<Rightarrow> u8 list" where
  "dinode_bytes d = bytes16 (di_type d) @ bytes16 (di_major d) @ bytes16 (di_minor d) @ bytes16 (di_nlink d) @ bytes32 (di_size d)
     @ concat (map bytes32 (di_addrs d))"

definition dinode_at :: "u8 list \<Rightarrow> nat \<Rightarrow> dinode" where
  "dinode_at b k = \<lparr>di_type = word16_at b k, di_major = word16_at b (k + 2), di_minor = word16_at b (k + 4),
     di_nlink = word16_at b (k + 6), di_size = word32_at b (k + 8),
     di_addrs = map (\<lambda>i. word32_at b (k + 12 + 4 * i)) [0..<DIRECT_NUM + 1]\<rparr>"

definition dirent_bytes :: "dirent \<Rightarrow> u8 list" where
  "dirent_bytes de = bytes16 (de_inum de) @ de_name de"

definition dirent_at :: "u8 list \<Rightarrow> nat \<Rightarrow> dirent" where
  "dirent_at b k = \<lparr>de_inum = word16_at b k, de_name = take DIR_SIZE (drop (k + 2) b)\<rparr>"

subsection \<open>Round trips\<close>

lemma length_bytes [simp]: "length (bytes16 w) = 2" "length (bytes32 v) = 4"
  by (simp_all add: bytes16_def bytes32_def)

lemma bytes16_word [simp]: "word16_at (bytes16 w) 0 = w"
proof (rule bit_word_eqI)
  fix n assume "n < LENGTH(16)"
  then consider "n < 8" | "8 \<le> n" "n < 16" by force
  then show "bit (word16_at (bytes16 w) 0) n = bit w n"
    unfolding word16_at_def bytes16_def by cases (auto simp: bit_simps)
qed

lemma bytes32_word [simp]: "word32_at (bytes32 w) 0 = w"
proof (rule bit_word_eqI)
  fix n assume "n < LENGTH(32)"
  then consider "n < 8" | "8 \<le> n" "n < 16" | "16 \<le> n" "n < 24" | "24 \<le> n" "n < 32" by force
  then show "bit (word32_at (bytes32 w) 0) n = bit w n"
    unfolding word32_at_def bytes32_def by cases (auto simp: bit_simps)
qed

lemma length_put_bytes [simp]: "k + length xs \<le> length b \<Longrightarrow> length (put_bytes b k xs) = length b"
  by (simp add: put_bytes_def)

lemma put_bytes_nth:
  "k + length xs \<le> length b \<Longrightarrow> i < length b \<Longrightarrow> put_bytes b k xs ! i = (if k \<le> i \<and> i < k + length xs then xs ! (i - k) else b ! i)"
  by (auto simp: put_bytes_def nth_append min_def intro!: arg_cong [of _ _ "(!) b"])

text \<open>A word only depends on its own bytes.\<close>

lemma word16_at_cong: "\<lbrakk>\<And>i. i < 2 \<Longrightarrow> b ! (k + i) = c ! (l + i)\<rbrakk> \<Longrightarrow> word16_at b k = word16_at c l"
  unfolding word16_at_def by (metis Nat.add_0_right one_less_numeral_iff semiring_norm(76) zero_less_numeral)

lemma word32_at_cong: "\<lbrakk>\<And>i. i < 4 \<Longrightarrow> b ! (k + i) = c ! (l + i)\<rbrakk> \<Longrightarrow> word32_at b k = word32_at c l"
proof -
  assume a: "\<And>i. i < 4 \<Longrightarrow> b ! (k + i) = c ! (l + i)"
  show ?thesis using a [of 0] a [of 1] a [of 2] a [of 3] by (simp add: word32_at_def)
qed

lemma word16_at_append: "word16_at (xs @ bytes16 w @ ys) (length xs) = w"
  using word16_at_cong [of "xs @ bytes16 w @ ys" "length xs" "bytes16 w" 0] by (simp add: nth_append)

lemma word32_at_append: "word32_at (xs @ bytes32 w @ ys) (length xs) = w"
  using word32_at_cong [of "xs @ bytes32 w @ ys" "length xs" "bytes32 w" 0] by (simp add: nth_append)

lemma word16_at_mid: "k = length xs \<Longrightarrow> word16_at (xs @ bytes16 w @ ys) k = w"
  by (simp only: word16_at_append)

lemma word32_at_mid: "k = length xs \<Longrightarrow> word32_at (xs @ bytes32 w @ ys) k = w"
  by (simp only: word32_at_append)

lemma length_concat_bytes32 [simp]: "length (concat (map bytes32 ws)) = 4 * length ws"
  by (induction ws) simp_all

lemma word32_at_array: "i < length ws \<Longrightarrow> k = length xs + 4 * i \<Longrightarrow> word32_at (xs @ concat (map bytes32 ws) @ ys) k = ws ! i"
proof (induction ws arbitrary: xs i k)
  case (Cons w ws)
  show ?case
  proof (cases i)
    case 0
    then show ?thesis using word32_at_mid [of k xs w "concat (map bytes32 ws) @ ys"] Cons.prems by simp
  next
    case (Suc j)
    then show ?thesis using Cons.IH [of j k "xs @ bytes32 w"] Cons.prems by simp
  qed
qed simp

lemma length_dinode_bytes [simp]: "length (dinode_bytes d) = 12 + 4 * length (di_addrs d)"
  by (simp add: dinode_bytes_def)

lemma dinode_roundtrip: "length (di_addrs d) = 13 \<Longrightarrow> dinode_at (xs @ dinode_bytes d @ ys) (length xs) = d"
proof -
  assume l: "length (di_addrs d) = 13"
  have a: "map (\<lambda>i. word32_at (xs @ dinode_bytes d @ ys) (length xs + 12 + 4 * i)) [0..<DIRECT_NUM + 1] = di_addrs d"
  proof (rule nth_equalityI)
    fix i assume "i < length (map (\<lambda>i. word32_at (xs @ dinode_bytes d @ ys) (length xs + 12 + 4 * i)) [0..<DIRECT_NUM + 1])"
    then have i: "i < 13" by (simp add: fs_sizes)
    then show "map (\<lambda>i. word32_at (xs @ dinode_bytes d @ ys) (length xs + 12 + 4 * i)) [0..<DIRECT_NUM + 1] ! i = di_addrs d ! i"
      using l word32_at_array [of i "di_addrs d" "length xs + 12 + 4 * i"
        "xs @ bytes16 (di_type d) @ bytes16 (di_major d) @ bytes16 (di_minor d) @ bytes16 (di_nlink d) @ bytes32 (di_size d)" ys]
      by (simp add: dinode_bytes_def fs_sizes)
  qed (simp add: l fs_sizes)
  have f: "word16_at (xs @ dinode_bytes d @ ys) (length xs) = di_type d" "word16_at (xs @ dinode_bytes d @ ys) (length xs + 2) = di_major d"
    "word16_at (xs @ dinode_bytes d @ ys) (length xs + 4) = di_minor d" "word16_at (xs @ dinode_bytes d @ ys) (length xs + 6) = di_nlink d"
    "word32_at (xs @ dinode_bytes d @ ys) (length xs + 8) = di_size d"
    using word16_at_mid [of "length xs" xs "di_type d"] word16_at_mid [of "length xs + 2" "xs @ bytes16 (di_type d)" "di_major d"]
      word16_at_mid [of "length xs + 4" "xs @ bytes16 (di_type d) @ bytes16 (di_major d)" "di_minor d"]
      word16_at_mid [of "length xs + 6" "xs @ bytes16 (di_type d) @ bytes16 (di_major d) @ bytes16 (di_minor d)" "di_nlink d"]
      word32_at_mid [of "length xs + 8" "xs @ bytes16 (di_type d) @ bytes16 (di_major d) @ bytes16 (di_minor d) @ bytes16 (di_nlink d)" "di_size d"]
    by (simp_all add: dinode_bytes_def)
  show ?thesis unfolding dinode_at_def f a by simp
qed

lemma dinode_put_same: "length (di_addrs d) = 13 \<Longrightarrow> k \<le> length b \<Longrightarrow> dinode_at (put_bytes b k (dinode_bytes d)) k = d"
  using dinode_roundtrip [of d "take k b" "drop (k + 64) b"] by (simp add: put_bytes_def)

lemma dinode_at_cong: "(\<And>i. i < 64 \<Longrightarrow> b ! (k + i) = c ! (k + i)) \<Longrightarrow> dinode_at b k = dinode_at c k"
proof -
  assume a: "\<And>i. i < 64 \<Longrightarrow> b ! (k + i) = c ! (k + i)"
  have h: "word16_at b (k + j) = word16_at c (k + j)" if "j < 62" for j
    using a that by (intro word16_at_cong) (simp add: add.assoc)
  have w: "word32_at b (k + j) = word32_at c (k + j)" if "j \<le> 60" for j
    using a that by (intro word32_at_cong) (simp add: add.assoc)
  have "word32_at b (k + 12 + 4 * i) = word32_at c (k + 12 + 4 * i)" if "i < 13" for i
    using w [of "12 + 4 * i"] that by (simp add: add.assoc)
  then show ?thesis using h [of 0] h [of 2] h [of 4] h [of 6] w [of 8] by (simp add: dinode_at_def fs_sizes)
qed

lemma dinode_put_other:
  assumes "length (di_addrs d) = 13" "i \<noteq> j" "i < 8" "j < 8" "length b = 512"
  shows "dinode_at (put_bytes b (64 * j) (dinode_bytes d)) (64 * i) = dinode_at b (64 * i)"
proof (rule dinode_at_cong)
  fix n :: nat assume n: "n < 64"
  have "\<not> (64 * j \<le> 64 * i + n \<and> 64 * i + n < 64 * j + 64)"
  proof (cases "i < j")
    case False
    then have "j < i" using assms(2) by simp
    then show ?thesis by simp
  qed (use n in simp)
  then show "put_bytes b (64 * j) (dinode_bytes d) ! (64 * i + n) = b ! (64 * i + n)"
    using assms n by (subst put_bytes_nth) auto
qed

lemma superblock_roundtrip: "superblock_at (superblock_bytes sb @ ys) = sb"
proof -
  let ?ws = "[sb_size sb, nblocks sb, ninodes sb, nlog sb, logstart sb, inodestart sb, bmapstart sb]"
  have w: "word32_at (superblock_bytes sb @ ys) (4 * i) = ?ws ! i" if "i < 7" for i
    using word32_at_array [of i ?ws "4 * i" "[]" ys] that by (simp add: superblock_bytes_def)
  have f: "word32_at (superblock_bytes sb @ ys) 0 = sb_size sb" "word32_at (superblock_bytes sb @ ys) 4 = nblocks sb"
    "word32_at (superblock_bytes sb @ ys) 8 = ninodes sb" "word32_at (superblock_bytes sb @ ys) 12 = nlog sb"
    "word32_at (superblock_bytes sb @ ys) 16 = logstart sb" "word32_at (superblock_bytes sb @ ys) 20 = inodestart sb"
    "word32_at (superblock_bytes sb @ ys) 24 = bmapstart sb"
    using w [of 0] by (simp, use w [of 1] in simp, use w [of 2] in simp, use w [of 3] in simp, use w [of 4] in simp, use w [of 5] in simp, use w [of 6] in simp)
  show ?thesis unfolding superblock_at_def f by simp
qed

lemma length_dirent_bytes [simp]: "length (dirent_bytes de) = 2 + length (de_name de)"
  by (simp add: dirent_bytes_def)

lemma dirent_roundtrip: "length (de_name de) = 14 \<Longrightarrow> dirent_at (xs @ dirent_bytes de @ ys) (length xs) = de"
proof -
  assume l: "length (de_name de) = 14"
  have "word16_at (xs @ dirent_bytes de @ ys) (length xs) = de_inum de"
    using word16_at_mid [of "length xs" xs "de_inum de" "de_name de @ ys"] by (simp add: dirent_bytes_def)
  moreover have "take 14 (drop (length xs + 2) (xs @ dirent_bytes de @ ys)) = de_name de" using l by (simp add: dirent_bytes_def)
  ultimately show ?thesis by (simp add: dirent_at_def fs_sizes)
qed

end
