(* ===== verification/Ide.thy ===== *)
theory Ide
  imports Idt DiskFormat
begin

section \<open>The disk driver\<close>

text \<open>
  \<^verbatim>\<open>kernel/drivers/ide.c\<close> with \<^verbatim>\<open>struct buf\<close> of \<^verbatim>\<open>include/Tuix/buf.h\<close>.
  A buffer is at its address in memory, where the driver reads and writes its fields; the sleep lock inside it
  takes 64 bytes. \<open>disk\<close> adds the two static variables of the driver. Waiting for the drive is a loop on
  the device's answers, a partial function.
\<close>

definition SECTOR_SIZE :: int where "SECTOR_SIZE = 512"
definition IDE_BSY :: u8 where "IDE_BSY = 0x80"
definition IDE_DRDY :: u8 where "IDE_DRDY = 0x40"
definition IDE_DF :: u8 where "IDE_DF = 0x20"
definition IDE_ERR :: u8 where "IDE_ERR = 0x01"
definition IDE_CMD_READ :: u8 where "IDE_CMD_READ = 0x20"
definition IDE_CMD_WRITE :: u8 where "IDE_CMD_WRITE = 0x30"
definition IDE_CMD_RDMUL :: u8 where "IDE_CMD_RDMUL = 0xc4"
definition IDE_CMD_WRMUL :: u8 where "IDE_CMD_WRMUL = 0xc5"

definition B_VALID :: u32 where "B_VALID = 0x2"
definition B_DIRTY :: u32 where "B_DIRTY = 0x4"

definition buf_flags :: u32 where "buf_flags = 0"
definition buf_dev :: u32 where "buf_dev = 4"
definition buf_blockno :: u32 where "buf_blockno = 8"
definition buf_qnext :: u32 where "buf_qnext = 88"
definition buf_data :: u32 where "buf_data = 92"
definition sizeof_buf :: nat where "sizeof_buf = 604"

lemmas buf_fields = buf_flags_def buf_dev_def buf_blockno_def buf_qnext_def buf_data_def

record disk = traps +
  ide_queue :: u32
  have_disk1 :: int

partial_function (option) ide_ready :: "io \<Rightarrow> (u8 \<times> io) option" where
  "ide_ready d = (case inb 0x1f7 d of (r, d1) \<Rightarrow>
     if r AND (IDE_BSY OR IDE_DRDY) \<noteq> IDE_DRDY then ide_ready d1 else Some (r, d1))"

definition ide_wait :: "int \<Rightarrow> io \<Rightarrow> (int \<times> io) res" where
  "ide_wait errno d = bindR (from_loop (ide_ready d)) (\<lambda>(r, d).
     Inr (if errno \<noteq> 0 \<and> r AND (IDE_DF OR IDE_ERR) \<noteq> 0 then - 1 else 0, d))"

fun probe_loop :: "nat \<Rightarrow> io \<Rightarrow> bool \<times> io" where
  "probe_loop 0 d = (False, d)"
| "probe_loop (Suc n) d = (case inb 0x1f7 d of (r, d1) \<Rightarrow> if r \<noteq> 0 then (True, d1) else probe_loop n d1)"

definition text_ide_done :: "u8 list" where
  "text_ide_done = lit (''IDE init done!'' @ [CHR 0x0A])"

definition init_ide :: "'a disk_scheme \<Rightarrow> 'a disk_scheme res" where
  "init_ide s =
     (let s1 = init_lock Ide_lock ''ide'' s;
          d1 = enable_irq IRQ_ATA1 (ports s1)
      in bindR (ide_wait 0 d1) (\<lambda>(_, d2).
           let d3 = outb 0x1f6 (0xe0 OR push_bit 4 1) d2;
               (found, d4) = probe_loop 1000 d3;
               s2 = (if found then s1\<lparr>have_disk1 := 1\<rparr> else s1)
           in if have_disk1 s2 \<noteq> 0
              then bindR (serial_printf text_ide_done [] d4) (\<lambda>d5. Inr (s2\<lparr>ports := outb 0x1f6 (0xe0 OR push_bit 4 0) d5\<rparr>))
              else panic ''IDE failed! no fs.img in qemu''))"

definition sector_per_block :: int where
  "sector_per_block = B_SIZE div SECTOR_SIZE"

definition ide_start :: "u32 \<Rightarrow> 'a disk_scheme \<Rightarrow> 'a disk_scheme res" where
  "ide_start b s =
     (if b = 0 then panic ''ide_start''
      else if load32 (ram s) (b + buf_blockno) \<ge> FS_SIZE then panic ''incorrect blockno''
      else (let sector = load32 (ram s) (b + buf_blockno) * of_int sector_per_block;
                read_cmd = (if sector_per_block = 1 then IDE_CMD_READ else IDE_CMD_RDMUL);
                write_cmd = (if sector_per_block = 1 then IDE_CMD_WRITE else IDE_CMD_WRMUL)
            in if sector_per_block > 7 then panic ''idestart''
               else bindR (ide_wait 0 (ports s)) (\<lambda>(_, d).
                 let d1 = outb 0x3f6 0 d;
                     d2 = outb 0x1f2 (of_int sector_per_block) d1;
                     d3 = outb 0x1f3 (ucast (sector AND 0xff)) d2;
                     d4 = outb 0x1f4 (ucast (drop_bit 8 sector AND 0xff)) d3;
                     d5 = outb 0x1f5 (ucast (drop_bit 16 sector AND 0xff)) d4;
                     d6 = outb 0x1f6 (ucast (0xe0 OR push_bit 4 (load32 (ram s) (b + buf_dev) AND 1) OR (drop_bit 24 sector AND 0x0f))) d5
                 in Inr (s\<lparr>ports :=
                      (if load32 (ram s) (b + buf_flags) AND B_DIRTY \<noteq> 0
                       then outsl 0x1f0 (ram s) (b + buf_data) (nat (B_SIZE div 4)) (outb 0x1f7 write_cmd d6)
                       else outb 0x1f7 read_cmd d6)\<rparr>))))"

text \<open>The transfer of a block from the drive, when the finished request was a read.\<close>

definition transfer :: "u32 \<Rightarrow> 'a disk_scheme \<Rightarrow> 'a disk_scheme res" where
  "transfer b s =
     (if load32 (ram s) (b + buf_flags) AND B_DIRTY = 0
      then bindR (ide_wait 1 (ports s)) (\<lambda>(r, d).
             if r \<ge> 0 then (let (m, d1) = insl 0x1f0 (b + buf_data) (nat (B_SIZE div 4)) (ram s, d)
                            in Inr (s\<lparr>ram := m, ports := d1\<rparr>))
             else Inr (s\<lparr>ports := d\<rparr>))
      else Inr s)"

definition ide_handler :: "'a disk_scheme \<Rightarrow> 'a disk_scheme res" where
  "ide_handler s =
     bindR (acquire Ide_lock s) (\<lambda>s.
     let b = ide_queue s
     in if b = 0 then release Ide_lock s
        else bindR (transfer b (s\<lparr>ide_queue := load32 (ram s) (b + buf_qnext)\<rparr>)) (\<lambda>s.
             let m1 = store32 (ram s) (b + buf_flags) (load32 (ram s) (b + buf_flags) OR B_VALID);
                 m2 = store32 m1 (b + buf_flags) (load32 m1 (b + buf_flags) AND NOT B_DIRTY)
             in bindR (wakeup b (s\<lparr>ram := m2\<rparr>)) (\<lambda>s.
                bindR (if ide_queue s \<noteq> 0 then ide_start (ide_queue s) s else Inr s) (release Ide_lock))))"

subsection \<open>A drive that answers\<close>

definition drive_ready :: "io \<Rightarrow> bool" where
  "drive_ready d \<longleftrightarrow> (\<forall>h. (ucast (dev d h 0x1f7) :: u8) AND 0xC0 = 0x40)"

definition drive_status :: "io \<Rightarrow> u8" where
  "drive_status d = fst (inb 0x1f7 d)"

lemma drive_ready_cong: "dev d' = dev d \<Longrightarrow> drive_ready d' = drive_ready d"
  by (simp add: drive_ready_def)

lemma ide_wait_ready:
  assumes "drive_ready d"
  shows "ide_wait e d = Inr (if e \<noteq> 0 \<and> drive_status d AND 0x21 \<noteq> 0 then - 1 else 0, snd (inb 0x1f7 d))"
proof -
  have "fst (inb 0x1f7 d) AND 0xC0 = 0x40" using assms by (simp add: drive_ready_def inb_def Let_def)
  then have "ide_ready d = Some (fst (inb 0x1f7 d), snd (inb 0x1f7 d))"
    by (subst ide_ready.simps) (simp add: case_prod_beta IDE_BSY_def IDE_DRDY_def)
  then show ?thesis by (simp add: ide_wait_def IDE_DF_def IDE_ERR_def drive_status_def case_prod_beta)
qed

text \<open>A drive that never gets ready hangs the kernel.\<close>

lemma ide_wait_hangs:
  assumes "\<forall>h. (ucast (dev d h 0x1f7) :: u8) AND 0xC0 \<noteq> 0x40"
  shows "ide_wait e d = Inl Hang"
proof (cases "ide_ready d")
  case (Some r)
  have "\<exists>h. (ucast (dev d h 0x1f7) :: u8) AND 0xC0 = 0x40"
    by (rule ide_ready.raw_induct [OF _ Some, where P = "\<lambda>d _. \<exists>h. (ucast (dev d h 0x1f7) :: u8) AND 0xC0 = 0x40"])
      (fastforce simp: inb_def Let_def IDE_BSY_def IDE_DRDY_def split: if_splits)
  then show ?thesis using assms by blast
qed (simp add: ide_wait_def)

subsection \<open>A request\<close>

text \<open>The bytes a request for buffer \<open>b\<close> sends to each port.\<close>

definition request_bytes :: "mem \<Rightarrow> u32 \<Rightarrow> u16 \<Rightarrow> u8 list" where
  "request_bytes m b p =
     (let n = load32 m (b + buf_blockno)
      in if p = 0x3f6 then [0] else if p = 0x1f2 then [1] else if p = 0x1f3 then [ucast (n AND 0xff)]
         else if p = 0x1f4 then [ucast (drop_bit 8 n AND 0xff)] else if p = 0x1f5 then [ucast (drop_bit 16 n AND 0xff)]
         else if p = 0x1f6 then [ucast (0xe0 OR push_bit 4 (load32 m (b + buf_dev) AND 1) OR (drop_bit 24 n AND 0x0f))]
         else if p = 0x1f7 then [if load32 m (b + buf_flags) AND B_DIRTY \<noteq> 0 then 0x30 else 0x20] else [])"

definition request_data :: "mem \<Rightarrow> u32 \<Rightarrow> u32 list" where
  "request_data m b = (if load32 m (b + buf_flags) AND B_DIRTY \<noteq> 0
     then map (\<lambda>i. load32 m (b + buf_data + 4 * of_nat i)) [0..<128] else [])"

definition requested :: "mem \<Rightarrow> u32 \<Rightarrow> io \<Rightarrow> io \<Rightarrow> bool" where
  "requested m b d d' \<longleftrightarrow> dev d' = dev d \<and> (\<forall>p. written p (trace d') = written p (trace d) @ request_bytes m b p)
     \<and> written32 0x1f0 (trace d') = written32 0x1f0 (trace d) @ request_data m b"

lemma read32_outb [simp]: "read32 p (trace (outb q v d)) = read32 p (trace d)" "written32 p (trace (outb q v d)) = written32 p (trace d)"
  "read32 p (trace (snd (inb q d))) = read32 p (trace d)" "written32 p (trace (snd (inb q d))) = written32 p (trace d)"
  by simp_all

lemma read32_outsl [simp]: "read32 q (trace (outsl p m a n d)) = read32 q (trace d)"
  by (induction n arbitrary: a d) simp_all

lemma ide_start_request:
  assumes "drive_ready (ports s)" "b \<noteq> 0" "load32 (ram s) (b + buf_blockno) < FS_SIZE"
  shows "\<exists>d'. ide_start b s = Inr (s\<lparr>ports := d'\<rparr>) \<and> requested (ram s) b (ports s) d'
    \<and> (\<forall>p. read32 p (trace d') = read32 p (trace (ports s)))"
proof -
  have sp: "sector_per_block = 1" by (simp add: sector_per_block_def B_SIZE_def SECTOR_SIZE_def)
  have n: "\<not> FS_SIZE \<le> load32 (ram s) (b + buf_blockno)" using assms(3) by simp
  let ?m = "ram s" and ?n = "load32 (ram s) (b + buf_blockno)"
  let ?d = "outb 0x1f6 (ucast (0xe0 OR push_bit 4 (load32 ?m (b + buf_dev) AND 1) OR (drop_bit 24 ?n AND 0x0f)))
    (outb 0x1f5 (ucast (drop_bit 16 ?n AND 0xff)) (outb 0x1f4 (ucast (drop_bit 8 ?n AND 0xff)) (outb 0x1f3 (ucast (?n AND 0xff))
    (outb 0x1f2 1 (outb 0x3f6 0 (snd (inb 0x1f7 (ports s))))))))"
  let ?d' = "if load32 ?m (b + buf_flags) AND B_DIRTY \<noteq> 0 then outsl 0x1f0 ?m (b + buf_data) 128 (outb 0x1f7 0x30 ?d) else outb 0x1f7 0x20 ?d"
  have "ide_start b s = Inr (s\<lparr>ports := ?d'\<rparr>)"
    using assms(2) n by (simp add: ide_start_def ide_wait_ready [OF assms(1)] sp Let_def IDE_CMD_READ_def IDE_CMD_WRITE_def B_SIZE_def)
  moreover have "requested ?m b (ports s) ?d'"
    by (simp add: requested_def request_bytes_def request_data_def Let_def outsl_trace)
  moreover have "read32 p (trace ?d') = read32 p (trace (ports s))" for p by simp
  ultimately show ?thesis by blast
qed

lemma request_block:
  assumes "(n :: u32) < 1000"
  shows "unat (ucast (n AND 0xff) :: u8) + 256 * unat (ucast (drop_bit 8 n AND 0xff) :: u8) = unat n"
    and "drop_bit 16 n = 0" "drop_bit 24 n = 0"
proof -
  have u: "unat n < 1000" using assms by (simp add: word_less_nat_alt)
  show "drop_bit 16 n = 0" "drop_bit 24 n = 0"
    using u by (simp_all add: word_unat_eq_iff drop_bit_eq_div unat_div)
  show "unat (ucast (n AND 0xff) :: u8) + 256 * unat (ucast (drop_bit 8 n AND 0xff) :: u8) = unat n"
    using two_bytes [of n] u by (simp add: le16_def)
qed

subsection \<open>The interrupt of the drive\<close>

definition wake :: "u32 \<Rightarrow> proc \<Rightarrow> proc" where
  "wake ch p = (if state p = SLEEPING \<and> chan p = ch then p\<lparr>state := RUNNABLE\<rparr> else p)"

lemma disk_erase:
  assumes "erase (s' :: 'a disk_scheme) = erase s"
  shows "ide_queue s' = ide_queue s" "have_disk1 s' = have_disk1 s" "timer_ticks s' = timer_ticks s"
proof -
  have "sys.more s' = sys.more s" using erase_eqD [OF assms] sys_eqD(8) [of s' s] by simp
  then show "ide_queue s' = ide_queue s" "have_disk1 s' = have_disk1 s" "timer_ticks s' = timer_ticks s"
    by (cases s; cases s'; simp)+
qed

lemma erase_ptable: "erase (s\<lparr>ptable := t\<rparr>) = (erase s)\<lparr>ptable := t\<rparr>"
  by (simp add: erase_def)

lemma wakeup_locks:
  assumes "lock_state s hs b" "Ptable_lock \<notin> set hs" "length hs < 2147483640"
  shows "\<exists>s'. wakeup ch s = Inr s' \<and> lock_state s' hs b \<and> erase s' = erase (s\<lparr>ptable := map (wake ch) (ptable s)\<rparr>)"
proof -
  obtain s1 where s1: "acquire Ptable_lock s = Inr s1" "lock_state s1 (Ptable_lock # hs) b" "erase s1 = erase s"
    using acquire_sys [OF assms(1,2)] assms(3) by auto
  let ?s2 = "s1\<lparr>ptable := map (wake ch) (ptable s1)\<rparr>"
  obtain s3 where s3: "release Ptable_lock ?s2 = Inr s3" "lock_state s3 hs b" "erase s3 = erase ?s2"
    using release_sys [of ?s2 "Ptable_lock # hs" b Ptable_lock] s1(2) assms(3) by auto
  have "erase ?s2 = erase (s\<lparr>ptable := map (wake ch) (ptable s)\<rparr>)"
    using s1(3) erase_inv(7) [OF s1(3)] by (simp add: erase_ptable)
  moreover have "wakeup ch s = Inr s3" using s1(1) s3(1) by (simp add: wakeup_def wake_def [abs_def])
  ultimately show ?thesis using s3(2,3) by auto
qed

text \<open>What the transfer of a block does: a read fills the data of the buffer from the port.\<close>

definition status_read :: "io \<Rightarrow> io_event list" where
  "status_read d = InB 0x1f7 (drive_status d) # trace d"

definition transferred :: "u32 \<Rightarrow> 'a machine_scheme \<Rightarrow> mem \<Rightarrow> io \<Rightarrow> bool" where
  "transferred b s m d \<longleftrightarrow> dev d = dev (ports s) \<and> (\<forall>p. written p (trace d) = written p (trace (ports s)))
     \<and> (\<forall>p. written32 p (trace d) = written32 p (trace (ports s)))
     \<and> (\<forall>a. \<not> in_block (b + buf_data) 512 a \<longrightarrow> m a = ram s a)
     \<and> (if load32 (ram s) (b + buf_flags) AND B_DIRTY \<noteq> 0 then m = ram s \<and> d = ports s
        else if drive_status (ports s) AND 0x21 \<noteq> 0 then m = ram s \<and> read32 0x1f0 (trace d) = read32 0x1f0 (trace (ports s))
        else (\<exists>ws. length ws = 128 \<and> read32 0x1f0 (trace d) = read32 0x1f0 (trace (ports s)) @ ws \<and> answers (ports s) 0x1f0 (status_read (ports s)) ws
          \<and> (\<forall>i < 128. load32 m (b + buf_data + 4 * of_nat i) = ws ! i)))"

lemma transferred_cong: "ram s = ram s' \<Longrightarrow> ports s = ports s' \<Longrightarrow> transferred b s m d = transferred b s' m d"
  by (simp add: transferred_def)

lemma transfer_step:
  assumes "drive_ready (ports s)" "aligned 2 b"
  shows "\<exists>m d. transfer b s = Inr (s\<lparr>ram := m, ports := d\<rparr>) \<and> transferred b s m d"
proof (cases "load32 (ram s) (b + buf_flags) AND B_DIRTY = 0")
  case False
  then have "transfer b s = Inr s" "transferred b s (ram s) (ports s)" by (simp_all add: transfer_def transferred_def)
  then show ?thesis by (intro exI [of _ "ram s"] exI [of _ "ports s"]) simp
next
  case clean: True
  let ?d = "snd (inb 0x1f7 (ports s))"
  show ?thesis
  proof (cases "drive_status (ports s) AND 0x21 = 0")
    case False
    then have "transfer b s = Inr (s\<lparr>ports := ?d\<rparr>)" "transferred b s (ram s) ?d"
      using clean by (simp_all add: transfer_def transferred_def ide_wait_ready [OF assms(1)])
    then show ?thesis by (intro exI [of _ "ram s"] exI [of _ ?d]) simp
  next
    case True
    have al: "aligned 2 (b + buf_data)" using assms(2) by (rule aligned_plus_word) (simp add: aligned_def buf_data_def)
    obtain m d1 where io: "insl 0x1f0 (b + buf_data) 128 (ram s, ?d) = (m, d1)" by force
    obtain ws where ws: "length ws = 128" "read32 0x1f0 (trace d1) = read32 0x1f0 (trace (ports s)) @ ws"
      "answers (ports s) 0x1f0 (status_read (ports s)) ws" "\<forall>i < 128. load32 m (b + buf_data + 4 * of_nat i) = ws ! i"
      using insl_reads [OF al, of 128 "0x1f0" "ram s" ?d] io
      by (auto simp: answers_cong [of ?d "ports s"] status_read_def drive_status_def)
    have "m a = ram s a" if a: "\<not> in_block (b + buf_data) 512 a" for a
    proof -
      have "\<not> in_block (b + buf_data + 4 * of_nat i) 4 a" if "i < 128" for i
        using in_block_inside [of "b + buf_data" "4 * i" 4 a 512] that a by auto
      then show ?thesis using insl_frame [of 128 "b + buf_data" a "0x1f0" "ram s" ?d] io by simp
    qed
    then have "transferred b s m d1"
      using clean True ws insl_trace [where p = "0x1f0" and a = "b + buf_data" and n = 128 and m = "ram s" and d = ?d] io by (auto simp: transferred_def)
    moreover have "transfer b s = Inr (s\<lparr>ram := m, ports := d1\<rparr>)"
      using clean True io by (simp add: transfer_def ide_wait_ready [OF assms(1)] B_SIZE_def)
    ultimately show ?thesis by blast
  qed
qed

definition buffers_apart :: "u32 \<Rightarrow> u32 \<Rightarrow> bool" where
  "buffers_apart b q \<longleftrightarrow> (\<forall>a. in_block q sizeof_buf a \<longrightarrow> \<not> in_block b sizeof_buf a)"

lemma field_kept:
  assumes "\<forall>a. \<not> in_block b sizeof_buf a \<longrightarrow> m' a = m a" "buffers_apart b q" "k + 4 \<le> 604"
  shows "load32 m' (q + of_nat k) = load32 m (q + of_nat k)"
  using assms in_block_inside [of q k 4 _ sizeof_buf] by (intro load32_cong) (auto simp: buffers_apart_def sizeof_buf_def)

lemma request_kept:
  assumes "\<forall>a. \<not> in_block b sizeof_buf a \<longrightarrow> m' a = m a" "buffers_apart b q"
  shows "request_bytes m' q p = request_bytes m q p" "load32 m' (q + buf_blockno) = load32 m (q + buf_blockno)"
  using field_kept [OF assms(1,2), of 0] field_kept [OF assms(1,2), of 4] field_kept [OF assms(1,2), of 8]
  by (simp_all add: request_bytes_def buf_fields Let_def)

lemma next_request:
  assumes "drive_ready (ports s)" "q = ide_queue s" "q \<noteq> 0 \<longrightarrow> load32 (ram s) (q + buf_blockno) < FS_SIZE"
  shows "\<exists>d. (if ide_queue s \<noteq> 0 then ide_start (ide_queue s) s else Inr s) = Inr (s\<lparr>ports := d\<rparr>)
    \<and> (\<forall>p. written p (trace d) = written p (trace (ports s)) @ (if q = 0 then [] else request_bytes (ram s) q p))
    \<and> (\<forall>p. read32 p (trace d) = read32 p (trace (ports s)))"
proof (cases "q = 0")
  case True
  then show ?thesis using assms(2) by (intro exI [of _ "ports s"]) simp
next
  case False
  then obtain d where "ide_start q s = Inr (s\<lparr>ports := d\<rparr>)" "requested (ram s) q (ports s) d"
    "\<forall>p. read32 p (trace d) = read32 p (trace (ports s))" using ide_start_request [OF assms(1)] assms(3) by blast
  then show ?thesis using assms(2) False by (auto simp: requested_def)
qed

definition completed :: "u32 \<Rightarrow> 'a disk_scheme \<Rightarrow> 'a disk_scheme \<Rightarrow> bool" where
  "completed b s s' \<longleftrightarrow> ide_queue s' = load32 (ram s) (b + buf_qnext) \<and> ptable s' = map (wake b) (ptable s)
     \<and> load32 (ram s') (b + buf_flags) = (load32 (ram s) (b + buf_flags) OR B_VALID) AND NOT B_DIRTY
     \<and> (\<forall>a. \<not> in_block b sizeof_buf a \<longrightarrow> ram s' a = ram s a)
     \<and> (load32 (ram s) (b + buf_flags) AND B_DIRTY = 0 \<and> drive_status (ports s) AND 0x21 = 0 \<longrightarrow>
          (\<exists>ws. length ws = 128 \<and> read32 0x1f0 (trace (ports s')) = read32 0x1f0 (trace (ports s)) @ ws \<and> answers (ports s) 0x1f0 (status_read (ports s)) ws
             \<and> (\<forall>i < 128. load32 (ram s') (b + buf_data + 4 * of_nat i) = ws ! i)))
     \<and> (\<forall>p. written p (trace (ports s')) = written p (trace (ports s))
          @ (if ide_queue s' = 0 then [] else request_bytes (ram s) (ide_queue s') p))"

text \<open>The memory after the flags of the buffer were set.\<close>

lemma flags_set:
  assumes "aligned 2 b" "transferred b s m d"
  defines "m2 \<equiv> store32 (store32 m (b + buf_flags) (load32 m (b + buf_flags) OR B_VALID)) (b + buf_flags)
    ((load32 m (b + buf_flags) OR B_VALID) AND NOT B_DIRTY)"
  shows "load32 m2 (b + buf_flags) = (load32 (ram s) (b + buf_flags) OR B_VALID) AND NOT B_DIRTY"
    and "\<not> in_block b sizeof_buf a \<Longrightarrow> m2 a = ram s a"
    and "i < 128 \<Longrightarrow> load32 m2 (b + buf_data + 4 * of_nat i) = load32 m (b + buf_data + 4 * of_nat i)"
proof -
  have out: "\<not> in_block (b + buf_data) 512 a" if "in_block b 4 a" for a
    using that by (auto simp: in_block_def buf_data_def unat_word_ariths diff_diff_add [symmetric] unat_sub_if_size word_size)
  then have f: "load32 m (b + buf_flags) = load32 (ram s) (b + buf_flags)"
    using assms(2) by (intro load32_cong) (simp add: transferred_def buf_flags_def)
  then show "load32 m2 (b + buf_flags) = (load32 (ram s) (b + buf_flags) OR B_VALID) AND NOT B_DIRTY" by (simp add: m2_def)
  have i: "in_block b sizeof_buf a" if "in_block b 4 a \<or> in_block (b + buf_data) 512 a" for a
    using that in_block_inside [of b 0 4 a sizeof_buf] in_block_inside [of b 92 512 a sizeof_buf]
    by (auto simp: sizeof_buf_def buf_data_def)
  then show "m2 a = ram s a" if "\<not> in_block b sizeof_buf a" for a
  proof -
    have "\<not> in_block b 4 a" "\<not> in_block (b + buf_data) 512 a" using i [of a] that by blast+
    moreover from this have "m a = ram s a" using assms(2) by (simp add: transferred_def)
    ultimately show ?thesis by (simp add: m2_def buf_flags_def store32_frame)
  qed
  show "load32 m2 (b + buf_data + 4 * of_nat i) = load32 m (b + buf_data + 4 * of_nat i)" if "i < 128"
  proof -
    have "unat (92 + 4 * of_nat i :: u32) = 92 + 4 * i" using that unat_of_nat_u32 [of "92 + 4 * i"] by simp
    then have "b + buf_data + 4 * of_nat i \<noteq> b" by (auto simp: buf_data_def add.assoc)
    moreover have "unat (4 * of_nat i :: u32) = 4 * i" using that unat_of_nat_u32 [of "4 * i"] by simp
    then have "aligned 2 (4 * of_nat i)" by (simp add: aligned_def)
    ultimately show ?thesis using assms(1) by (simp add: m2_def buf_flags_def buf_data_def aligned_plus_word)
  qed
qed

lemma handler_completes:
  assumes "lock_state s hs c" "Ide_lock \<notin> set hs" "Ptable_lock \<notin> set hs" "length hs < 1000" "drive_ready (ports s)"
    and "b = ide_queue s" "b \<noteq> 0" "aligned 2 b" "q = load32 (ram s) (b + buf_qnext)"
    and "q \<noteq> 0 \<longrightarrow> buffers_apart b q \<and> load32 (ram s) (q + buf_blockno) < FS_SIZE"
  shows "\<exists>s'. ide_handler s = Inr s' \<and> lock_state s' hs c \<and> completed b s s'"
proof -
  obtain s1 where s1: "acquire Ide_lock s = Inr s1" "lock_state s1 (Ide_lock # hs) c" "erase s1 = erase s"
    using acquire_sys [OF assms(1,2)] assms(4) by auto
  note e1 = erase_inv [OF s1(3)] disk_erase [OF s1(3)]
  let ?s1 = "s1\<lparr>ide_queue := q\<rparr>"
  obtain m d where md: "transfer b ?s1 = Inr (?s1\<lparr>ram := m, ports := d\<rparr>)" "transferred b ?s1 m d"
    using transfer_step [of ?s1 b] assms(5,8) e1 by auto
  have tr: "transferred b s m d" using md(2) transferred_cong [of ?s1 s b m d] e1 by simp
  define m2 where "m2 = store32 (store32 m (b + buf_flags) (load32 m (b + buf_flags) OR B_VALID)) (b + buf_flags)
    ((load32 m (b + buf_flags) OR B_VALID) AND NOT B_DIRTY)"
  note fl = flags_set [OF assms(8) tr, folded m2_def]
  let ?s2 = "?s1\<lparr>ports := d, ram := m2\<rparr>"
  have "lock_state ?s2 (Ide_lock # hs) c" using s1(2) by (subst lock_state_cong [of _ s1]) (simp_all add: c_cpu_def)
  from wakeup_locks [OF this, of b] assms(3,4)
  obtain s3 where s3: "wakeup b ?s2 = Inr s3" "lock_state s3 (Ide_lock # hs) c"
    "erase s3 = erase (?s2\<lparr>ptable := map (wake b) (ptable ?s2)\<rparr>)" by auto
  note e3 = erase_inv [OF s3(3)] disk_erase [OF s3(3)]
  have q3: "q = ide_queue s3" using e3 by simp
  have rdy: "drive_ready (ports s3)" using assms(5) tr e3 by (simp add: transferred_def drive_ready_def)
  have blk: "q \<noteq> 0 \<longrightarrow> load32 (ram s3) (q + buf_blockno) < FS_SIZE"
    using assms(10) request_kept(2) [of b m2 "ram s" q] fl(2) e3 by simp
  from next_request [OF rdy q3 blk] obtain d4 where d4: "(if ide_queue s3 \<noteq> 0 then ide_start (ide_queue s3) s3 else Inr s3) = Inr (s3\<lparr>ports := d4\<rparr>)"
    "\<forall>p. written p (trace d4) = written p (trace (ports s3)) @ (if q = 0 then [] else request_bytes (ram s3) q p)"
    "\<forall>p. read32 p (trace d4) = read32 p (trace (ports s3))"
    by blast
  have "lock_state (s3\<lparr>ports := d4\<rparr>) (Ide_lock # hs) c" using s3(2) by simp
  from release_sys [OF this, of Ide_lock] assms(4)
  obtain s5 where s5: "release Ide_lock (s3\<lparr>ports := d4\<rparr>) = Inr s5" "lock_state s5 hs c" "erase s5 = erase (s3\<lparr>ports := d4\<rparr>)" by auto
  note e5 = erase_inv [OF s5(3)] disk_erase [OF s5(3)]
  have "ide_handler s = Inr s5"
    unfolding ide_handler_def s1(1) bindR_simps Let_def
    using assms(6,7,9) e1 md(1) s3(1) d4(1) s5(1) by (simp add: m2_def)
  moreover have "q \<noteq> 0 \<Longrightarrow> request_bytes m2 q p = request_bytes (ram s) q p" for p
    using assms(10) request_kept(1) [of b m2 "ram s" q] fl(2) by simp
  then have "completed b s s5"
    using e5 e3 e1 fl tr d4 assms(9) by (auto simp: completed_def transferred_def)
  ultimately show ?thesis using s5(2) by blast
qed

lemma probe_found:
  "(\<forall>h. (ucast (dev d h 0x1f7) :: u8) \<noteq> 0) \<Longrightarrow> probe_loop (Suc n) d = (True, snd (inb 0x1f7 d))"
  by (simp add: inb_def Let_def)

lemma probe_trace:
  "dev (snd (probe_loop n d)) = dev d" "written p (trace (snd (probe_loop n d))) = written p (trace d)"
  by (induction n arbitrary: d) (auto simp: case_prod_beta)

lemma probe_absent:
  "(\<forall>h. (ucast (dev d h 0x1f7) :: u8) = 0) \<Longrightarrow> fst (probe_loop n d) = False"
  by (induction n arbitrary: d) (auto simp: inb_def Let_def)

lemma init_ide_step:
  assumes "uart_ready (ports s)" "drive_ready (ports s)"
  shows "\<exists>d'. init_ide s = Inr ((init_lock Ide_lock ''ide'' s)\<lparr>have_disk1 := 1, ports := d'\<rparr>) \<and> dev d' = dev (ports s)
    \<and> (\<forall>p. p \<notin> {0x3F8, 0x1f6} \<longrightarrow> written p (trace d') = written p (trace (enable_irq IRQ_ATA1 (ports s))))
    \<and> written 0x1f6 (trace d') = written 0x1f6 (trace (ports s)) @ [0xF0, 0xE0] \<and> sent d' = sent (ports s) @ text_ide_done"
proof -
  define d1 where "d1 = enable_irq IRQ_ATA1 (ports s)"
  have d1: "dev d1 = dev (ports s)" "\<And>p. p \<noteq> PIC2_DATA \<Longrightarrow> written p (trace d1) = written p (trace (ports s))"
    by (simp_all add: d1_def enable_irq_def Let_def case_prod_beta IRQ_ATA1_def)
  have i: "ports (init_lock Ide_lock ''ide'' s) = ports s" by (simp add: init_lock_def set_lock_def)
  have rd: "drive_ready d1" using assms(2) d1(1) by (simp add: drive_ready_def)
  let ?d3 = "outb 0x1f6 0xF0 (snd (inb 0x1f7 d1))"
  let ?d4 = "snd (inb 0x1f7 ?d3)"
  have "(ucast (dev ?d3 h 0x1f7) :: u8) \<noteq> 0" for h using rd by (auto simp: drive_ready_def dest: spec [of _ h])
  then have p: "probe_loop 1000 ?d3 = (True, ?d4)" using probe_found [of ?d3 999] by simp
  have "uart_ready ?d4" using assms(1) d1(1) by (simp add: uart_ready_def)
  moreover have "printf_text text_ide_done [] = Some text_ide_done" by (intro printf_text_plain) (simp add: text_ide_done_def)
  ultimately obtain d5 where d5: "serial_printf text_ide_done [] ?d4 = Inr d5" "uart_sends ?d4 text_ide_done d5"
    by (rule serial_printf_step)
  have "init_ide s = Inr ((init_lock Ide_lock ''ide'' s)\<lparr>have_disk1 := 1, ports := outb 0x1f6 0xE0 d5\<rparr>)"
    using d5(1) p i by (simp add: init_ide_def Let_def ide_wait_ready [OF rd] d1_def [symmetric])
  then show ?thesis using d5(2) d1
    by (intro exI [of _ "outb 0x1f6 0xE0 d5"]) (simp add: uart_sends_def sent_def PIC2_DATA_def d1_def)
qed

subsection \<open>A machine with a drive\<close>

definition answering :: io where
  "answering = \<lparr>dev = \<lambda>_ p. if p = 0x3FD then 0x20 else 0x40, trace = []\<rparr>"

definition with_disk :: "u32 \<Rightarrow> mem \<Rightarrow> disk" where
  "with_disk q m = traps.extend (with_traps (example_running\<lparr>ram := m, ports := answering\<rparr>)) (disk.fields q 0)"

lemma with_disk_simps [simp]:
  "ram (with_disk q m) = m" "ports (with_disk q m) = answering" "ide_queue (with_disk q m) = q"
  "locks (with_disk q m) = locks example_running" "cpus (with_disk q m) = cpus example_running"
  "cpu_id (with_disk q m) = cpu_id example_running" "eflags (with_disk q m) = eflags example_running"
  by (simp_all add: with_disk_def with_traps_def traps.defs sys.defs disk.defs)

lemma with_disk_locks: "lock_state (with_disk q m) [] True"
  using example_run(2) by (simp add: lock_state_def if_on_def c_cpu_def)

lemma answering_ready: "drive_ready answering" "uart_ready answering" "drive_status answering = 0x40"
  by (simp_all add: answering_def drive_ready_def uart_ready_def drive_status_def inb_def)

subsection \<open>Properties\<close>

text \<open>C27: a request reaches the drive as it is in the buffer: for a block of the file system, ide_start waits
  for the drive and sends one sector count, the number of the block split over its four registers, the unit of
  the device and the command; a write is followed by the 128 words of the buffer, a read by nothing; a null
  buffer or a block past the end panics.\<close>

theorem disk_request_encoded:
  assumes "drive_ready (ports s)"
  shows "(b \<noteq> 0 \<and> load32 (ram s) (b + buf_blockno) < FS_SIZE \<longrightarrow>
      (\<exists>d' x y u. ide_start b s = Inr (s\<lparr>ports := d'\<rparr>)
        \<and> written 0x1f2 (trace d') = written 0x1f2 (trace (ports s)) @ [1]
        \<and> written 0x1f3 (trace d') = written 0x1f3 (trace (ports s)) @ [x]
        \<and> written 0x1f4 (trace d') = written 0x1f4 (trace (ports s)) @ [y]
        \<and> written 0x1f5 (trace d') = written 0x1f5 (trace (ports s)) @ [0]
        \<and> written 0x1f6 (trace d') = written 0x1f6 (trace (ports s)) @ [u]
        \<and> unat x + 256 * unat y = unat (load32 (ram s) (b + buf_blockno))
        \<and> u AND 0xEF = 0xE0 \<and> (bit u 4 \<longleftrightarrow> odd (load32 (ram s) (b + buf_dev)))
        \<and> written 0x1f7 (trace d') = written 0x1f7 (trace (ports s))
            @ [if load32 (ram s) (b + buf_flags) AND B_DIRTY \<noteq> 0 then IDE_CMD_WRITE else IDE_CMD_READ]
        \<and> written32 0x1f0 (trace d') = written32 0x1f0 (trace (ports s)) @ request_data (ram s) b))
    \<and> (b = 0 \<longrightarrow> ide_start b s = panic ''ide_start'')
    \<and> (b \<noteq> 0 \<and> FS_SIZE \<le> load32 (ram s) (b + buf_blockno) \<longrightarrow> ide_start b s = panic ''incorrect blockno'')"
proof (intro conjI impI)
  assume a: "b \<noteq> 0 \<and> load32 (ram s) (b + buf_blockno) < FS_SIZE"
  let ?n = "load32 (ram s) (b + buf_blockno)" and ?v = "load32 (ram s) (b + buf_dev)"
  obtain d' where d': "ide_start b s = Inr (s\<lparr>ports := d'\<rparr>)" "requested (ram s) b (ports s) d'"
    using ide_start_request [OF assms] a by blast
  have "?n < 1000" using a by (simp add: FS_SIZE_def)
  note n = request_block [OF this]
  define u where "u = (ucast (0xe0 OR push_bit 4 (?v AND 1)) :: u8)"
  have bits: "u AND 0xEF = 0xE0" "bit u 4 \<longleftrightarrow> odd ?v"
    by (cases "odd ?v"; simp add: u_def and_one_eq mod_2_eq_odd)+
  show "\<exists>d' x y u. ide_start b s = Inr (s\<lparr>ports := d'\<rparr>)
        \<and> written 0x1f2 (trace d') = written 0x1f2 (trace (ports s)) @ [1]
        \<and> written 0x1f3 (trace d') = written 0x1f3 (trace (ports s)) @ [x]
        \<and> written 0x1f4 (trace d') = written 0x1f4 (trace (ports s)) @ [y]
        \<and> written 0x1f5 (trace d') = written 0x1f5 (trace (ports s)) @ [0]
        \<and> written 0x1f6 (trace d') = written 0x1f6 (trace (ports s)) @ [u]
        \<and> unat x + 256 * unat y = unat (load32 (ram s) (b + buf_blockno))
        \<and> u AND 0xEF = 0xE0 \<and> (bit u 4 \<longleftrightarrow> odd (load32 (ram s) (b + buf_dev)))
        \<and> written 0x1f7 (trace d') = written 0x1f7 (trace (ports s))
            @ [if load32 (ram s) (b + buf_flags) AND B_DIRTY \<noteq> 0 then IDE_CMD_WRITE else IDE_CMD_READ]
        \<and> written32 0x1f0 (trace d') = written32 0x1f0 (trace (ports s)) @ request_data (ram s) b"
    by (rule exI [of _ d'], rule exI [of _ "ucast (?n AND 0xff)"], rule exI [of _ "ucast (drop_bit 8 ?n AND 0xff)"], rule exI [of _ u])
      (use d' n bits in \<open>simp add: requested_def request_bytes_def u_def IDE_CMD_READ_def IDE_CMD_WRITE_def\<close>)
qed (auto simp: ide_start_def)

theorem disk_request_encoded_witness:
  "\<exists>d' x y. ide_start 0x9000 (with_disk 0 (store32 (\<lambda>_. 0) 0x9008 777)) = Inr ((with_disk 0 (store32 (\<lambda>_. 0) 0x9008 777))\<lparr>ports := d'\<rparr>)
    \<and> written 0x1f3 (trace d') = [x] \<and> written 0x1f4 (trace d') = [y] \<and> unat x + 256 * unat y = 777"
proof -
  have r: "drive_ready (ports (with_disk 0 (store32 (\<lambda>_. 0) 0x9008 777)))" by (simp add: answering_ready)
  show ?thesis using disk_request_encoded [OF r, of "0x9000"]
    by (simp add: buf_fields FS_SIZE_def answering_def) blast
qed



text \<open>starting the driver: with a drive that answers init_ide unmasks the disk line at the second
  controller, records the second disk, reports on the serial line and selects the first disk again; with a drive that
  never gets ready it hangs.\<close>

theorem init_ide_finds_disk:
  assumes "uart_ready (ports s)"
  shows "(drive_ready (ports s) \<longrightarrow> (\<exists>s' v. init_ide s = Inr s' \<and> have_disk1 s' = 1
        \<and> locked (locks s' Ide_lock) = 0 \<and> ram s' = ram s \<and> ptable s' = ptable s
        \<and> written PIC2_DATA (trace (ports s')) = written PIC2_DATA (trace (ports s)) @ [v] \<and> \<not> bit v 6
        \<and> written 0x1f6 (trace (ports s')) = written 0x1f6 (trace (ports s)) @ [0xF0, 0xE0]
        \<and> sent (ports s') = sent (ports s) @ text_ide_done))
    \<and> ((\<forall>h. (ucast (dev (ports s) h 0x1f7) :: u8) AND 0xC0 \<noteq> 0x40) \<longrightarrow> init_ide s = Inl Hang)"
proof -
  have i: "locked (locks (init_lock Ide_lock ''ide'' s) Ide_lock) = 0" "ram (init_lock Ide_lock ''ide'' s) = ram s"
    "ptable (init_lock Ide_lock ''ide'' s) = ptable s" "ports (init_lock Ide_lock ''ide'' s) = ports s"
    by (simp_all add: init_lock_def set_lock_def)
  obtain v where v: "written PIC2_DATA (trace (enable_irq IRQ_ATA1 (ports s))) = written PIC2_DATA (trace (ports s)) @ [v]" "\<not> bit v 6"
    using byte_clear_bit [of 6 "fst (inb PIC2_DATA (ports s))" 6] by (simp add: enable_irq_def Let_def case_prod_beta IRQ_ATA1_def)
  have "init_ide s = Inl Hang" if "\<forall>h. (ucast (dev (ports s) h 0x1f7) :: u8) AND 0xC0 \<noteq> 0x40"
    using ide_wait_hangs [of "enable_irq IRQ_ATA1 (ports s)" 0] that i(4) by (simp add: init_ide_def Let_def enable_irq_def case_prod_beta)
  moreover have "\<exists>s' v. init_ide s = Inr s' \<and> have_disk1 s' = 1
        \<and> locked (locks s' Ide_lock) = 0 \<and> ram s' = ram s \<and> ptable s' = ptable s
        \<and> written PIC2_DATA (trace (ports s')) = written PIC2_DATA (trace (ports s)) @ [v] \<and> \<not> bit v 6
        \<and> written 0x1f6 (trace (ports s')) = written 0x1f6 (trace (ports s)) @ [0xF0, 0xE0]
        \<and> sent (ports s') = sent (ports s) @ text_ide_done" if r: "drive_ready (ports s)"
  proof -
    obtain d' where d': "init_ide s = Inr ((init_lock Ide_lock ''ide'' s)\<lparr>have_disk1 := 1, ports := d'\<rparr>)"
      "\<forall>p. p \<notin> {0x3F8, 0x1f6} \<longrightarrow> written p (trace d') = written p (trace (enable_irq IRQ_ATA1 (ports s)))"
      "written 0x1f6 (trace d') = written 0x1f6 (trace (ports s)) @ [0xF0, 0xE0]" "sent d' = sent (ports s) @ text_ide_done"
      using init_ide_step [OF assms r] by blast
    moreover from d'(2) have "written PIC2_DATA (trace d') = written PIC2_DATA (trace (ports s)) @ [v]"
      using v(1) by (simp add: PIC2_DATA_def)
    ultimately show ?thesis using i v(2)
      by (intro exI [of _ "(init_lock Ide_lock ''ide'' s)\<lparr>have_disk1 := 1, ports := d'\<rparr>"] exI [of _ v]) simp
  qed
  ultimately show ?thesis by blast
qed

theorem init_ide_finds_disk_witness:
  "\<exists>s'. init_ide (with_disk 0 (\<lambda>_. 0)) = Inr s' \<and> have_disk1 s' = 1 \<and> sent (ports s') = text_ide_done"
proof -
  have "uart_ready (ports (with_disk 0 (\<lambda>_. 0)))" by (simp add: answering_ready)
  from init_ide_finds_disk [OF this] obtain s' where "init_ide (with_disk 0 (\<lambda>_. 0)) = Inr s'" "have_disk1 s' = 1"
    "sent (ports s') = sent answering @ text_ide_done" by (auto simp: answering_ready)
  then show ?thesis by (simp add: sent_def answering_def)
qed

end
