(* ===== verification/Multiboot.thy ===== *)
theory Multiboot
  imports Memory Serial
begin

section \<open>The boot information\<close>

text \<open>
  \<^verbatim>\<open>kernel/sys/mulitiboot2.c\<close>. The tags the boot loader left are read from memory at
  \<open>addr\<close>; \<^verbatim>\<open>mem_info\<close> is the record \<open>system_memory_info\<close>, a static object that does not
  overlap them. The addresses of the linker script are the parameter \<open>sections\<close>. The source is modelled
  with \<^verbatim>\<open>MEM_INFO\<close> undefined, as \<^verbatim>\<open>include/def.h\<close> leaves it. A tag of size 0 keeps the loop where it
  is, so walking the tags is a partial function; an entry size of 0 and an entry past the 32 of the array have
  no meaning in C.
\<close>

definition MULTIBOOT2_BOOTLOADER_MAGIC :: u32 where "MULTIBOOT2_BOOTLOADER_MAGIC = 0x36d76289"
definition MULTIBOOT_TAG_TYPE_END :: u32 where "MULTIBOOT_TAG_TYPE_END = 0"
definition MULTIBOOT_TAG_TYPE_BASIC_MEMINFO :: u32 where "MULTIBOOT_TAG_TYPE_BASIC_MEMINFO = 4"
definition MULTIBOOT_TAG_TYPE_MMAP :: u32 where "MULTIBOOT_TAG_TYPE_MMAP = 6"

lemmas tag_types = MULTIBOOT_TAG_TYPE_END_def MULTIBOOT_TAG_TYPE_BASIC_MEMINFO_def MULTIBOOT_TAG_TYPE_MMAP_def

record multiboot_mmap_entry =
  entry_addr :: u64
  entry_len :: u64
  entry_type :: u32
  entry_zero :: u32

record sections =
  kernel_start :: u32
  kernel_text_start :: u32
  kernel_text_end :: u32
  kernel_rodata_start :: u32
  kernel_rodata_end :: u32
  kernel_data_start :: u32
  kernel_data_end :: u32
  kernel_bss_start :: u32
  kernel_bss_end :: u32
  kernel_end :: u32

record system_memory_info =
  memory_map :: "multiboot_mmap_entry list"
  memory_map_count :: u32
  total_physical_memory :: u64
  total_available_memory :: u64
  first_usable_addr :: u32
  last_usable_addr :: u32
  kernel_start_addr :: u32
  ktext_start_addr :: u32
  ktext_end_addr :: u32
  krodata_addr :: u32
  krodata_end_addr :: u32
  kdata_start_addr :: u32
  kdata_end_addr :: u32
  kbss_start_addr :: u32
  kbss_end_addr :: u32
  kernel_end_addr :: u32
  mem_lower :: u32
  mem_upper :: u32

definition zero_entry :: multiboot_mmap_entry where
  "zero_entry = \<lparr>entry_addr = 0, entry_len = 0, entry_type = 0, entry_zero = 0\<rparr>"

definition zero_mem_info :: system_memory_info where
  "zero_mem_info = \<lparr>memory_map = replicate 32 zero_entry, memory_map_count = 0, total_physical_memory = 0,
     total_available_memory = 0, first_usable_addr = 0, last_usable_addr = 0, kernel_start_addr = 0,
     ktext_start_addr = 0, ktext_end_addr = 0, krodata_addr = 0, krodata_end_addr = 0, kdata_start_addr = 0,
     kdata_end_addr = 0, kbss_start_addr = 0, kbss_end_addr = 0, kernel_end_addr = 0, mem_lower = 0, mem_upper = 0\<rparr>"

definition load64 :: "mem \<Rightarrow> u32 \<Rightarrow> u64" where
  "load64 m a = ucast (load32 m a) OR push_bit 32 (ucast (load32 m (a + 4)))"

definition load_entry :: "mem \<Rightarrow> u32 \<Rightarrow> multiboot_mmap_entry" where
  "load_entry m e = \<lparr>entry_addr = load64 m e, entry_len = load64 m (e + 8), entry_type = load32 m (e + 16),
     entry_zero = load32 m (e + 20)\<rparr>"

text \<open>The body of the loop over the entries, after the entry was stored.\<close>

definition count_entry :: "multiboot_mmap_entry \<Rightarrow> system_memory_info \<Rightarrow> system_memory_info" where
  "count_entry entry s =
     (let end_addr = entry_addr entry + entry_len entry;
          s1 = s\<lparr>total_physical_memory := total_physical_memory s + entry_len entry\<rparr>
      in if entry_type entry = 1
         then (let s2 = s1\<lparr>total_available_memory := total_available_memory s1 + entry_len entry\<rparr>
               in if entry_addr entry \<ge> 0x100000 \<and> entry_addr entry < 0xFFFFFFFF
                  then (let start_32 = ucast (entry_addr entry);
                            end_32 = ucast end_addr;
                            s3 = (if first_usable_addr s2 = 0 \<or> start_32 < first_usable_addr s2
                                  then s2\<lparr>first_usable_addr := start_32\<rparr> else s2)
                        in if end_32 > last_usable_addr s3 then s3\<lparr>last_usable_addr := end_32\<rparr> else s3)
                  else s2)
         else s1)"

fun entries_loop :: "mem \<Rightarrow> u32 \<Rightarrow> nat \<Rightarrow> nat \<Rightarrow> u32 \<Rightarrow> system_memory_info \<Rightarrow> system_memory_info res" where
  "entries_loop m entry_size 0 i entry s = Inr s"
| "entries_loop m entry_size (Suc n) i entry s =
     (if i \<ge> 32 then Inl (Undef ''memory_map index'')
      else entries_loop m entry_size n (i + 1) (entry + entry_size)
             (count_entry (load_entry m entry) (s\<lparr>memory_map := (memory_map s)[i := load_entry m entry]\<rparr>)))"

definition parse_memory_map_entries :: "mem \<Rightarrow> u32 \<Rightarrow> system_memory_info \<Rightarrow> system_memory_info res" where
  "parse_memory_map_entries m mmap s =
     (let size = load32 m (mmap + 4); entry_size = load32 m (mmap + 8)
      in if entry_size = 0 then Inl (Undef ''division by zero'')
         else (let entry_count = (size - 16) div entry_size
               in entries_loop m entry_size (unat entry_count) 0 (mmap + 16)
                    (s\<lparr>total_physical_memory := 0, total_available_memory := 0, first_usable_addr := 0,
                       last_usable_addr := 0, memory_map_count := entry_count\<rparr>)))"

definition parse_kernel_info :: "sections \<Rightarrow> system_memory_info \<Rightarrow> system_memory_info" where
  "parse_kernel_info k s = s\<lparr>kernel_start_addr := kernel_start k, ktext_start_addr := kernel_text_start k,
     ktext_end_addr := kernel_text_end k, krodata_addr := kernel_rodata_start k, krodata_end_addr := kernel_rodata_end k,
     kdata_start_addr := kernel_data_start k, kdata_end_addr := kernel_data_end k, kbss_start_addr := kernel_bss_start k,
     kbss_end_addr := kernel_bss_end k, kernel_end_addr := kernel_end k\<rparr>"

text \<open>One tag: the branch of the \<^verbatim>\<open>switch\<close>, and the address of the next one.\<close>

definition parse_tag :: "mem \<Rightarrow> u32 \<Rightarrow> system_memory_info \<Rightarrow> system_memory_info res" where
  "parse_tag m tag s =
     (if load32 m tag = MULTIBOOT_TAG_TYPE_BASIC_MEMINFO
      then Inr (s\<lparr>mem_lower := load32 m (tag + 8), mem_upper := load32 m (tag + 12)\<rparr>)
      else if load32 m tag = MULTIBOOT_TAG_TYPE_MMAP then parse_memory_map_entries m tag s
      else Inr s)"

definition next_tag :: "mem \<Rightarrow> u32 \<Rightarrow> u32" where
  "next_tag m tag = tag + ((load32 m (tag + 4) + 7) AND NOT 7)"

partial_function (option) tag_loop :: "mem \<Rightarrow> u32 \<Rightarrow> system_memory_info \<Rightarrow> system_memory_info res option" where
  "tag_loop m tag s =
     (if load32 m tag = MULTIBOOT_TAG_TYPE_END then Some (Inr s)
      else (case parse_tag m tag s of Inl h \<Rightarrow> Some (Inl h) | Inr s1 \<Rightarrow> tag_loop m (next_tag m tag) s1))"

definition text_not_multiboot :: "u8 list" where
  "text_not_multiboot = lit ([CHR 0xE9, CHR 0x94, CHR 0x99, CHR 0xE8, CHR 0xAF, CHR 0xAF] @ '': '' @ [CHR 0xE4, CHR 0xB8, CHR 
       0x8D, CHR 0xE6, CHR 0x98, CHR 0xAF] @ ''Multiboot2'' @ [CHR 0xE5, CHR 0xBC, CHR 0x95, CHR 0xE5, 
       CHR 0xAF, CHR 0xBC] @ '' '' @ [CHR 0xE9, CHR 0xAD, CHR 0x94, CHR 0xE6, CHR 0x95, CHR 0xB0] @ '': 
       %x'' @ [CHR 0x0A])"

definition parse_multiboot2_info ::
  "sections \<Rightarrow> mem \<Rightarrow> u32 \<Rightarrow> u32 \<Rightarrow> system_memory_info \<times> io \<Rightarrow> (system_memory_info \<times> io) res" where
  "parse_multiboot2_info k m magic addr = (\<lambda>(s, d).
     if magic \<noteq> MULTIBOOT2_BOOTLOADER_MAGIC
     then bindR (serial_printf text_not_multiboot [Word magic] d) (\<lambda>d. Inr (s, d))
     else bindR (run_loop (tag_loop m (addr + 8) s)) (\<lambda>s. Inr (parse_kernel_info k s, d)))"

definition mib :: "u64 \<Rightarrow> u32" where
  "mib n = ucast (n div (1024 * 1024))"

definition print_memory_summary :: "system_memory_info \<Rightarrow> io \<Rightarrow> io res" where
  "print_memory_summary s d =
     bindR (serial_printf (lit ([CHR 0x0A] @ ''=== '' @ [CHR 0xE5, CHR 0x86, CHR 0x85, CHR 0xE5, CHR 0xAD, CHR 0x98, CHR 0xE6, CHR 
       0xB1, CHR 0x87, CHR 0xE6, CHR 0x80, CHR 0xBB, CHR 0xE4, CHR 0xBF, CHR 0xA1, CHR 0xE6, CHR 0x81, 
       CHR 0xAF] @ '' ==='' @ [CHR 0x0A])) [] d)
     (\<lambda>d. bindR (serial_printf (lit ([CHR 0xE6, CHR 0x80, CHR 0xBB, CHR 0xE7, CHR 0x89, CHR 0xA9, CHR 0xE7, CHR 0x90, CHR 0x86, CHR 0xE5, 
       CHR 0x86, CHR 0x85, CHR 0xE5, CHR 0xAD, CHR 0x98] @ '': %d MB'' @ [CHR 0x0A])) [Word (mib (total_physical_memory s))] d)
     (\<lambda>d. bindR (serial_printf (lit ([CHR 0xE6, CHR 0x80, CHR 0xBB, CHR 0xE5, CHR 0x8F, CHR 0xAF, CHR 0xE7, CHR 0x94, CHR 0xA8, CHR 0xE5, 
       CHR 0x86, CHR 0x85, CHR 0xE5, CHR 0xAD, CHR 0x98] @ '': %d MB'' @ [CHR 0x0A])) [Word (mib (total_available_memory s))] d)
     (\<lambda>d. bindR (serial_printf (lit ([CHR 0xE7, CHR 0xAC, CHR 0xAC, CHR 0xE4, CHR 0xB8, CHR 0x80, CHR 0xE4, CHR 0xB8, CHR 0xAA, CHR 0xE5, 
       CHR 0x8F, CHR 0xAF, CHR 0xE7, CHR 0x94, CHR 0xA8, CHR 0xE5, CHR 0x9C, CHR 0xB0, CHR 0xE5, CHR 
       0x9D, CHR 0x80] @ '': %x'' @ [CHR 0x0A])) [Word (first_usable_addr s)] d)
     (\<lambda>d. bindR (serial_printf (lit ([CHR 0xE6, CHR 0x9C, CHR 0x80, CHR 0xE5, CHR 0x90, CHR 0x8E, CHR 0xE4, CHR 0xB8, CHR 0x80, CHR 0xE4, 
       CHR 0xB8, CHR 0xAA, CHR 0xE5, CHR 0x8F, CHR 0xAF, CHR 0xE7, CHR 0x94, CHR 0xA8, CHR 0xE5, CHR 
       0x9C, CHR 0xB0, CHR 0xE5, CHR 0x9D, CHR 0x80] @ '': %x'' @ [CHR 0x0A])) [Word (last_usable_addr s)] d)
     (\<lambda>d. serial_printf (lit ([CHR 0xE5, CHR 0x86, CHR 0x85, CHR 0xE5, CHR 0xAD, CHR 0x98, CHR 0xE6, CHR 0x98, CHR 0xA0, CHR 0xE5, 
       CHR 0xB0, CHR 0x84, CHR 0xE6, CHR 0x9D, CHR 0xA1, CHR 0xE7, CHR 0x9B, CHR 0xAE, CHR 0xE6, CHR 
       0x95, CHR 0xB0] @ '': %d'' @ [CHR 0x0A])) [Word (memory_map_count s)] d)))))"

subsection \<open>The summary of a memory map\<close>

definition is_high :: "multiboot_mmap_entry \<Rightarrow> bool" where
  "is_high e \<longleftrightarrow> entry_type e = 1 \<and> 0x100000 \<le> entry_addr e \<and> entry_addr e < 0xFFFFFFFF"

definition start32 :: "multiboot_mmap_entry \<Rightarrow> u32" where "start32 e = ucast (entry_addr e)"
definition end32 :: "multiboot_mmap_entry \<Rightarrow> u32" where "end32 e = ucast (entry_addr e + entry_len e)"

text \<open>What the statistics must say of the entries \<open>es\<close>: sums of lengths, the lowest start and the
  highest end of the usable regions above one megabyte, 0 when there is none.\<close>

definition summarises :: "multiboot_mmap_entry list \<Rightarrow> system_memory_info \<Rightarrow> bool" where
  "summarises es s \<longleftrightarrow> total_physical_memory s = sum_list (map entry_len es)
     \<and> total_available_memory s = sum_list (map entry_len (filter (\<lambda>e. entry_type e = 1) es))
     \<and> first_usable_addr s = (if filter is_high es = [] then 0 else Min (start32 ` set (filter is_high es)))
     \<and> last_usable_addr s = Max (insert 0 (end32 ` set (filter is_high es)))"

lemma high_start_pos: "is_high e \<Longrightarrow> start32 e \<noteq> 0"
proof
  assume a: "is_high e" "start32 e = 0"
  have u: "unat (start32 e) = unat (entry_addr e) mod 2 ^ 32"
    unfolding start32_def by (simp add: unsigned_ucast_eq take_bit_eq_mod)
  have "unat (entry_addr e) < 0xFFFFFFFF" "0x100000 \<le> unat (entry_addr e)"
    using a(1) by (simp_all add: is_high_def word_less_nat_alt word_le_nat_alt)
  then show False using a(2) u by simp
qed

lemma count_entry_summarises:
  assumes "summarises es s"
  shows "summarises (es @ [e]) (count_entry e s)"
proof -
  have f0: "first_usable_addr s = 0 \<longleftrightarrow> filter is_high es = []"
  proof (cases "filter is_high es = []")
    case False
    then have "Min (start32 ` set (filter is_high es)) \<in> start32 ` set (filter is_high es)" by (intro Min_in) (auto simp: filter_empty_conv)
    then show ?thesis using assms False high_start_pos by (auto simp: summarises_def)
  qed (use assms in \<open>simp add: summarises_def\<close>)
  show ?thesis
  proof (cases "is_high e")
    case False
    then show ?thesis using assms by (auto simp: summarises_def count_entry_def is_high_def Let_def add.commute)
  next
    case True
    let ?A = "start32 ` set (filter is_high es)" and ?B = "insert 0 (end32 ` set (filter is_high es))"
    have mn: "Min (insert (start32 e) ?A) = (if filter is_high es = [] \<or> start32 e < Min ?A then start32 e else Min ?A)"
    proof (cases "filter is_high es = []")
      case False
      then have "?A \<noteq> {}" by (auto simp: filter_empty_conv)
      then have "Min (insert (start32 e) ?A) = min (start32 e) (Min ?A)" by (intro Min_insert) simp_all
      moreover have "min x y = (if filter is_high es = [] \<or> x < y then x else y)" for x y :: u32
        using False by (auto simp: min_def)
      ultimately show ?thesis by (simp only:)
    qed simp
    have mx: "Max (insert (end32 e) ?B) = (if end32 e > Max ?B then end32 e else Max ?B)"
    proof -
      have "Max (insert (end32 e) ?B) = max (end32 e) (Max ?B)" by (intro Max_insert) simp_all
      moreover have "max x y = (if x > y then x else y)" for x y :: u32 by (auto simp: max_def)
      ultimately show ?thesis by (simp only:)
    qed
    have c: "count_entry e s = s\<lparr>total_physical_memory := total_physical_memory s + entry_len e,
        total_available_memory := total_available_memory s + entry_len e,
        first_usable_addr := (if first_usable_addr s = 0 \<or> start32 e < first_usable_addr s then start32 e else first_usable_addr s),
        last_usable_addr := (if end32 e > last_usable_addr s then end32 e else last_usable_addr s)\<rparr>"
      using True by (simp add: count_entry_def is_high_def Let_def start32_def end32_def)
    have "first_usable_addr (count_entry e s) = Min (insert (start32 e) ?A)"
      unfolding mn c using assms f0 by (auto simp: summarises_def)
    moreover have "last_usable_addr (count_entry e s) = Max (insert (end32 e) ?B)"
    proof -
      have l: "Max ?B = last_usable_addr s" using assms by (simp add: summarises_def)
      show ?thesis unfolding mx l by (simp add: c)
    qed
    moreover have "entry_type e = 1" using True by (simp add: is_high_def)
    ultimately show ?thesis using assms True by (simp add: summarises_def c insert_commute)
  qed
qed

lemma count_entry_keeps [simp]:
  "memory_map (count_entry e s) = memory_map s" "memory_map_count (count_entry e s) = memory_map_count s"
  "mem_lower (count_entry e s) = mem_lower s" "mem_upper (count_entry e s) = mem_upper s"
  by (simp_all add: count_entry_def Let_def)

lemma summarises_map [simp]: "summarises es (s\<lparr>memory_map := mm\<rparr>) = summarises es s"
  by (simp add: summarises_def)

text \<open>The entries of a tag, and what the loop leaves when they fit into the array.\<close>

definition entry_at :: "mem \<Rightarrow> u32 \<Rightarrow> nat \<Rightarrow> multiboot_mmap_entry" where
  "entry_at m tag i = load_entry m (tag + 16 + of_nat i * load32 m (tag + 8))"

definition entry_count :: "mem \<Rightarrow> u32 \<Rightarrow> nat" where
  "entry_count m tag = unat ((load32 m (tag + 4) - 16) div load32 m (tag + 8))"

definition entries_of :: "mem \<Rightarrow> u32 \<Rightarrow> multiboot_mmap_entry list" where
  "entries_of m tag = map (entry_at m tag) [0..<entry_count m tag]"

lemma entries_loop_step:
  assumes "i + n \<le> 32" "length (memory_map s) = 32" "take i (memory_map s) = es" "length es = i" "summarises es s"
  shows "\<exists>s'. entries_loop m z n i e s = Inr s' \<and> summarises (es @ map (\<lambda>j. load_entry m (e + of_nat j * z)) [0..<n]) s'
    \<and> take (i + n) (memory_map s') = es @ map (\<lambda>j. load_entry m (e + of_nat j * z)) [0..<n]
    \<and> length (memory_map s') = 32 \<and> memory_map_count s' = memory_map_count s \<and> mem_lower s' = mem_lower s \<and> mem_upper s' = mem_upper s"
  using assms
proof (induction n arbitrary: i e s es)
  case (Suc n)
  let ?x = "load_entry m e"
  let ?s = "count_entry ?x (s\<lparr>memory_map := (memory_map s)[i := ?x]\<rparr>)"
  have t: "take (Suc i) ((memory_map s)[i := ?x]) = es @ [?x]"
    using Suc.prems(1-4) by (simp add: take_Suc_conv_app_nth)
  have u: "map (\<lambda>j. load_entry m (e + of_nat j * z)) [0..<Suc n] = ?x # map (\<lambda>j. load_entry m (e + z + of_nat j * z)) [0..<n]"
    by (subst upt_conv_Cons, simp, simp add: map_Suc_upt [symmetric] algebra_simps del: upt_Suc)
  have "\<exists>s'. entries_loop m z n (i + 1) (e + z) ?s = Inr s' \<and> summarises ((es @ [?x]) @ map (\<lambda>j. load_entry m (e + z + of_nat j * z)) [0..<n]) s'
    \<and> take (i + 1 + n) (memory_map s') = (es @ [?x]) @ map (\<lambda>j. load_entry m (e + z + of_nat j * z)) [0..<n]
    \<and> length (memory_map s') = 32 \<and> memory_map_count s' = memory_map_count ?s \<and> mem_lower s' = mem_lower ?s \<and> mem_upper s' = mem_upper ?s"
    by (rule Suc.IH) (use Suc.prems t count_entry_summarises [of es "s\<lparr>memory_map := (memory_map s)[i := ?x]\<rparr>" ?x] in simp_all)
  then show ?case using Suc.prems(1) unfolding u by simp
qed simp

definition mmap_ok :: "mem \<Rightarrow> u32 \<Rightarrow> bool" where
  "mmap_ok m tag \<longleftrightarrow> load32 m (tag + 8) \<noteq> 0 \<and> entry_count m tag \<le> 32"

text \<open>\<open>describes m tag s\<close>: \<open>s\<close> holds the entries of the memory map tag and their summary.\<close>

definition describes :: "mem \<Rightarrow> u32 \<Rightarrow> system_memory_info \<Rightarrow> bool" where
  "describes m tag s \<longleftrightarrow> unat (memory_map_count s) = entry_count m tag
     \<and> take (entry_count m tag) (memory_map s) = entries_of m tag \<and> summarises (entries_of m tag) s"

lemma summarises_Nil: "total_physical_memory s = 0 \<Longrightarrow> total_available_memory s = 0 \<Longrightarrow> first_usable_addr s = 0
    \<Longrightarrow> last_usable_addr s = 0 \<Longrightarrow> summarises [] s"
  by (simp add: summarises_def)

lemma parse_map_step:
  assumes "mmap_ok m tag" "length (memory_map s) = 32"
  shows "\<exists>s'. parse_memory_map_entries m tag s = Inr s' \<and> describes m tag s' \<and> length (memory_map s') = 32
    \<and> mem_lower s' = mem_lower s \<and> mem_upper s' = mem_upper s"
proof -
  define n where "n = entry_count m tag"
  define z where "z = load32 m (tag + 8)"
  define s0 where "s0 = s\<lparr>total_physical_memory := 0, total_available_memory := 0, first_usable_addr := 0,
     last_usable_addr := 0, memory_map_count := (load32 m (tag + 4) - 16) div z\<rparr>"
  have "0 + n \<le> 32" "length (memory_map s0) = 32" "take 0 (memory_map s0) = []" "length [] = 0" "summarises [] s0"
    using assms by (simp_all add: n_def mmap_ok_def s0_def summarises_Nil)
  from entries_loop_step [OF this, of m z "tag + 16"]
  obtain s' where s': "entries_loop m z n 0 (tag + 16) s0 = Inr s'"
    "summarises (map (\<lambda>j. load_entry m (tag + 16 + of_nat j * z)) [0..<n]) s'"
    "take n (memory_map s') = map (\<lambda>j. load_entry m (tag + 16 + of_nat j * z)) [0..<n]"
    "length (memory_map s') = 32" "memory_map_count s' = memory_map_count s0" "mem_lower s' = mem_lower s0" "mem_upper s' = mem_upper s0"
    by auto
  have e: "entries_of m tag = map (\<lambda>j. load_entry m (tag + 16 + of_nat j * z)) [0..<n]"
    by (simp add: entries_of_def entry_at_def [abs_def] n_def z_def)
  have "parse_memory_map_entries m tag s = entries_loop m z n 0 (tag + 16) s0"
    using assms(1) by (simp add: parse_memory_map_entries_def mmap_ok_def z_def n_def s0_def entry_count_def Let_def)
  moreover have "unat (memory_map_count s0) = n" by (simp add: s0_def n_def entry_count_def z_def)
  ultimately show ?thesis using s' by (simp add: describes_def e n_def [symmetric] s0_def)
qed

lemma too_many_entries:
  "i \<le> 32 \<Longrightarrow> 32 < i + n \<Longrightarrow> entries_loop m z n i e s = Inl (Undef ''memory_map index'')"
  by (induction n arbitrary: i e s) auto

subsection \<open>Walking the tags\<close>

fun tags_at :: "mem \<Rightarrow> u32 \<Rightarrow> u32 list \<Rightarrow> bool" where
  "tags_at m a [] \<longleftrightarrow> load32 m a = MULTIBOOT_TAG_TYPE_END"
| "tags_at m a (t # ts) \<longleftrightarrow> t = a \<and> load32 m a \<noteq> MULTIBOOT_TAG_TYPE_END \<and> tags_at m (next_tag m a) ts"

definition last_tag :: "mem \<Rightarrow> u32 \<Rightarrow> u32 list \<Rightarrow> u32 option" where
  "last_tag m k ts = (case rev (filter (\<lambda>t. load32 m t = k) ts) of [] \<Rightarrow> None | t # _ \<Rightarrow> Some t)"

lemma last_tag_Cons: "last_tag m k (t # ts) = (case last_tag m k ts of Some u \<Rightarrow> Some u | None \<Rightarrow> if load32 m t = k then Some t else None)"
  by (cases "rev (filter (\<lambda>t. load32 m t = k) ts)") (auto simp: last_tag_def)

lemma tag_loop_END: "load32 m a = MULTIBOOT_TAG_TYPE_END \<Longrightarrow> tag_loop m a s = Some (Inr s)"
  by (subst tag_loop.simps) simp

lemma tag_loop_next: "load32 m a \<noteq> MULTIBOOT_TAG_TYPE_END \<Longrightarrow> parse_tag m a s = Inr s1 \<Longrightarrow> tag_loop m a s = tag_loop m (next_tag m a) s1"
  by (subst tag_loop.simps) simp

text \<open>What is known of the record after the tags \<open>ts\<close>, given what was known before.\<close>

definition informed :: "mem \<Rightarrow> u32 list \<Rightarrow> system_memory_info \<Rightarrow> system_memory_info \<Rightarrow> bool" where
  "informed m ts s s' \<longleftrightarrow>
     (case last_tag m MULTIBOOT_TAG_TYPE_BASIC_MEMINFO ts of
        Some t \<Rightarrow> mem_lower s' = load32 m (t + 8) \<and> mem_upper s' = load32 m (t + 12)
      | None \<Rightarrow> mem_lower s' = mem_lower s \<and> mem_upper s' = mem_upper s)
   \<and> (case last_tag m MULTIBOOT_TAG_TYPE_MMAP ts of
        Some t \<Rightarrow> describes m t s'
      | None \<Rightarrow> memory_map s' = memory_map s \<and> memory_map_count s' = memory_map_count s
          \<and> total_physical_memory s' = total_physical_memory s \<and> total_available_memory s' = total_available_memory s
          \<and> first_usable_addr s' = first_usable_addr s \<and> last_usable_addr s' = last_usable_addr s)"

lemma describes_cong:
  assumes "memory_map s' = memory_map s" "memory_map_count s' = memory_map_count s"
    "total_physical_memory s' = total_physical_memory s" "total_available_memory s' = total_available_memory s"
    "first_usable_addr s' = first_usable_addr s" "last_usable_addr s' = last_usable_addr s"
  shows "describes m t s' = describes m t s"
  using assms by (simp add: describes_def summarises_def)

lemma parse_tag_step:
  assumes "load32 m t = MULTIBOOT_TAG_TYPE_MMAP \<longrightarrow> mmap_ok m t" "length (memory_map s) = 32"
  shows "\<exists>s'. parse_tag m t s = Inr s' \<and> length (memory_map s') = 32 \<and> informed m [t] s s'"
proof (cases "load32 m t = MULTIBOOT_TAG_TYPE_MMAP")
  case True
  then obtain s' where "parse_memory_map_entries m t s = Inr s'" "describes m t s'" "length (memory_map s') = 32"
    "mem_lower s' = mem_lower s" "mem_upper s' = mem_upper s"
    using parse_map_step [OF _ assms(2)] assms(1) by blast
  then show ?thesis using True by (simp add: parse_tag_def informed_def last_tag_def tag_types)
next
  case False
  then show ?thesis using assms(2) by (simp add: parse_tag_def informed_def last_tag_def tag_types)
qed

lemma informed_trans: "informed m [t] s s1 \<Longrightarrow> informed m ts s1 s2 \<Longrightarrow> informed m (t # ts) s s2"
  unfolding informed_def last_tag_Cons [of m _ t ts] last_tag_Cons [of m _ t "[]"]
  by (auto simp: last_tag_def [of m _ "[]"] split: option.splits if_splits intro: describes_cong [THEN iffD2])

lemma tag_loop_step:
  assumes "tags_at m a ts" "\<forall>t \<in> set ts. load32 m t = MULTIBOOT_TAG_TYPE_MMAP \<longrightarrow> mmap_ok m t" "length (memory_map s) = 32"
  shows "\<exists>s'. tag_loop m a s = Some (Inr s') \<and> informed m ts s s'"
  using assms
proof (induction ts arbitrary: a s)
  case Nil
  then show ?case by (auto simp: tag_loop_END informed_def last_tag_def)
next
  case (Cons t ts)
  obtain s1 where s1: "parse_tag m t s = Inr s1" "length (memory_map s1) = 32" "informed m [t] s s1"
    using parse_tag_step [of m t s] Cons.prems by auto
  obtain s2 where "tag_loop m (next_tag m a) s1 = Some (Inr s2)" "informed m ts s1 s2"
    using Cons.IH [of "next_tag m a" s1] Cons.prems s1(2) by auto
  then show ?case using Cons.prems(1) tag_loop_next [of m a s s1] s1 informed_trans [OF s1(3)] by auto
qed

text \<open>A tag of size 0 that the loop has no branch for never gets passed.\<close>

lemma tag_loop_stuck:
  assumes "tag_loop m a s = Some r"
  shows "\<not> (load32 m a \<notin> {MULTIBOOT_TAG_TYPE_END, MULTIBOOT_TAG_TYPE_BASIC_MEMINFO, MULTIBOOT_TAG_TYPE_MMAP} \<and> load32 m (a + 4) = 0)"
  by (rule tag_loop.raw_induct [OF _ assms, where P = "\<lambda>m a _ _. \<not> (load32 m a \<notin> {MULTIBOOT_TAG_TYPE_END,
      MULTIBOOT_TAG_TYPE_BASIC_MEMINFO, MULTIBOOT_TAG_TYPE_MMAP} \<and> load32 m (a + 4) = 0)"])
    (auto simp: parse_tag_def next_tag_def; blast)

text \<open>Whether the loop comes back depends on the chain of tags alone: it stops at an end tag or at a memory map that
  cannot be read, whatever the record holds.\<close>

definition tag_stops :: "mem \<Rightarrow> u32 \<Rightarrow> bool" where
  "tag_stops m t \<longleftrightarrow> load32 m t = MULTIBOOT_TAG_TYPE_END \<or> (load32 m t = MULTIBOOT_TAG_TYPE_MMAP \<and> \<not> mmap_ok m t)"

lemma entries_loop_returns: "i + n \<le> 32 \<Longrightarrow> \<exists>s'. entries_loop m z n i e s = Inr s'"
  by (induction n arbitrary: i e s) auto

lemma parse_tag_returns:
  assumes "load32 m t \<noteq> MULTIBOOT_TAG_TYPE_END"
  shows "(\<exists>s'. parse_tag m t s = Inr s') \<longleftrightarrow> \<not> tag_stops m t" "parse_tag m t s \<noteq> Inl Hang"
proof -
  let ?z = "load32 m (t + 8)" and ?n = "unat ((load32 m (t + 4) - 16) div load32 m (t + 8))"
  have e: "(\<exists>s'. entries_loop m ?z ?n 0 (t + 16) u = Inr s') \<longleftrightarrow> ?n \<le> 32" "entries_loop m ?z ?n 0 (t + 16) u \<noteq> Inl Hang" for u
    using entries_loop_returns [of 0 ?n m ?z "t + 16" u] too_many_entries [of 0 ?n m ?z "t + 16" u] by (cases "?n \<le> 32"; force)+
  show "(\<exists>s'. parse_tag m t s = Inr s') \<longleftrightarrow> \<not> tag_stops m t"
    using assms e(1) by (auto simp: parse_tag_def tag_stops_def mmap_ok_def entry_count_def parse_memory_map_entries_def Let_def tag_types)
  show "parse_tag m t s \<noteq> Inl Hang"
    using e(2) by (auto simp: parse_tag_def parse_memory_map_entries_def Let_def)
qed

lemma tag_loop_returns: "(\<exists>r. tag_loop m a s = Some r) \<longleftrightarrow> (\<exists>n. tag_stops m ((next_tag m ^^ n) a))"
proof
  assume "\<exists>r. tag_loop m a s = Some r"
  then obtain r where "tag_loop m a s = Some r" ..
  then show "\<exists>n. tag_stops m ((next_tag m ^^ n) a)"
  proof (rule tag_loop.raw_induct [rotated], goal_cases)
    case (1 loop m a s r)
    show ?case
    proof (cases "tag_stops m a")
      case True
      then show ?thesis by (intro exI [of _ 0]) simp
    next
      case False
      then have "load32 m a \<noteq> MULTIBOOT_TAG_TYPE_END" by (simp add: tag_stops_def)
      moreover from parse_tag_returns(1) [OF this, of s] False obtain s1 where "parse_tag m a s = Inr s1" by blast
      ultimately have "loop m (next_tag m a) s1 = Some r" using 1(2) by simp
      then obtain n where "tag_stops m ((next_tag m ^^ n) (next_tag m a))" using 1(1) by blast
      then show ?thesis by (intro exI [of _ "Suc n"]) (simp add: funpow_swap1)
    qed
  qed
next
  assume "\<exists>n. tag_stops m ((next_tag m ^^ n) a)"
  then obtain n where "tag_stops m ((next_tag m ^^ n) a)" ..
  then show "\<exists>r. tag_loop m a s = Some r"
  proof (induction n arbitrary: a s)
    case 0
    then show ?case
      using parse_tag_returns(1) [of m a s] by (subst tag_loop.simps) (auto split: sum.splits)
  next
    case (Suc n)
    then show ?case by (subst tag_loop.simps) (auto simp: funpow_swap1 split: sum.splits)
  qed
qed

lemma tag_loop_no_hang: "tag_loop m a s = Some r \<Longrightarrow> r \<noteq> Inl Hang"
proof (rule tag_loop.raw_induct [rotated, where P = "\<lambda>m a s r. r \<noteq> Inl Hang"], assumption, goal_cases)
  case (1 loop m a s r)
  then show ?case using parse_tag_returns(2) [of m a s] by (auto split: if_splits sum.splits)
qed

subsection \<open>Properties\<close>


text \<open>C25: the boot information is read: from a list of tags that ends, whose memory maps fit into the
  array, parse_multiboot2_info comes back with the sizes of the last basic tag, the entries of the last memory
  map and their summary (total, available, lowest start and highest end of the usable regions above one megabyte)
  and the bounds of the kernel's sections; nothing is printed.\<close>

theorem boot_information_parsed:
  assumes "tags_at m (addr + 8) ts" "\<forall>t \<in> set ts. load32 m t = MULTIBOOT_TAG_TYPE_MMAP \<longrightarrow> mmap_ok m t"
    and "length (memory_map s) = 32"
  shows "\<exists>s'. parse_multiboot2_info k m MULTIBOOT2_BOOTLOADER_MAGIC addr (s, d) = Inr (s', d)
    \<and> informed m ts s s' \<and> kernel_start_addr s' = kernel_start k \<and> kernel_end_addr s' = kernel_end k
    \<and> ktext_start_addr s' = kernel_text_start k \<and> ktext_end_addr s' = kernel_text_end k
    \<and> kdata_start_addr s' = kernel_data_start k \<and> kbss_end_addr s' = kernel_bss_end k"
proof -
  obtain s1 where s1: "tag_loop m (addr + 8) s = Some (Inr s1)" "informed m ts s s1" using tag_loop_step [OF assms] by blast
  have "informed m ts s (parse_kernel_info k s1)"
    using s1(2) by (auto simp: informed_def parse_kernel_info_def describes_def summarises_def split: option.splits)
  then show ?thesis using s1(1) by (simp add: parse_multiboot2_info_def parse_kernel_info_def)
qed

definition example_boot_area :: mem where
  "example_boot_area = fold (\<lambda>(a, v) m. store32 m a v)
     [(0x9008, 4), (0x900C, 16), (0x9010, 639), (0x9014, 130048),
      (0x9018, 6), (0x901C, 40), (0x9020, 24), (0x9024, 0),
      (0x9028, 0x100000), (0x902C, 0), (0x9030, 0x7EE0000), (0x9034, 0), (0x9038, 1), (0x903C, 0),
      (0x9040, 0), (0x9044, 8)] (\<lambda>_. 0)"

lemma example_boot_words:
  "load32 example_boot_area 0x9008 = 4" "load32 example_boot_area 0x900C = 16" "load32 example_boot_area 0x9010 = 639"
  "load32 example_boot_area 0x9014 = 130048" "load32 example_boot_area 0x9018 = 6" "load32 example_boot_area 0x901C = 40"
  "load32 example_boot_area 0x9020 = 24" "load32 example_boot_area 0x9028 = 0x100000" "load32 example_boot_area 0x902C = 0"
  "load32 example_boot_area 0x9030 = 0x7EE0000" "load32 example_boot_area 0x9034 = 0" "load32 example_boot_area 0x9038 = 1"
  "load32 example_boot_area 0x9040 = 0"
  by (simp_all add: example_boot_area_def aligned_def)

theorem boot_information_parsed_witness:
  "\<exists>s'. parse_multiboot2_info \<lparr>kernel_start = 0, kernel_text_start = 0, kernel_text_end = 0, kernel_rodata_start = 0,
      kernel_rodata_end = 0, kernel_data_start = 0, kernel_data_end = 0, kernel_bss_start = 0, kernel_bss_end = 0,
      kernel_end = 0x80110000\<rparr> example_boot_area MULTIBOOT2_BOOTLOADER_MAGIC 0x9000
      (zero_mem_info, \<lparr>dev = \<lambda>_ _. 0, trace = []\<rparr>) = Inr (s', \<lparr>dev = \<lambda>_ _. 0, trace = []\<rparr>)
    \<and> mem_upper s' = 130048 \<and> first_usable_addr s' = 0x100000 \<and> last_usable_addr s' = 0x7FE0000 \<and> kernel_end_addr s' = 0x80110000"
proof -
  let ?m = example_boot_area
  have ts: "tags_at ?m (0x9000 + 8) [0x9008, 0x9018]"
    by (simp add: next_tag_def example_boot_words tag_types)
  have n: "entry_count ?m 0x9018 = 1" by (simp add: entry_count_def example_boot_words)
  have "load_entry ?m 0x9028 = \<lparr>entry_addr = 0x100000, entry_len = 0x7EE0000, entry_type = 1, entry_zero = load32 ?m 0x903C\<rparr>"
    by (simp add: load_entry_def load64_def example_boot_words)
  then have e: "entries_of ?m 0x9018 = [\<lparr>entry_addr = 0x100000, entry_len = 0x7EE0000, entry_type = 1, entry_zero = load32 ?m 0x903C\<rparr>]"
    by (simp add: entries_of_def n entry_at_def)
  have ok: "\<forall>t \<in> set [0x9008, 0x9018]. load32 ?m t = MULTIBOOT_TAG_TYPE_MMAP \<longrightarrow> mmap_ok ?m t"
    by (simp add: mmap_ok_def n example_boot_words tag_types)
  have l: "length (memory_map zero_mem_info) = 32" by (simp add: zero_mem_info_def)
  have "informed ?m [0x9008, 0x9018] zero_mem_info s' \<Longrightarrow> mem_upper s' = 130048 \<and> first_usable_addr s' = 0x100000 \<and> last_usable_addr s' = 0x7FE0000" for s'
    by (simp add: informed_def last_tag_def example_boot_words tag_types describes_def e summarises_def is_high_def start32_def end32_def)
  with boot_information_parsed [OF ts ok l] show ?thesis by fastforce
qed

text \<open>boot information that cannot be read: a wrong magic number is reported on the serial line and changes
  nothing; a memory map with more than 32 entries runs past the array and an entry size of 0 is a division by
  it, both undefined; a tag of size 0 that is neither of the two kinds the kernel reads keeps the loop where it
  is for ever.\<close>

theorem boot_information_misuse:
  assumes "uart_ready d"
  shows "(magic \<noteq> MULTIBOOT2_BOOTLOADER_MAGIC \<longrightarrow> (\<exists>d' t. parse_multiboot2_info k m magic addr (s, d) = Inr (s, d') \<and> t \<noteq> [] \<and> uart_sends d t d'))
    \<and> (load32 m tag = MULTIBOOT_TAG_TYPE_MMAP \<and> (load32 m (tag + 8) = 0 \<or> entry_count m tag > 32) \<longrightarrow>
        (\<exists>w. tag_loop m tag s = Some (Inl (Undef w))))
    \<and> (load32 m (addr + 8) \<notin> {MULTIBOOT_TAG_TYPE_END, MULTIBOOT_TAG_TYPE_BASIC_MEMINFO, MULTIBOOT_TAG_TYPE_MMAP} \<and> load32 m (addr + 12) = 0 \<longrightarrow>
        parse_multiboot2_info k m MULTIBOOT2_BOOTLOADER_MAGIC addr (s, d) = Inl Hang)"
proof (intro conjI impI)
  assume "magic \<noteq> MULTIBOOT2_BOOTLOADER_MAGIC"
  obtain t where t: "printf_text text_not_multiboot [Word magic] = Some t" "t \<noteq> []"
    by (simp add: text_not_multiboot_def takes_arg_def)
  from serial_printf_step [OF assms t(1)] obtain d' where "serial_printf text_not_multiboot [Word magic] d = Inr d'" "uart_sends d t d'" .
  then show "\<exists>d' t. parse_multiboot2_info k m magic addr (s, d) = Inr (s, d') \<and> t \<noteq> [] \<and> uart_sends d t d'"
    using \<open>magic \<noteq> MULTIBOOT2_BOOTLOADER_MAGIC\<close> t(2) by (auto simp: parse_multiboot2_info_def)
next
  assume a: "load32 m tag = MULTIBOOT_TAG_TYPE_MMAP \<and> (load32 m (tag + 8) = 0 \<or> entry_count m tag > 32)"
  then have "\<exists>w. parse_memory_map_entries m tag s = Inl (Undef w)"
    using too_many_entries [of 0 "entry_count m tag"] by (auto simp: parse_memory_map_entries_def entry_count_def Let_def)
  then show "\<exists>w. tag_loop m tag s = Some (Inl (Undef w))"
    using a by (subst tag_loop.simps) (auto simp: parse_tag_def tag_types)
next
  assume a: "load32 m (addr + 8) \<notin> {MULTIBOOT_TAG_TYPE_END, MULTIBOOT_TAG_TYPE_BASIC_MEMINFO, MULTIBOOT_TAG_TYPE_MMAP} \<and> load32 m (addr + 12) = 0"
  then have "tag_loop m (addr + 8) s = None"
    using tag_loop_stuck [of m "addr + 8" s] by (cases "tag_loop m (addr + 8) s") (auto simp: add.assoc)
  then show "parse_multiboot2_info k m MULTIBOOT2_BOOTLOADER_MAGIC addr (s, d) = Inl Hang" by (simp add: parse_multiboot2_info_def)
qed

theorem boot_information_misuse_witness:
  "parse_multiboot2_info \<lparr>kernel_start = 0, kernel_text_start = 0, kernel_text_end = 0, kernel_rodata_start = 0,
      kernel_rodata_end = 0, kernel_data_start = 0, kernel_data_end = 0, kernel_bss_start = 0, kernel_bss_end = 0,
      kernel_end = 0\<rparr> (store32 (\<lambda>_. 0) 0x9008 1) MULTIBOOT2_BOOTLOADER_MAGIC 0x9000
      (zero_mem_info, \<lparr>dev = \<lambda>_ _. 0x20, trace = []\<rparr>) = Inl Hang"
proof -
  have "load32 (store32 (\<lambda>_. 0) 0x9008 1) 0x9008 = 1" "load32 (store32 (\<lambda>_. 0) 0x9008 1) 0x900C = 0"
    by (simp add: aligned_def, subst load32_store32_other) (simp_all add: aligned_def load32_def)
  then show ?thesis
    using boot_information_misuse [of "\<lparr>dev = \<lambda>_ _. 0x20, trace = []\<rparr>" MULTIBOOT2_BOOTLOADER_MAGIC _ "store32 (\<lambda>_. 0) 0x9008 1" "0x9000"]
    by (simp add: tag_types uart_ready_def)
qed

end
