(* ===== verification/Boot.thy ===== *)
theory Boot
  imports Ide Multiboot Screen
begin

section \<open>Starting the kernel\<close>

text \<open>
  \<^verbatim>\<open>init/main.c\<close>: \<^verbatim>\<open>kernel_main\<close> in the four phases of its comments, each the calls of the source in their
  order. \<open>boot\<close> is the whole state of the kernel; the table of C handlers is passed beside it, since its entries
  are functions on the state. \<open>layout\<close> holds the addresses the linker chooses for the tables. Switching the page
  directory and reloading the descriptor tables do not move the memory the model sees, which is indexed by
  the kernel's virtual addresses.
\<close>

record boot = disk +
  mem_info :: system_memory_info
  idtp :: idt_ptr
  idt :: "idt_entry list"
  gdtp :: gdt_ptr

record layout =
  stubs :: "nat \<Rightarrow> u32"
  idt_addr :: u32
  gdt_addr :: u32

definition os_name :: "u8 list" where "os_name = lit ''TuixOS''"

definition logo :: "u8 list list" where
  "logo = [lit ''TTTTTTTT  UU   UU  IIIIII  ##   ## '',
     lit ''   TT     UU   UU    II      # #   '',
     lit ''   TT     UU   UU    II       #    '',
     lit ''   TT     UU   UU    II      # #   '',
     lit ''   TT      UUUUU   IIIIII  ##   ##'']"

text \<open>The first loop draws the lines of the logo, the second one waits by drawing the same text again.\<close>

primrec draw_logo :: "nat \<Rightarrow> mem \<Rightarrow> mem" where
  "draw_logo 0 m = m"
| "draw_logo (Suc i) m = kprint (9 + int i) 21 (logo ! i) (draw_logo i m)"

primrec wait_loop :: "nat \<Rightarrow> mem \<Rightarrow> mem" where
  "wait_loop 0 m = m"
| "wait_loop (Suc c) m = wait_loop c (kprint 0 0 (lit ''LOGO!'') m)"

definition print_LOGO :: "mem \<Rightarrow> mem" where
  "print_LOGO m =
     (let m1 = draw_logo (length logo) m;
          m2 = kprint 20 33 (lit ''TuixOS v0.01'') m1;
          m3 = wait_loop 500000 m2
      in kprint 0 0 (lit ''Done!'') m3)"

definition text_launched :: "u8 list" where
  "text_launched = lit (''<============= %s Launched =============>'' @ [CHR 0x0A])"

definition init_show :: "'a machine_scheme \<Rightarrow> 'a machine_scheme res" where
  "init_show s = bindR (with_ports (serial_printf text_launched [Str os_name]) s) (\<lambda>s.
     Inr (s\<lparr>ram := print_LOGO (clear_screen (ram s))\<rparr>))"

definition init_keyboard_system :: "'a machine_scheme \<Rightarrow> 'a machine_scheme" where
  "init_keyboard_system s = s\<lparr>ports := enable_irq IRQ_KEYBOARD (ports s), ram := kprint 5 0 (lit ''Keyboard system ready...'') (ram s)\<rparr>"

definition text_pool1 :: "u8 list" where
  "text_pool1 = lit ([CHR 0xE5, CHR 0x88, CHR 0x9D, CHR 0xE5, CHR 0xA7, CHR 0x8B, CHR 0xE5, CHR 0x8C, CHR 0x96, CHR 0xE4, 
       CHR 0xB8, CHR 0x80, CHR 0xE9, CHR 0x83, CHR 0xA8, CHR 0xE5, CHR 0x88, CHR 0x86, CHR 0xE7, CHR 
       0xA9, CHR 0xBA, CHR 0xE9, CHR 0x97, CHR 0xB4, CHR 0xE5, CHR 0x90, CHR 0x8E, CHR 0xEF, CHR 0xBC, 
       CHR 0x8C, CHR 0xE7, CHR 0xA9, CHR 0xBA, CHR 0xE9, CHR 0x97, CHR 0xB2, CHR 0xE5, CHR 0x88, CHR 
       0x97, CHR 0xE8, CHR 0xA1, CHR 0xA8, CHR 0xE5, CHR 0xA4, CHR 0xA7, CHR 0xE5, CHR 0xB0, CHR 0x8F, 
       CHR 0xE4, CHR 0xB8, CHR 0xBA, CHR 0xEF, CHR 0xBC, CHR 0x9A] @ ''%dKB'' @ [CHR 0x0A])"
definition text_pool2 :: "u8 list" where
  "text_pool2 = lit ([CHR 0xE5, CHR 0x88, CHR 0x86, CHR 0xE9, CHR 0x85, CHR 0x8D, CHR 0xE9, CHR 0xA1, CHR 0xB5, CHR 0xE8, 
       CHR 0xA1, CHR 0xA8, CHR 0xE7, CHR 0xA9, CHR 0xBA, CHR 0xE9, CHR 0x97, CHR 0xB4, CHR 0xE5, CHR 
       0x90, CHR 0x8E, CHR 0xEF, CHR 0xBC, CHR 0x8C, CHR 0xE7, CHR 0xA9, CHR 0xBA, CHR 0xE9, CHR 0x97, 
       CHR 0xB2, CHR 0xE5, CHR 0x88, CHR 0x97, CHR 0xE8, CHR 0xA1, CHR 0xA8, CHR 0xE5, CHR 0xA4, CHR 
       0xA7, CHR 0xE5, CHR 0xB0, CHR 0x8F, CHR 0xE4, CHR 0xB8, CHR 0xBA, CHR 0xEF, CHR 0xBC, CHR 0x9A] @ 
       ''%dKB'' @ [CHR 0x0A])"
definition text_pool3 :: "u8 list" where
  "text_pool3 = lit ([CHR 0xE5, CHR 0x9B, CHR 0x9E, CHR 0xE6, CHR 0x94, CHR 0xB6, CHR 0xE5, CHR 0x89, CHR 0xA9, CHR 0xE4, 
       CHR 0xBD, CHR 0x99, CHR 0xE7, CHR 0xA9, CHR 0xBA, CHR 0xE9, CHR 0x97, CHR 0xB4, CHR 0xE5, CHR 
       0x90, CHR 0x8E, CHR 0xEF, CHR 0xBC, CHR 0x8C, CHR 0xE7, CHR 0xA9, CHR 0xBA, CHR 0xE9, CHR 0x97, 
       CHR 0xB2, CHR 0xE5, CHR 0x88, CHR 0x97, CHR 0xE8, CHR 0xA1, CHR 0xA8, CHR 0xE5, CHR 0xA4, CHR 
       0xA7, CHR 0xE5, CHR 0xB0, CHR 0x8F, CHR 0xE4, CHR 0xB8, CHR 0xBA, CHR 0xEF, CHR 0xBC, CHR 0x9A] @ 
       ''%dKB'' @ [CHR 0x0A])"

lemmas pool_texts = text_pool1_def text_pool2_def text_pool3_def

text \<open>The serial line, the screen and the boot information.\<close>

definition boot_console :: "sections \<Rightarrow> u32 \<Rightarrow> u32 \<Rightarrow> 'a boot_scheme \<Rightarrow> 'a boot_scheme res" where
  "boot_console k magic mbi_addr s =
     bindR (init_show (s\<lparr>ports := init_serial (ports s)\<rparr>)) (\<lambda>s.
     bindR (parse_multiboot2_info k (ram s) magic mbi_addr (mem_info s, ports s)) (\<lambda>(mi, d).
     Inr (s\<lparr>mem_info := mi, ports := d\<rparr>)))"

definition report_pool :: "u8 list \<Rightarrow> 'a machine_scheme \<Rightarrow> 'a machine_scheme res" where
  "report_pool fmt s = bindR (from_loop (kmem_size s)) (\<lambda>n. with_ports (serial_printf fmt [Word (n div 1024)]) s)"

text \<open>The segments, the page pool and the page tables.\<close>

definition boot_memory :: "layout \<Rightarrow> 'a boot_scheme \<Rightarrow> 'a boot_scheme res" where
  "boot_memory lay s =
     (let (gp, g) = init_gdt (gdt_addr lay) (gdt (this_cpu s));
          s1 = set_cpu (\<lambda>c. c\<lparr>gdt := g\<rparr>) (s\<lparr>gdtp := gp\<rparr>)
      in bindR (from_loop (init_physical_memory (kernel_end_addr (mem_info s1)) (P2V (4 * 1024 * 1024)) s1)) (\<lambda>s.
         bindR (report_pool text_pool1 s) (\<lambda>s.
         bindR (init_kvm (kdata_start_addr (mem_info s)) s) (\<lambda>s.
         bindR (report_pool text_pool2 s) (\<lambda>s.
         bindR (from_loop (init_physical_memory (P2V (4 * 1024 * 1024)) (P2V PHYSTOP) s)) (\<lambda>s.
         report_pool text_pool3 s))))))"

text \<open>The interrupt controllers and table, the timer, the keyboard and the disk.\<close>

definition boot_devices :: "layout \<Rightarrow> 'h isr option list \<Rightarrow> 'a boot_scheme \<Rightarrow> ('h isr option list \<times> 'a boot_scheme) res" where
  "boot_devices lay hs s =
     (let s1 = s\<lparr>ports := init_pic (ports s)\<rparr>;
          (p, t, hs1) = init_idt (stubs lay) (idt_addr lay) (idt s1, hs);
          s2 = s1\<lparr>idtp := p, idt := t\<rparr>
      in bindR (with_ports (init_timer 20) s2) (\<lambda>s.
         bindR (init_ide (init_keyboard_system s)) (\<lambda>s. Inr (hs1, s))))"

definition kernel_main :: "image \<Rightarrow> sections \<Rightarrow> layout \<Rightarrow> u32 \<Rightarrow> u32 \<Rightarrow> 'h isr option list \<Rightarrow> 'a boot_scheme
    \<Rightarrow> ('h isr option list \<times> thread \<times> 'a boot_scheme) res" where
  "kernel_main im k lay magic mbi_addr hs s =
     bindR (boot_console k magic mbi_addr s) (\<lambda>s.
     bindR (boot_memory lay s) (\<lambda>s.
     bindR (boot_devices lay hs s) (\<lambda>(hs, s).
     bindR (init_user im s) (\<lambda>s.
     Inr (hs, launch_first_proc (sti s))))))"

subsection \<open>The screen\<close>

text \<open>Drawing writes only to video memory: the 4000 bytes at the kernel's address of it, and for
  \<^verbatim>\<open>clear_screen\<close> those at its physical address.\<close>

definition video :: "u32 \<Rightarrow> bool" where
  "video a \<longleftrightarrow> in_block 0x800B8000 4000 a \<or> in_block 0xB8000 4000 a"

lemma put_char_frame: "\<not> video a \<Longrightarrow> put_char c row col m a = m a"
proof -
  assume a: "\<not> video a"
  have "in_block 0x800B8000 4000 (cell_at n)" "in_block 0x800B8000 4000 (cell_at n + 1)" if "n < 2000" for n
    using in_blockI [of "2 * n" 4000 "0x800B8000"] in_blockI [of "2 * n + 1" 4000 "0x800B8000"] that
    by (simp_all add: cell_at_def add.assoc)
  then show ?thesis using a put_char_cell [of row col c m]
    by (cases "0 \<le> row \<and> row < 25 \<and> 0 \<le> col \<and> col < 80") (auto simp: video_def put_char_def)
qed

lemma kprint_frame: "\<not> video a \<Longrightarrow> kprint row col str m a = m a"
proof -
  assume "\<not> video a"
  then have "kprint_loop row col i str m a = m a" for i
    by (induction str arbitrary: i m) (simp_all add: put_char_frame)
  then show ?thesis by (simp add: kprint_def)
qed

lemma clear_frame: "\<not> video a \<Longrightarrow> clear_screen m a = m a"
proof -
  assume a: "\<not> video a"
  have "n \<le> 2000 \<Longrightarrow> clear_loop n m a = m a" for n
  proof (induction n)
    case (Suc n)
    have "in_block 0xB8000 4000 (0xB8000 + of_nat (2 * n))" "in_block 0xB8000 4000 (0xB8000 + of_nat (2 * n + 1))"
      using in_blockI [of "2 * n" 4000 "0xB8000"] in_blockI [of "2 * n + 1" 4000 "0xB8000"] Suc.prems by simp_all
    then show ?case using Suc a by (auto simp: Let_def video_def add.assoc)
  qed simp
  then show ?thesis by (simp add: clear_screen_def)
qed

lemma draw_logo_frame: "\<not> video a \<Longrightarrow> draw_logo n m a = m a"
  by (induction n) (simp_all add: kprint_frame)

lemma wait_loop_frame: "\<not> video a \<Longrightarrow> wait_loop n m a = m a"
  by (induction n arbitrary: m) (simp_all add: kprint_frame)

lemma print_LOGO_frame: "\<not> video a \<Longrightarrow> print_LOGO m a = m a"
  by (simp add: print_LOGO_def Let_def kprint_frame wait_loop_frame draw_logo_frame)

definition boot_screen :: "mem \<Rightarrow> mem" where
  "boot_screen m = print_LOGO (clear_screen m)"

lemma boot_screen_frame: "\<not> video a \<Longrightarrow> boot_screen m a = m a"
  by (simp add: boot_screen_def print_LOGO_frame clear_frame)

subsection \<open>The phases\<close>

lemma booted_cong:
  assumes "booted s" "cpu_id s' = cpu_id s" "ptable s' = ptable s" "uart_ready (ports s')" "konts s' = konts s"
    and "\<And>hs b. lock_state s hs b \<Longrightarrow> hs = [] \<Longrightarrow> lock_state s' hs b"
  shows "booted s'"
  using assms by (auto simp: booted_def)

lemma booted_ports: "booted s \<Longrightarrow> dev d = dev (ports s) \<Longrightarrow> booted (s\<lparr>ports := d\<rparr>)"
  by (rule booted_cong [of s]) (auto simp: booted_def uart_ready_def)

lemma init_serial_dev: "dev (init_serial d) = dev d"
  by (simp add: init_serial_def)

lemma text_launched_printed: "printf_text text_launched [Str os_name] \<noteq> None"
  by (simp add: text_launched_def os_name_def takes_arg_def)

lemma pool_text_printed: "printf_text text_pool1 [Word n] \<noteq> None" "printf_text text_pool2 [Word n] \<noteq> None" "printf_text text_pool3 [Word n] \<noteq> None"
  by (simp_all add: pool_texts takes_arg_def)

lemma prints_ports:
  assumes "uart_ready (ports s)" "printf_text fmt args \<noteq> None"
  shows "\<exists>d. with_ports (serial_printf fmt args) s = Inr (s\<lparr>ports := d\<rparr>) \<and> dev d = dev (ports s)"
proof -
  obtain t where t: "printf_text fmt args = Some t" using assms(2) by blast
  from serial_printf_step [OF assms(1) t] obtain d where "serial_printf fmt args (ports s) = Inr d" "uart_sends (ports s) t d" .
  then show ?thesis by (auto simp: with_ports_def uart_sends_def)
qed

lemma console_step:
  assumes b: "booted s" and tags: "tags_at (boot_screen (ram s)) (mbi + 8) tgs"
    "\<forall>t \<in> set tgs. load32 (boot_screen (ram s)) t = MULTIBOOT_TAG_TYPE_MMAP \<longrightarrow> mmap_ok (boot_screen (ram s)) t"
    "length (memory_map (mem_info s)) = 32"
  shows "\<exists>mi d. boot_console k MULTIBOOT2_BOOTLOADER_MAGIC mbi s = Inr (s\<lparr>ram := boot_screen (ram s), mem_info := mi, ports := d\<rparr>)
    \<and> dev d = dev (ports s) \<and> kernel_end_addr mi = kernel_end k \<and> kdata_start_addr mi = kernel_data_start k
    \<and> (\<exists>mi1. informed (boot_screen (ram s)) tgs (mem_info s) mi1 \<and> mi = parse_kernel_info k mi1)"
proof -
  let ?s = "s\<lparr>ports := init_serial (ports s)\<rparr>"
  have "uart_ready (ports ?s)" using b by (simp add: booted_def uart_ready_def init_serial_dev)
  from prints_ports [OF this text_launched_printed] obtain d where
    d: "with_ports (serial_printf text_launched [Str os_name]) ?s = Inr (s\<lparr>ports := d\<rparr>)" "dev d = dev (ports s)"
    by (auto simp: init_serial_dev)
  have shown: "init_show ?s = Inr (s\<lparr>ports := d, ram := boot_screen (ram s)\<rparr>)"
    using d(1) by (simp add: init_show_def boot_screen_def)
  obtain mi1 where "tag_loop (boot_screen (ram s)) (mbi + 8) (mem_info s) = Some (Inr mi1)" "informed (boot_screen (ram s)) tgs (mem_info s) mi1"
    using tag_loop_step [OF tags] by blast
  then show ?thesis using shown d(2)
    by (intro exI [of _ "parse_kernel_info k mi1"] exI [of _ d])
      (auto simp: boot_console_def parse_multiboot2_info_def parse_kernel_info_def)
qed

lemma phys_more_fields:
  assumes "phys.more (s' :: 'a boot_scheme) = phys.more s"
  shows "k_maps s' = k_maps s" "kpgdir s' = kpgdir s" "cr3 s' = cr3 s" "ports s' = ports s" "eflags s' = eflags s" "cpus s' = cpus s"
    "cpu_id s' = cpu_id s" "locks s' = locks s" "ptable s' = ptable s" "konts s' = konts s" "mem_info s' = mem_info s" "idt s' = idt s"
    "idtp s' = idtp s" "gdtp s' = gdtp s"
  using assms by (cases s; cases s'; simp)+

lemma booted_fields:
  assumes "booted s" "cpu_id s' = cpu_id s" "ptable s' = ptable s" "dev (ports s') = dev (ports s)" "konts s' = konts s"
    "eflags s' = eflags s" "locks s' = locks s" "cpus s' = cpus s"
  shows "booted s'"
  using assms(1) by (rule booted_cong) (use assms in \<open>auto simp: booted_def uart_ready_def lock_state_def if_on_def c_cpu_def\<close>)

lemma report_step:
  assumes "free_pages s xs" "uart_ready (ports s)" "fmt \<in> {text_pool1, text_pool2, text_pool3}"
  shows "\<exists>d. report_pool fmt s = Inr (s\<lparr>ports := d\<rparr>) \<and> dev d = dev (ports s)"
proof -
  obtain n where n: "kmem_size s = Some n" using kmem_size_pool [OF assms(1)] by blast
  have "printf_text fmt [Word (n div 1024)] \<noteq> None" using assms(3) pool_text_printed by auto
  from prints_ports [OF assms(2) this] show ?thesis by (simp add: report_pool_def n)
qed

lemma kvm_step:
  assumes "free_pages s xs" "65 + r \<le> length xs" "kdata_ok kdata"
  shows "\<exists>s' ys. init_kvm kdata s = Inr s' \<and> free_pages s' ys \<and> r \<le> length ys \<and> set ys \<subseteq> set xs
    \<and> k_maps s' = kernel_maps kdata \<and> kpgdir s' = hd xs \<and> cr3 s' = V2P (kpgdir s') \<and> vm.more s' = vm.more s
    \<and> (\<forall>va. lookup (ram s') (kpgdir s') va = kernel_entry kdata va)"
proof -
  let ?s = "init_kmappings kdata s"
  have "free_pages ?s xs" by (rule free_pages_cong [OF assms(1)]) (simp_all add: init_kmappings_def)
  moreover have k: "k_maps ?s = kernel_maps kdata" by (simp add: kernel_maps_def init_kmappings_def)
  ultimately obtain s1 ys where s1: "setup_kvm ?s = Inr (hd xs, s1)" "vm_inv s1 (hd xs) ys" "phys.more s1 = phys.more ?s"
      "\<And>va. lookup (ram s1) (hd xs) va = kernel_entry kdata va" "r \<le> length ys" "space s1 (hd xs) ys = set xs"
    using setup_kvm_maps [of ?s xs r kdata] assms(2,3) by blast
  let ?s' = "lcr3 (V2P (hd xs)) (s1\<lparr>kpgdir := hd xs\<rparr>)"
  have "init_kvm kdata s = Inr ?s'" by (simp add: init_kvm_def s1(1) Let_def)
  moreover have "free_pages ?s' ys" using s1(2) by (simp add: vm_inv_def free_pages_def lcr3_def)
  moreover have "set ys \<subseteq> set xs" using s1(6) by (auto simp: space_def)
  moreover have "k_maps s1 = kernel_maps kdata" "vm.more s1 = vm.more s" using s1(3) k
    by (cases s1; cases s; simp add: init_kmappings_def)+
  ultimately show ?thesis using s1(4,5) by (intro exI [of _ ?s'] exI [of _ ys]) (simp add: lcr3_def)
qed

lemma vm_more_fields:
  assumes "vm.more (s' :: 'a boot_scheme) = vm.more s"
  shows "ports s' = ports s" "eflags s' = eflags s" "cpus s' = cpus s" "cpu_id s' = cpu_id s" "locks s' = locks s"
    "ptable s' = ptable s" "konts s' = konts s" "mem_info s' = mem_info s" "idt s' = idt s" "idtp s' = idtp s" "gdtp s' = gdtp s"
  using assms by (cases s; cases s'; simp)+

definition kernel_fits :: "sections \<Rightarrow> bool" where
  "kernel_fits k \<longleftrightarrow> kdata_ok (kernel_data_start k) \<and> 0x80100000 \<le> unat (kernel_end k)
     \<and> unat (kernel_end k) + 66 * 4096 \<le> 0x80400000"

text \<open>The pages the pool has when the kernel is up: the end of memory first.\<close>

definition pool_above :: "u32 \<Rightarrow> u32 list \<Rightarrow> bool" where
  "pool_above ke xs \<longleftrightarrow> (\<forall>x \<in> set xs. unat ke \<le> unat x \<and> unat x + 4096 \<le> 0x8E000000)"

lemma early_pool:
  fixes s :: "'a boot_scheme"
  assumes "freelist s = 0" "0x80100000 \<le> unat ke" "unat ke + 66 * 4096 \<le> 0x80400000"
  shows "\<exists>s' xs. init_physical_memory ke 0x80400000 s = Some s' \<and> free_pages s' xs \<and> phys.more s' = phys.more s
    \<and> 65 \<le> length xs \<and> (\<forall>x \<in> set xs. unat ke \<le> unat x \<and> unat x + 4096 \<le> 0x80400000)"
proof -
  let ?p = "PGROUNDUP ke" and ?n = "(0x80400000 - unat (PGROUNDUP ke)) div 4096"
  have u: "unat ?p = (unat ke + 4095) div 4096 * 4096" using assms(3) by (intro unat_PGROUNDUP) simp
  then have up: "unat ke \<le> unat ?p" "unat ?p < unat ke + 4096" by linarith+
  have "free_pages s []" using assms(1) by (simp add: free_pages_def)
  moreover have "ke \<noteq> 0" using assms(2) by auto
  moreover have "unat ?p \<le> unat (0x80400000 :: u32)" using up assms(3) by simp
  moreover have "unat ke + 4096 \<le> 4294967296" "unat (0x80400000 :: u32) + 4096 < 4294967296" using assms(3) by simp_all
  ultimately obtain s' where s': "init_physical_memory ke 0x80400000 s = Some s'" "free_pages s' (rev (pages_from ?p ?n))"
    "phys.more s' = phys.more s" using init_memory_step [of s "[]" ke "0x80400000"] by auto
  have "unat ke \<le> unat x \<and> unat x + 4096 \<le> 0x80400000" if "x \<in> set (pages_from ?p ?n)" for x
  proof -
    have "?n * 4096 \<le> 0x80400000 - unat ?p" by (rule div_times_less_eq_dividend)
    then have n: "unat ?p + ?n * 4096 \<le> 0x80400000" using up assms(3) by linarith
    then have "unat ?p + ?n * 4096 < 4294967296" by linarith
    moreover have "?p \<noteq> 0" using up assms(2) by auto
    ultimately show ?thesis using pages_from_frames [OF aligned_PGROUNDUP _ _ that] up n by auto
  qed
  moreover have "65 \<le> ?n" using up assms(3) by (simp add: less_eq_div_iff_mult_less_eq)
  ultimately show ?thesis using s' by (intro exI [of _ s'] exI [of _ "rev (pages_from ?p ?n)"]) simp
qed

lemma late_pool:
  fixes s :: "'a boot_scheme"
  assumes "free_pages s ys" "\<forall>x \<in> set ys. unat ke \<le> unat x \<and> unat x + 4096 \<le> 0x80400000" "unat ke \<le> 0x80400000"
  shows "\<exists>s' xs. init_physical_memory 0x80400000 0x8E000000 s = Some s' \<and> free_pages s' (0x8DFFF000 # xs) \<and> phys.more s' = phys.more s
    \<and> 67 \<le> length xs \<and> pool_above ke (0x8DFFF000 # xs)"
proof -
  have up: "PGROUNDUP 0x80400000 = 0x80400000" by (simp add: PGROUNDUP_def PGSIZE_def)
  define P where "P = pages_from (0x80400000 :: u32) 56320"
  have "\<forall>x \<in> set ys. unat x < unat (0x80400000 :: u32) \<or> unat (0x8E000000 :: u32) \<le> unat x" using assms(2) by auto
  then obtain s' where s': "init_physical_memory 0x80400000 0x8E000000 s = Some s'" "free_pages s' (rev P @ ys)"
    "phys.more s' = phys.more s"
    using init_memory_step [OF assms(1), of "0x80400000" "0x8E000000"] by (auto simp: up P_def)
  have "P = pages_from 0x80400000 (Suc 56319)" by (simp add: P_def del: pages_from.simps)
  also have "\<dots> = pages_from 0x80400000 56319 @ [0x8DFFF000]" unfolding pages_from_last by (simp add: PGSIZE_def)
  finally have P: "rev P @ ys = 0x8DFFF000 # (rev (pages_from 0x80400000 56319) @ ys)" by simp
  have "unat (0x80400000 :: u32) \<le> unat x \<and> unat x + 4096 \<le> 0x8E000000" if "x \<in> set P" for x
    using pages_from_frames [OF _ _ _ that [unfolded P_def]] by (simp add: aligned_def)
  then have "pool_above ke (rev P @ ys)" using assms(2,3) by (fastforce simp: pool_above_def)
  then show ?thesis using s' unfolding P by (intro exI [of _ s'] exI [of _ "rev (pages_from 0x80400000 56319) @ ys"]) simp
qed

lemma P2V_ends: "P2V 4194304 = 0x80400000" "P2V PHYSTOP = 0x8E000000"
  by (simp_all add: P2V_def mmu_consts KERNBASE_def)

lemma memory_step:
  fixes s :: "'a boot_scheme"
  assumes "booted s" "freelist s = 0" "kernel_fits k" "kernel_end_addr (mem_info s) = kernel_end k"
    "kdata_start_addr (mem_info s) = kernel_data_start k"
  shows "\<exists>s' xs. boot_memory lay s = Inr s' \<and> booted s' \<and> dev (ports s') = dev (ports s) \<and> free_pages s' (0x8DFFF000 # xs)
    \<and> 67 \<le> length xs \<and> pool_above (kernel_end k) (0x8DFFF000 # xs) \<and> k_maps s' = kernel_maps (kernel_data_start k)
    \<and> cr3 s' = V2P (kpgdir s') \<and> idt s' = idt s \<and> mem_info s' = mem_info s"
proof -
  obtain gp g where g: "init_gdt (gdt_addr lay) (gdt (this_cpu s)) = (gp, g)" by force
  let ?s1 = "set_cpu (\<lambda>c. c\<lparr>gdt := g\<rparr>) (s\<lparr>gdtp := gp\<rparr>)"
  have b1: "booted ?s1" using assms(1)
    by (rule booted_cong) (use assms(1) in \<open>auto simp: set_cpu_def booted_def lock_state_def if_on_def c_cpu_def\<close>)
  have f1: "freelist ?s1 = 0" "mem_info ?s1 = mem_info s" "dev (ports ?s1) = dev (ports s)" "idt ?s1 = idt s"
    using assms(2) by (simp_all add: set_cpu_def)
  have ke: "0x80100000 \<le> unat (kernel_end k)" "unat (kernel_end k) + 66 * 4096 \<le> 0x80400000" and kd: "kdata_ok (kernel_data_start k)"
    using assms(3) by (simp_all add: kernel_fits_def)
  obtain s2 ps where s2: "init_physical_memory (kernel_end k) 0x80400000 ?s1 = Some s2" "free_pages s2 ps"
    "phys.more s2 = phys.more ?s1" "65 + 0 \<le> length ps" "\<forall>x \<in> set ps. unat (kernel_end k) \<le> unat x \<and> unat x + 4096 \<le> 0x80400000"
    using early_pool [OF f1(1) ke] by auto
  note m2 = phys_more_fields [OF s2(3)]
  have b2: "booted s2" by (rule booted_fields [OF b1]) (simp_all add: m2)
  then have r2: "uart_ready (ports s2)" by (simp add: booted_def)
  obtain d3 where d3: "report_pool text_pool1 s2 = Inr (s2\<lparr>ports := d3\<rparr>)" "dev d3 = dev (ports s2)"
    using report_step [OF s2(2) r2] by blast
  have fp3: "free_pages (s2\<lparr>ports := d3\<rparr>) ps" by (rule free_pages_cong [OF s2(2)]) simp_all
  obtain s4 ys where s4: "init_kvm (kernel_data_start k) (s2\<lparr>ports := d3\<rparr>) = Inr s4" "free_pages s4 ys" "set ys \<subseteq> set ps"
    "k_maps s4 = kernel_maps (kernel_data_start k)" "cr3 s4 = V2P (kpgdir s4)" "vm.more s4 = vm.more (s2\<lparr>ports := d3\<rparr>)"
    using kvm_step [OF fp3 s2(4) kd] by blast
  note m4 = vm_more_fields [OF s4(6)]
  have b4: "booted s4" by (rule booted_fields [OF b2]) (simp_all add: m4 d3)
  then have r4: "uart_ready (ports s4)" by (simp add: booted_def)
  obtain d5 where d5: "report_pool text_pool2 s4 = Inr (s4\<lparr>ports := d5\<rparr>)" "dev d5 = dev (ports s4)"
    using report_step [OF s4(2) r4] by blast
  have fp5: "free_pages (s4\<lparr>ports := d5\<rparr>) ys" by (rule free_pages_cong [OF s4(2)]) simp_all
  have "\<forall>x \<in> set ys. unat (kernel_end k) \<le> unat x \<and> unat x + 4096 \<le> 0x80400000" using s2(5) s4(3) by blast
  from late_pool [OF fp5 this] ke(2) obtain s6 xs where s6: "init_physical_memory 0x80400000 0x8E000000 (s4\<lparr>ports := d5\<rparr>) = Some s6"
    "free_pages s6 (0x8DFFF000 # xs)" "phys.more s6 = phys.more (s4\<lparr>ports := d5\<rparr>)" "67 \<le> length xs"
    "pool_above (kernel_end k) (0x8DFFF000 # xs)" by auto
  note m6 = phys_more_fields [OF s6(3)]
  have b6: "booted s6" by (rule booted_fields [OF b4]) (simp_all add: m6 d5)
  then have r6: "uart_ready (ports s6)" by (simp add: booted_def)
  obtain d7 where d7: "report_pool text_pool3 s6 = Inr (s6\<lparr>ports := d7\<rparr>)" "dev d7 = dev (ports s6)"
    using report_step [OF s6(2) r6] by blast
  have "booted (s6\<lparr>ports := d7\<rparr>)" using b6 d7(2) by (rule booted_ports)
  moreover have "free_pages (s6\<lparr>ports := d7\<rparr>) (0x8DFFF000 # xs)" by (rule free_pages_cong [OF s6(2)]) simp_all
  moreover have "boot_memory lay s = Inr (s6\<lparr>ports := d7\<rparr>)"
    using g s2(1) d3(1) s4(1) d5(1) s6(1) d7(1) f1(2) m2(11) m4(8) assms(4,5)
    by (simp add: boot_memory_def Let_def P2V_ends)
  ultimately show ?thesis using s6 m6 m4 m2 d7 d5 d3 f1 s4
    by (intro exI [of _ "s6\<lparr>ports := d7\<rparr>"] exI [of _ xs]) simp
qed

text \<open>Drawing and port output leave the pool and the page tables as they are.\<close>

lemma pool_keeps_drawing:
  assumes "free_pages s xs" "pool_above ke xs" "0x80100000 \<le> unat ke" "freelist s' = freelist s"
    "\<And>a. \<not> video a \<Longrightarrow> ram s' a = ram s a"
  shows "free_pages s' xs"
proof (rule free_pages_cong [OF assms(1,4)])
  fix x a assume x: "x \<in> set xs" and a: "in_block x 4096 a"
  have u: "0x80100000 \<le> unat x" "unat x + 4096 \<le> 0x8E000000" using assms(2,3) x by (auto simp: pool_above_def)
  then have r: "0x80100000 \<le> unat a" "unat a < 0x8E000000" using a unat_lt_u32 [of x]
    by (auto simp: in_block_def unat_sub_if_size word_size split: if_splits)
  then have "\<not> video a" using unat_lt_u32 [of a] by (auto simp: video_def in_block_def unat_sub_if_size word_size split: if_splits)
  then show "ram s' a = ram s a" by (rule assms(5))
qed

lemma init_pic_facts: "dev (init_pic d) = dev d" "dev (enable_irq irq d) = dev d"
  by (simp_all add: init_pic_def disable_pic_def enable_irq_def Let_def case_prod_beta)

lemma devices_step:
  fixes s :: "'a boot_scheme" and hs :: "'h isr option list"
  assumes "booted s" "drive_ready (ports s)" "hs = replicate IDT_ITEM_NUM None"
  shows "\<exists>s'. boot_devices lay hs s = Inr (idt_handlers, s') \<and> booted s' \<and> dev (ports s') = dev (ports s)
    \<and> freelist s' = freelist s \<and> (\<forall>a. \<not> video a \<longrightarrow> ram s' a = ram s a) \<and> k_maps s' = k_maps s \<and> kpgdir s' = kpgdir s \<and> cr3 s' = cr3 s
    \<and> mem_info s' = mem_info s \<and> idt s' = idt_set (stubs lay) (idt s)
    \<and> (reads_mask (ports s) \<longrightarrow> (\<forall>n < 16. masked (ports s') n \<longleftrightarrow> n \<notin> {1, 14}))"
proof -
  let ?d1 = "init_pic (ports s)"
  have rd: "uart_ready (ports s)" using assms(1) by (simp add: booted_def)
  have i: "init_idt (stubs lay) (idt_addr lay) (idt s, hs) = (\<lparr>limit = 2047, base = idt_addr lay\<rparr>, idt_set (stubs lay) (idt s), idt_handlers)"
    using assms(3) by (simp add: init_idt_def sizeof_idt_entry_def IDT_ITEM_NUM_def idt_handlers_def)
  let ?s2 = "s\<lparr>ports := ?d1, idtp := \<lparr>limit = 2047, base = idt_addr lay\<rparr>, idt := idt_set (stubs lay) (idt s)\<rparr>"
  have "uart_ready ?d1" using rd by (simp add: uart_ready_def init_pic_facts)
  then obtain d2 where d2: "init_timer 20 ?d1 = Inr d2" "dev d2 = dev (ports s)"
    "\<forall>p. p \<notin> {0x3F8, 0x40, 0x43} \<longrightarrow> written p (trace d2) = written p (trace ?d1)"
    using timer_programmed [of ?d1 20] init_pic_facts(1) [of "ports s"] by auto
  define s3 where "s3 = init_keyboard_system (?s2\<lparr>ports := d2\<rparr>)"
  have p3: "ports s3 = enable_irq IRQ_KEYBOARD d2" "dev (ports s3) = dev (ports s)" using d2(2) by (simp_all add: s3_def init_keyboard_system_def init_pic_facts)
  have "uart_ready (ports s3)" "drive_ready (ports s3)" using rd assms(2) p3(2) by (simp_all add: uart_ready_def drive_ready_def)
  from init_ide_step [OF this] obtain d4 where d4: "init_ide s3 = Inr ((init_lock Ide_lock ''ide'' s3)\<lparr>have_disk1 := 1, ports := d4\<rparr>)"
    "dev d4 = dev (ports s3)" "\<forall>p. p \<notin> {0x3F8, 0x1f6} \<longrightarrow> written p (trace d4) = written p (trace (enable_irq IRQ_ATA1 (ports s3)))" by blast
  let ?s' = "(init_lock Ide_lock ''ide'' s3)\<lparr>have_disk1 := 1, ports := d4\<rparr>"
  have "boot_devices lay hs s = Inr (idt_handlers, ?s')"
    using i d2(1) d4(1) by (simp add: boot_devices_def Let_def with_ports_def s3_def)
  moreover have "booted ?s'" using assms(1)
  proof (rule booted_cong)
    fix ls b assume "lock_state s ls b" "ls = []"
    then have "lock_state s3 ls b" by (simp add: lock_state_def s3_def init_keyboard_system_def if_on_def c_cpu_def)
    then have "lock_state (init_lock Ide_lock ''ide'' s3) ls b" by (rule lock_state_init_lock) (simp add: \<open>ls = []\<close>)
    then show "lock_state ?s' ls b" by (subst lock_state_cong [of _ "init_lock Ide_lock ''ide'' s3"]) (simp_all add: c_cpu_def)
  qed (use d4(2) p3(2) rd in \<open>simp_all add: init_lock_def set_lock_def s3_def init_keyboard_system_def uart_ready_def\<close>)
  moreover have "\<forall>n < 16. masked d4 n \<longleftrightarrow> n \<notin> {1, 14}" if m: "reads_mask (ports s)"
  proof (intro allI impI)
    fix n :: nat assume n: "n < 16"
    have r: "reads_mask d2" "reads_mask (enable_irq IRQ_KEYBOARD d2)" using m reads_mask_dev [OF d2(2)] by simp_all
    have "masked d4 n = masked (enable_irq IRQ_ATA1 (ports s3)) n" using d4(3) by (intro masked_written) (simp_all add: pic_ports)
    also have "\<dots> \<longleftrightarrow> masked (enable_irq IRQ_KEYBOARD d2) n \<and> n \<noteq> 14"
      unfolding p3(1) using masked_enable [OF r(2) _ n, of IRQ_ATA1] by (simp add: IRQ_ATA1_def)
    also have "\<dots> \<longleftrightarrow> masked d2 n \<and> n \<noteq> 1 \<and> n \<noteq> 14"
      using masked_enable [OF r(1) _ n, of IRQ_KEYBOARD] by (simp add: IRQ_KEYBOARD_def)
    also have "masked d2 n = masked ?d1 n" using d2(3) by (intro masked_written) (simp_all add: pic_ports)
    finally show "masked d4 n \<longleftrightarrow> n \<notin> {1, 14}" using masked_init [OF n] by auto
  qed
  moreover have "\<forall>a. \<not> video a \<longrightarrow> ram ?s' a = ram s a"
    by (simp add: init_lock_def set_lock_def s3_def init_keyboard_system_def kprint_frame)
  ultimately show ?thesis using d4(2) p3(2)
    by (intro exI [of _ ?s']) (simp add: init_lock_def set_lock_def s3_def init_keyboard_system_def)
qed

lemma code_below_pool:
  assumes "user_init_code im \<noteq> 0" "user_init_code_size im \<le> PGSIZE"
    "unat (user_init_code im) + unat (user_init_code_size im) \<le> unat ke" "pool_above ke xs"
  shows "code_outside im (set xs)"
proof -
  have "\<not> in_block p 4096 a" if a: "in_block (user_init_code im) (unat (user_init_code_size im)) a" and p: "p \<in> set xs" for a p
  proof -
    have "unat a < unat ke" using a assms(3) unat_lt_u32 [of ke] unat_lt_u32 [of a]
      by (auto simp: in_block_def unat_sub_if_size word_size split: if_splits)
    moreover have "unat ke \<le> unat p" "unat p + 4096 \<le> 0x8E000000" using assms(4) p by (auto simp: pool_above_def)
    ultimately show ?thesis by (auto simp: in_block_def unat_sub_if_size word_size)
  qed
  then show ?thesis using assms(1-3) unat_lt_u32 [of ke] by (auto simp: code_outside_def)
qed

lemma sti_fields [simp]:
  "cpu_id (sti s) = cpu_id s" "ram (sti s) = ram s" "freelist (sti s) = freelist s" "cpus (sti s) = cpus s" "locks (sti s) = locks s" "ports (sti s) = ports s" "kpgdir (sti s) = kpgdir s"
  "cr3 (sti s) = cr3 s" "ptable (sti k) = ptable k" "proc_first (sti k) = proc_first k" "konts (sti y) = konts y"
  "mem_info (sti b) = mem_info b" "idt (sti b) = idt b"
  by (simp_all add: sti_def)

lemma if_on_launch: "if_on (snd (launch_first_proc (sti s)))"
proof -
  have "if_on (sti s)" by simp
  then show ?thesis by (simp add: launch_first_proc_def if_on_def set_cpu0_def)
qed

lemma sti_can_launch: "can_launch s \<Longrightarrow> can_launch (sti s)"
  by (auto simp: can_launch_def sys_ok_def running_only_def lock_state_def c_cpu_def)

text \<open>Pages that are neither in the kernel's image nor the first process's kernel stack.\<close>

definition above_kernel :: "sections \<Rightarrow> u32 set \<Rightarrow> bool" where
  "above_kernel k P \<longleftrightarrow> 0x8DFFF000 \<notin> P \<and> (\<forall>p \<in> P. aligned 12 p \<and> unat (kernel_end k) \<le> unat p \<and> unat p + 4096 \<le> 0x8E000000)"

lemma kernel_main_boots:
  fixes s :: "'a boot_scheme"
  assumes "booted s" "drive_ready (ports s)" "freelist s = 0" "kernel_fits k"
    and "tags_at (boot_screen (ram s)) (mbi + 8) tgs" "length (memory_map (mem_info s)) = 32"
      "\<forall>t \<in> set tgs. load32 (boot_screen (ram s)) t = MULTIBOOT_TAG_TYPE_MMAP \<longrightarrow> mmap_ok (boot_screen (ram s)) t"
    and "user_init_code im \<noteq> 0" "user_init_code_size im \<le> PGSIZE"
      "unat (user_init_code im) + unat (user_init_code_size im) \<le> unat (kernel_end k)"
    and "length (idt s) = 256"
  shows "\<exists>s'. kernel_main im k lay MULTIBOOT2_BOOTLOADER_MAGIC mbi (replicate IDT_ITEM_NUM None) s
      = Inr (idt_handlers :: 'h isr option list, Sched_top, s')
    \<and> sched_inv Sched_top s' \<and> if_on s' \<and> proc_first s' = Some 0
    \<and> (\<forall>i < MAX_PROC. state (ptable s' ! i) = (if i = 0 then RUNNABLE else UNUSED)) \<and> kstack (ptable s' ! 0) = 0x8DFFF000
    \<and> cr3 s' = V2P (kpgdir s') \<and> kernel_end_addr (mem_info s') = kernel_end k
    \<and> (\<forall>n < 256. gate_target (idt s' ! n) = stubs lay n)
    \<and> (reads_mask (ports s) \<longrightarrow> (\<forall>n < 16. masked (ports s') n \<longleftrightarrow> n \<notin> {1, 14}))
    \<and> (\<forall>i. konts s' i = Fork_ret) \<and> (\<exists>P y. user_space (kernel_data_start k) P s' (pgdir (ptable s' ! 0)) y \<and> above_kernel k P)"
proof -
  obtain mi d1 where 1: "boot_console k MULTIBOOT2_BOOTLOADER_MAGIC mbi s = Inr (s\<lparr>ram := boot_screen (ram s), mem_info := mi, ports := d1\<rparr>)"
    "dev d1 = dev (ports s)" "kernel_end_addr mi = kernel_end k" "kdata_start_addr mi = kernel_data_start k"
    using console_step [OF assms(1,5,7,6), of k] by blast
  let ?s1 = "s\<lparr>ram := boot_screen (ram s), mem_info := mi, ports := d1\<rparr>"
  have b1: "booted ?s1" by (rule booted_fields [OF assms(1)]) (simp_all add: 1(2))
  obtain s2 xs where 2: "boot_memory lay ?s1 = Inr s2" "booted s2" "dev (ports s2) = dev d1" "free_pages s2 (0x8DFFF000 # xs)"
    "67 \<le> length xs" "pool_above (kernel_end k) (0x8DFFF000 # xs)" "k_maps s2 = kernel_maps (kernel_data_start k)"
    "cr3 s2 = V2P (kpgdir s2)" "idt s2 = idt s" "mem_info s2 = mi"
    using memory_step [OF b1 _ assms(4), of lay] assms(3) 1(3,4) by auto
  have rdy: "drive_ready (ports s2)" using assms(2) 1(2) 2(3) by (simp add: drive_ready_def)
  obtain s3 where 3: "boot_devices lay (replicate IDT_ITEM_NUM None) s2 = Inr (idt_handlers :: 'h isr option list, s3)" "booted s3"
    "dev (ports s3) = dev (ports s2)" "freelist s3 = freelist s2" "\<forall>a. \<not> video a \<longrightarrow> ram s3 a = ram s2 a" "k_maps s3 = k_maps s2"
    "kpgdir s3 = kpgdir s2" "cr3 s3 = cr3 s2" "mem_info s3 = mem_info s2" "idt s3 = idt_set (stubs lay) (idt s2)"
    "reads_mask (ports s2) \<longrightarrow> (\<forall>n < 16. masked (ports s3) n \<longleftrightarrow> n \<notin> {1, 14})"
    using devices_step [OF 2(2) rdy refl, of lay] by blast
  have kf: "kdata_ok (kernel_data_start k)" "0x80100000 \<le> unat (kernel_end k)" using assms(4) by (simp_all add: kernel_fits_def)
  have fp: "free_pages s3 (0x8DFFF000 # xs)" using 3(4,5) by (intro pool_keeps_drawing [OF 2(4,6) kf(2)]) auto
  have code: "code_outside im (insert 0x8DFFF000 (set xs))"
    using code_below_pool [OF assms(8-10) 2(6)] by simp
  obtain s4 where 4: "init_user im s3 = Inr s4" "can_launch s4" "proc_first s4 = Some 0" "state (ptable s4 ! 0) = RUNNABLE" "kstack (ptable s4 ! 0) = 0x8DFFF000"
    "same_cpu s3 s4" "\<forall>j. j \<noteq> 0 \<longrightarrow> ptable s4 ! j = ptable s3 ! j" "konts s4 = konts s3"
    "\<exists>y. user_space (kernel_data_start k) (set xs) s4 (pgdir (ptable s4 ! 0)) y"
    using init_user_can_launch [OF 3(2) fp 2(5) kf(1) _ code] 3(6) 2(7) by auto
  have more: "mem_info s4 = mem_info s3" "idt s4 = idt s3" using 4(6) by (cases s3; cases s4; simp add: same_cpu_def)+
  define s5 where "s5 = snd (launch_first_proc (sti s4))"
  have l: "launch_first_proc (sti s4) = (Sched_top, s5)" by (simp add: s5_def launch_first_proc_def)
  have s5: "if_on s5" "proc_first s5 = Some 0" "ptable s5 = ptable s4" "cr3 s5 = cr3 s4" "kpgdir s5 = kpgdir s4" "mem_info s5 = mem_info s4"
    "idt s5 = idt s4" "ports s5 = ports s4" "ram s5 = ram s4" "freelist s5 = freelist s4" "konts s5 = konts s4"
    using 4(3) if_on_launch [of s4] by (simp_all add: s5_def launch_first_proc_def set_cpu0_def)
  have "kernel_main im k lay MULTIBOOT2_BOOTLOADER_MAGIC mbi (replicate IDT_ITEM_NUM None) s = Inr (idt_handlers :: 'h isr option list, Sched_top, s5)"
    using 1(1) 2(1) 3(1) 4(1) l by (simp add: kernel_main_def)
  moreover have "can_launch (sti s4)" using 4(2) by (rule sti_can_launch)
  then have "sched_inv Sched_top s5" using launch_inv [of "sti s4"] l by simp
  moreover have "\<forall>i < MAX_PROC. state (ptable s5 ! i) = (if i = 0 then RUNNABLE else UNUSED)"
    using 4(4,7) 3(2) s5(3) by (auto simp: booted_def)
  moreover have "\<forall>n < 256. gate_target (idt s5 ! n) = stubs lay n"
    using idt_set_gates [OF assms(11)] s5(7) more(2) 3(10) 2(9) by (simp add: gate_is_def)
  moreover have "reads_mask (ports s) \<longrightarrow> (\<forall>n < 16. masked (ports s5) n \<longleftrightarrow> n \<notin> {1, 14})"
    using 3(11) reads_mask_dev [of "ports s2" "ports s"] 2(3) 1(2) 4(6) s5(8) by (simp add: same_cpu_def)
  moreover have "\<forall>i. konts s5 i = Fork_ret" using 3(2) 4(8) s5(11) by (simp add: booted_def)
  moreover have "above_kernel k (set xs)"
    using 2(4,6) free_pages_frames [OF 2(4)] frames.pool_distinct [OF 2(4)] by (auto simp: above_kernel_def pool_above_def)
  then have "\<exists>P y. user_space (kernel_data_start k) P s5 (pgdir (ptable s5 ! 0)) y \<and> above_kernel k P"
    using 4(9) user_space_cong [of "kernel_data_start k" "set xs" s4 "pgdir (ptable s4 ! 0)" _ s5] s5(3,9,10) by auto
  ultimately show ?thesis
    using s5 4 3(7-9) 2(8,10) 1(3) more by (intro exI [of _ s5]) (simp add: same_cpu_def)
qed

subsection \<open>Properties\<close>

text \<open>C4: the kernel boots: on a machine with a serial line and a drive that answer, memory not yet
  handed out, boot information that ends and a kernel image that leaves 66 pages below the first four megabytes,
  kernel_main comes back from every initialisation: it enters the scheduler with its invariant, with the handlers and
  the gates of every vector in place, on the kernel page directory, with exactly one process, RUNNABLE, in the
  table, whose kernel stack is the last page of memory, and with interrupts on.\<close>

theorem kernel_boots:
  fixes s :: "'a boot_scheme"
  assumes "booted s" "drive_ready (ports s)" "freelist s = 0" "kernel_fits k"
    and "tags_at (boot_screen (ram s)) (mbi + 8) tgs" "length (memory_map (mem_info s)) = 32"
      "\<forall>t \<in> set tgs. load32 (boot_screen (ram s)) t = MULTIBOOT_TAG_TYPE_MMAP \<longrightarrow> mmap_ok (boot_screen (ram s)) t"
    and "user_init_code im \<noteq> 0" "user_init_code_size im \<le> PGSIZE"
      "unat (user_init_code im) + unat (user_init_code_size im) \<le> unat (kernel_end k)"
    and "length (idt s) = 256"
  shows "\<exists>s'. kernel_main im k lay MULTIBOOT2_BOOTLOADER_MAGIC mbi (replicate IDT_ITEM_NUM None) s
      = Inr (idt_handlers :: 'h isr option list, Sched_top, s')
    \<and> sched_inv Sched_top s' \<and> if_on s' \<and> proc_first s' = Some 0
    \<and> (\<forall>i < MAX_PROC. state (ptable s' ! i) = (if i = 0 then RUNNABLE else UNUSED)) \<and> kstack (ptable s' ! 0) = 0x8DFFF000
    \<and> cr3 s' = V2P (kpgdir s') \<and> kernel_end_addr (mem_info s') = kernel_end k
    \<and> (\<forall>n < 256. gate_target (idt s' ! n) = stubs lay n)
    \<and> (reads_mask (ports s) \<longrightarrow> (\<forall>n < 16. masked (ports s') n \<longleftrightarrow> n \<notin> {1, 14}))"
  using kernel_main_boots [OF assms] by blast

subsection \<open>A machine that boots\<close>

definition example_machine :: boot where
  "example_machine = disk.extend (traps.extend (with_traps (example_boot\<lparr>ram := example_boot_area, freelist := 0, ports := answering\<rparr>)) (disk.fields 0 0))
     (boot.fields zero_mem_info \<lparr>limit = 0, base = 0\<rparr> (replicate 256 \<lparr>base_low = 0, selector = 0, zero = 0, flags = 0, base_high = 0\<rparr>)
       \<lparr>gp_limit = 0, gp_base = 0\<rparr>)"

lemma example_machine_simps [simp]:
  "ram example_machine = example_boot_area" "freelist example_machine = 0" "ports example_machine = answering"
  "eflags example_machine = 0x202" "cpus example_machine = cpus idle_machine" "cpu_id example_machine = 0"
  "locks example_machine = locks idle_machine" "ptable example_machine = replicate MAX_PROC empty_proc"
  "konts example_machine = (\<lambda>_. Fork_ret)" "mem_info example_machine = zero_mem_info" "length (idt example_machine) = 256"
  by (simp_all add: example_machine_def with_traps_def example_boot_def sys.defs traps.defs disk.defs boot.defs)

definition example_sections :: sections where
  "example_sections = \<lparr>kernel_start = 0x80100000, kernel_text_start = 0x80100000, kernel_text_end = 0x8010C000,
     kernel_rodata_start = 0x8010C000, kernel_rodata_end = 0x80110000, kernel_data_start = 0x80110000, kernel_data_end = 0x80112000,
     kernel_bss_start = 0x80112000, kernel_bss_end = 0x80120000, kernel_end = 0x80120000\<rparr>"

lemma example_machine_tags: "tags_at (boot_screen (ram example_machine)) (0x9000 + 8) [0x9008, 0x9018]"
    "\<forall>t \<in> set [0x9008, 0x9018]. load32 (boot_screen (ram example_machine)) t = MULTIBOOT_TAG_TYPE_MMAP
      \<longrightarrow> mmap_ok (boot_screen (ram example_machine)) t"
proof -
  have [simp]: "load32 (boot_screen example_boot_area) a = load32 example_boot_area a" if "unat a < 0xB7000" for a
  proof (rule load32_cong)
    fix b assume "in_block a 4 b"
    then have "unat b < 0xB8000" using that unat_lt_u32 [of b] by (auto simp: in_block_def unat_sub_if_size word_size split: if_splits)
    then have "\<not> video b" by (auto simp: video_def in_block_def unat_sub_if_size word_size)
    then show "boot_screen example_boot_area b = example_boot_area b" by (rule boot_screen_frame)
  qed
  show "tags_at (boot_screen (ram example_machine)) (0x9000 + 8) [0x9008, 0x9018]"
    by (simp add: next_tag_def example_boot_words tag_types)
  show "\<forall>t \<in> set [0x9008, 0x9018]. load32 (boot_screen (ram example_machine)) t = MULTIBOOT_TAG_TYPE_MMAP
      \<longrightarrow> mmap_ok (boot_screen (ram example_machine)) t"
    by (simp add: mmap_ok_def entry_count_def example_boot_words tag_types)
qed

lemma example_boots:
  "booted example_machine" "drive_ready (ports example_machine)" "freelist example_machine = 0" "kernel_fits example_sections"
  "length (memory_map (mem_info example_machine)) = 32" "user_init_code example_image \<noteq> 0" "user_init_code_size example_image \<le> PGSIZE"
  "unat (user_init_code example_image) + unat (user_init_code_size example_image) \<le> unat (kernel_end example_sections)"
  "length (idt example_machine) = 256"
proof -
  have l: "lock_state example_machine [] True"
    by (simp add: lock_state_def idle_machine_def if_on_def FL_IF_def c_cpu_def)
  show "booted example_machine" unfolding booted_def
    by (intro conjI exI [of _ True] l) (simp_all add: empty_proc_def answering_ready)
qed (simp_all add: answering_ready kernel_fits_def example_sections_def kdata_ok_def aligned_def mmu_consts P2V_def zero_mem_info_def
  example_image_def PGSIZE_def)

theorem kernel_boots_witness:
  "\<exists>s'. kernel_main example_image example_sections \<lparr>stubs = (\<lambda>n. 0x80101000 + of_nat n * 16), idt_addr = 0x80113000, gdt_addr = 0x80114000\<rparr>
      MULTIBOOT2_BOOTLOADER_MAGIC 0x9000 (replicate IDT_ITEM_NUM None) example_machine = Inr (idt_handlers :: unit isr option list, Sched_top, s')
    \<and> sched_inv Sched_top s' \<and> state (ptable s' ! 0) = RUNNABLE"
proof -
  let ?lay = "\<lparr>stubs = (\<lambda>n. 0x80101000 + of_nat n * 16), idt_addr = 0x80113000, gdt_addr = 0x80114000\<rparr>"
  obtain s' where "kernel_main example_image example_sections ?lay MULTIBOOT2_BOOTLOADER_MAGIC 0x9000
      (replicate IDT_ITEM_NUM None) example_machine = Inr (idt_handlers :: unit isr option list, Sched_top, s')"
    "sched_inv Sched_top s'" "\<forall>i < MAX_PROC. state (ptable s' ! i) = (if i = 0 then RUNNABLE else UNUSED)"
    using kernel_boots [OF example_boots(1-4) example_machine_tags(1) example_boots(5) example_machine_tags(2) example_boots(6-9), where 'h = unit, of ?lay] by auto
  then show ?thesis by (intro exI [of _ s']) (simp add: MAX_PROC_def)
qed

end
