(* ===== verification/Start.thy ===== *)
theory Start
  imports Boot
begin

section \<open>From the loader to the kernel\<close>

text \<open>
  \<^verbatim>\<open>boot/kernel_entry.asm\<close>: the loader jumps to \<^verbatim>\<open>_start\<close> with paging off, its magic number in \<^verbatim>\<open>eax\<close> and the
  address of its tags in \<^verbatim>\<open>ebx\<close>. \<^verbatim>\<open>_start\<close> turns paging on with \<^verbatim>\<open>entrypgdir\<close>, a directory of two 4 MB pages, sets
  the stack and jumps to \<^verbatim>\<open>kernel_main\<close> with both as arguments. Until \<^verbatim>\<open>init_kvm\<close> loads tables of its own the kernel
  lives on this directory, so all memory it uses must lie in the first 4 MB.
\<close>

record controls =
  c_cr0 :: u32
  c_cr3 :: u32
  c_cr4 :: u32

definition entrypgdir :: "u32 list" where
  "entrypgdir = [0x00000083] @ replicate 511 0 @ [0x00000083] @ replicate 511 0"

text \<open>\<open>dir\<close>, \<open>stk\<close> and \<open>main\<close> are the addresses the linker gave \<^verbatim>\<open>entrypgdir\<close>, \<^verbatim>\<open>boot_stack_top\<close> and
  \<^verbatim>\<open>kernel_main\<close>.\<close>

definition start :: "u32 \<Rightarrow> u32 \<Rightarrow> u32 \<Rightarrow> core \<times> controls \<Rightarrow> core \<times> controls" where
  "start dir stk main s =
     (let ((m, r), c) = s;
          r1 = r\<lparr>r_esi := r_eax r\<rparr>;
          r2 = r1\<lparr>r_edi := r_ebx r1\<rparr>;
          r3 = r2\<lparr>r_eax := c_cr4 c OR 0x00000010\<rparr>;
          c1 = c\<lparr>c_cr4 := r_eax r3\<rparr>;
          r4 = r3\<lparr>r_eax := dir - KERNBASE\<rparr>;
          c2 = c1\<lparr>c_cr3 := r_eax r4\<rparr>;
          r5 = r4\<lparr>r_eax := c_cr0 c2 OR 0x80010000\<rparr>;
          c3 = c2\<lparr>c_cr0 := r_eax r5\<rparr>;
          r6 = r5\<lparr>r_esp := stk\<rparr>;
          (m', r7) = push 0 (push (r_esi r6) (push (r_edi r6) (m, r6)));
          r8 = r7\<lparr>r_ecx := main\<rparr>
      in ((m', r8\<lparr>r_eip := r_ecx r8\<rparr>), c3))"

text \<open>The processor's walk of a directory of 4 MB pages: bit 7 of an entry is its size bit; an entry without it would lead to a table.\<close>

definition walk_4m :: "u32 list \<Rightarrow> u32 \<Rightarrow> u32 option" where
  "walk_4m dir va = (let e = dir ! unat (PDX va)
     in if e AND PTE_P = 0 \<or> e AND 0x80 = 0 then None else Some ((e AND 0xFFC00000) OR (va AND 0x3FFFFF)))"

subsection \<open>What the first directory maps\<close>

lemma entrypgdir_entry:
  "i < 1024 \<Longrightarrow> entrypgdir ! i = (if i = 0 \<or> i = 512 then 0x83 else 0)"
  by (auto simp: entrypgdir_def nth_append nth_Cons')

lemma low_22: "(va :: u32) AND 0x3FFFFF = va - of_nat (unat va div 4194304 * 4194304)"
proof -
  have "(0x3FFFFF :: u32) = mask 22" by (simp add: mask_eq_exp_minus_1)
  then have "va AND 0x3FFFFF = take_bit 22 va" by (simp only: take_bit_eq_mask)
  also have "unat (take_bit 22 va) = take_bit 22 (unat va)" by (rule unsigned_take_bit_eq)
  also have "take_bit 22 (unat va) = unat va mod 4194304" by (simp add: take_bit_eq_mod)
  finally have "unat (va AND 0x3FFFFF) = unat va mod 4194304" .
  moreover have "unat va mod 4194304 = unat va - unat va div 4194304 * 4194304" by (simp add: minus_div_mult_eq_mod)
  moreover have "unat (of_nat (unat va div 4194304 * 4194304) :: u32) = unat va div 4194304 * 4194304"
    using unat_lt_u32 [of va] by (intro unat_of_nat_u32) (meson div_times_less_eq_dividend le_less_trans)
  moreover have "unat va div 4194304 * 4194304 \<le> unat va" by simp
  ultimately show ?thesis by (simp add: word_unat_eq_iff unat_sub_if_size)
qed

lemma walk_entry:
  "walk_4m entrypgdir va = (if va < 0x400000 then Some va else if KERNBASE \<le> va \<and> va < 0x80400000 then Some (V2P va) else None)"
proof -
  have i: "unat (PDX va) < 1024" using unat_lt_u32 [of va] by (simp add: unat_PDX less_mult_imp_div_less)
  have d: "unat (PDX va) = unat va div 4194304" by (rule unat_PDX)
  have lo: "va < 0x400000 \<longleftrightarrow> unat va div 4194304 = 0" by (simp add: word_less_nat_alt div_eq_0_iff)
  have hi: "KERNBASE \<le> va \<and> va < 0x80400000 \<longleftrightarrow> unat va div 4194304 = 512"
    by (auto simp: word_less_nat_alt word_le_nat_alt KERNBASE_def)
  show ?thesis
  proof (cases "unat va div 4194304 = 0 \<or> unat va div 4194304 = 512")
    case True
    then have w: "walk_4m entrypgdir va = Some (va AND 0x3FFFFF)"
      using entrypgdir_entry [OF i] d by (simp add: walk_4m_def Let_def PTE_P_def)
    show ?thesis using True w low_22 [of va] lo hi by (auto simp: V2P_def KERNBASE_def)
  next
    case False
    then have "walk_4m entrypgdir va = None" using entrypgdir_entry [OF i] d by (simp add: walk_4m_def Let_def)
    then show ?thesis using False lo hi by auto
  qed
qed

subsection \<open>Properties\<close>

text \<open>C14: the kernel starts on firm ground: \<^verbatim>\<open>_start\<close> enters \<^verbatim>\<open>kernel_main\<close> with the loader's magic number and tag
  address as its arguments, on the boot stack, writing nothing but their 12 bytes, with paging, write protection and 4 MB pages
  on and the first directory loaded; that directory maps the first 4 MB at address 0 and at the kernel's base and nothing else; and every
  page the allocator gets before the kernel has tables of its own, 65 at least, is mapped, to the physical address that V2P computes.\<close>

theorem start_enters_kernel_main:
  fixes s :: "'a boot_scheme"
  assumes "start dir stk main ((m, r), c) = ((m', r'), c')" "aligned 2 stk" "kernel_fits k" "freelist s = 0"
  shows "r_eip r' = main \<and> load32 m' (r_esp r' + 4) = r_eax r \<and> load32 m' (r_esp r' + 8) = r_ebx r
    \<and> r_esp r' = stk - 12 \<and> (\<forall>a. \<not> in_block (stk - 12) 12 a \<longrightarrow> m' a = m a)
    \<and> c_cr3 c' = V2P dir \<and> c_cr0 c' AND 0x80010000 = 0x80010000 \<and> c_cr4 c' AND 0x10 = 0x10
    \<and> walk_4m entrypgdir va = (if va < 0x400000 then Some va else if KERNBASE \<le> va \<and> va < 0x80400000 then Some (V2P va) else None)
    \<and> (\<exists>s' ps. init_physical_memory (kernel_end k) (P2V (4 * 1024 * 1024)) s = Some s' \<and> free_pages s' ps \<and> 65 \<le> length ps
        \<and> (\<forall>p \<in> set ps. \<forall>a. in_block p 4096 a \<longrightarrow> walk_4m entrypgdir a = Some (V2P a)))"
proof -
  have al: "aligned 2 (stk - 4)" "aligned 2 (stk - 8)" "aligned 2 (stk - 12)" using assms(2) by (simp_all add: aligned_minus_word)
  have m': "m' = store32 (store32 (store32 m (stk - 4) (r_ebx r)) (stk - 8) (r_eax r)) (stk - 12) 0"
    and r': "r_esp r' = stk - 12" "r_eip r' = main"
    and c': "c_cr3 c' = dir - KERNBASE" "c_cr0 c' = c_cr0 c OR 0x80010000" "c_cr4 c' = c_cr4 c OR 0x10"
    using assms(1) by (auto simp: start_def Let_def push_pair diff_diff_eq)
  have args: "load32 m' (stk - 8) = r_eax r" "load32 m' (stk - 4) = r_ebx r" using al by (simp_all add: m')
  have fr: "m' a = m a" if a: "\<not> in_block (stk - 12) 12 a" for a
  proof -
    have "\<not> in_block (stk - 12) 4 a" "\<not> in_block (stk - 8) 4 a" "\<not> in_block (stk - 4) 4 a"
      using a in_block_inside [of "stk - 12" 0 4 a 12] in_block_inside [of "stk - 12" 4 4 a 12] in_block_inside [of "stk - 12" 8 4 a 12]
      by auto
    then show ?thesis by (simp add: m' store32_frame)
  qed
  have "0x80100000 \<le> unat (kernel_end k)" "unat (kernel_end k) + 66 * 4096 \<le> 0x80400000" using assms(3) by (simp_all add: kernel_fits_def)
  from early_pool [OF assms(4) this]
  obtain s' ps where ps: "init_physical_memory (kernel_end k) 0x80400000 s = Some s'" "free_pages s' ps" "65 \<le> length ps"
    "\<forall>x \<in> set ps. unat (kernel_end k) \<le> unat x \<and> unat x + 4096 \<le> 0x80400000" by blast
  have "walk_4m entrypgdir a = Some (V2P a)" if p: "p \<in> set ps" "in_block p 4096 a" for p a
  proof -
    have "unat p \<le> unat a" "unat a < unat p + 4096" using in_block_bounds [OF p(2)] ps(4) p(1) by auto
    then have "\<not> a < 0x400000" "KERNBASE \<le> a" "a < 0x80400000"
      using ps(4) p(1) assms(3) by (auto simp: word_less_nat_alt word_le_nat_alt KERNBASE_def kernel_fits_def)
    then show ?thesis by (simp add: walk_entry)
  qed
  moreover have "init_physical_memory (kernel_end k) (P2V (4 * 1024 * 1024)) s = Some s'" using ps(1) by (simp add: P2V_ends)
  moreover have "(x OR y) AND y = y" for x y :: u32 by (rule bit_word_eqI) (auto simp: bit_simps)
  ultimately show ?thesis using m' r' c' args fr walk_entry [of va] ps(2,3) by (auto simp: V2P_def frame_steps)
qed

theorem start_enters_kernel_main_witness:
  "\<exists>m' r' c'. start 0x80111000 0x8011C000 0x80103000 ((\<lambda>_. 0, \<lparr>r_eax = MULTIBOOT2_BOOTLOADER_MAGIC, r_ebx = 0x9000, r_ecx = 0, r_edx = 0, r_esi = 0,
      r_edi = 0, r_ebp = 0, r_esp = 0x7FF00, r_eip = 0x100030, r_flags = 2, r_cs = 8, r_ds = 16, r_es = 16, r_fs = 16, r_gs = 16, r_ss = 16\<rparr>),
      \<lparr>c_cr0 = 0x11, c_cr3 = 0, c_cr4 = 0\<rparr>) = ((m', r'), c')
    \<and> load32 m' 0x8011BFF8 = MULTIBOOT2_BOOTLOADER_MAGIC \<and> load32 m' 0x8011BFFC = 0x9000 \<and> c_cr3 c' = 0x111000"
proof -
  let ?r = "\<lparr>r_eax = MULTIBOOT2_BOOTLOADER_MAGIC, r_ebx = 0x9000, r_ecx = 0, r_edx = 0, r_esi = 0,
      r_edi = 0, r_ebp = 0, r_esp = 0x7FF00, r_eip = 0x100030, r_flags = 2, r_cs = 8, r_ds = 16, r_es = 16, r_fs = 16, r_gs = 16, r_ss = 16\<rparr> :: regs"
  let ?c = "\<lparr>c_cr0 = 0x11, c_cr3 = 0, c_cr4 = 0\<rparr>"
  obtain m' r' c' where e: "start 0x80111000 0x8011C000 0x80103000 ((\<lambda>_. 0, ?r), ?c) = ((m', r'), c')" by (metis surj_pair)
  have al: "aligned 2 (0x8011C000 :: u32)" by (simp add: aligned_def)
  have "load32 m' 0x8011BFF8 = MULTIBOOT2_BOOTLOADER_MAGIC \<and> load32 m' 0x8011BFFC = 0x9000 \<and> c_cr3 c' = 0x111000"
    using start_enters_kernel_main [OF e al example_boots(4,3), of 0] by (elim conjE) (simp add: V2P_def KERNBASE_def)
  then show ?thesis using e by blast
qed

end
