(* ===== verification/Machine.thy ===== *)
theory Machine
  imports Boot
begin

section \<open>The running kernel\<close>

text \<open>
  The parts put together: from the moment \<^verbatim>\<open>kernel_main\<close> enters the scheduler the machine takes steps of six
  kinds. The kernel's threads go on (theory Sched), and use the stack they run on; a process computes in user mode and stores where
  the processor lets it; a device interrupts, where interrupts are on; an instruction raises an exception; a process makes a
  system call. The state does not say whether a process is in user mode: any that holds no lock and has interrupts on may be,
  which only adds steps. The last three enter through the gate and the stub of their
  vector, which turn interrupts off and leave a trap frame on a stack, run \<^verbatim>\<open>isr_handler\<close> and, when it comes back on
  the thread that was interrupted, leave through \<^verbatim>\<open>iret\<close>, which restores the flags.
\<close>

datatype event = Own | Locals | User | Irq nat | Exception nat | Syscall u32

text \<open>A process uses the page \<^verbatim>\<open>config_proc_kstack\<close> gave it in the kernel; the scheduler runs on the stack
  of \<^verbatim>\<open>boot/kernel_entry.asm\<close>, 16384 bytes from \<^verbatim>\<open>boot_stack\<close>. The compiled code may store anything there.\<close>

definition on_stack :: "image \<Rightarrow> thread \<Rightarrow> 'a sys_scheme \<Rightarrow> u32 \<Rightarrow> bool" where
  "on_stack im th s a \<longleftrightarrow> (case th of Run i \<Rightarrow> in_block (kstack (ptable s ! i)) (unat KSTACK_SIZE) a
     | _ \<Rightarrow> in_block (boot_stack im) 16384 a)"

text \<open>A store in user mode goes through the loaded tables: both entries must be present, writable and open to the user,
  and it lands in the frame the second one names. That the processor marks entries as accessed and dirty is left out.\<close>

definition user_writable :: "mem \<Rightarrow> u32 \<Rightarrow> u32 \<Rightarrow> bool" where
  "user_writable m pg va \<longleftrightarrow> load32 m (pg + 4 * PDX va) AND (PTE_P OR PTE_W OR PTE_U) = PTE_P OR PTE_W OR PTE_U
     \<and> lookup m pg va AND (PTE_P OR PTE_W OR PTE_U) = PTE_P OR PTE_W OR PTE_U"

definition frame_address :: "mem \<Rightarrow> u32 \<Rightarrow> u32 \<Rightarrow> u32" where
  "frame_address m pg va = P2V (PTE_ADDR (lookup m pg va) + (va AND 0xFFF))"

definition user_stores :: "mem \<Rightarrow> u32 \<Rightarrow> mem \<Rightarrow> bool" where
  "user_stores m0 pg m \<longleftrightarrow> (\<forall>a. m a \<noteq> m0 a \<longrightarrow> (\<exists>va. user_writable m0 pg va \<and> a = frame_address m0 pg va))"

text \<open>The stub of vector \<open>n\<close> left a frame on the stack of \<open>th\<close>: memory \<open>m\<close> is that of \<open>s\<close> but for the stack.\<close>

definition takes :: "image \<Rightarrow> nat \<Rightarrow> thread \<Rightarrow> 'a sys_scheme \<Rightarrow> u32 \<Rightarrow> mem \<Rightarrow> bool" where
  "takes im n th s frame m \<longleftrightarrow> aligned 2 frame \<and> load32 m (frame + tf_int_no) = of_nat n
     \<and> (\<forall>a. in_block frame (unat sizeof_trap_frame) a \<longrightarrow> on_stack im th s a)
     \<and> (\<forall>a. \<not> on_stack im th s a \<longrightarrow> m a = ram s a)"

text \<open>For these exceptions the processor has pushed an error code of its own below the one of the stub, so \<^verbatim>\<open>iret\<close> takes
  the wrong words off the stack.\<close>

definition error_code_vectors :: "nat set" where
  "error_code_vectors = {8, 10, 11, 12, 13, 14, 17, 21, 30}"

definition trapped :: "'a isr option list \<Rightarrow> nat \<Rightarrow> thread \<Rightarrow> u32 \<Rightarrow> mem \<Rightarrow> 'a traps_scheme \<Rightarrow> (thread \<times> 'a traps_scheme) res" where
  "trapped hs n th frame m s = bindR (isr_handler hs th frame ((cli s)\<lparr>ram := m\<rparr>)) (\<lambda>(th', s').
     if th' \<noteq> th then Inr (th', s')
     else if n \<in> error_code_vectors then Inl (Undef ''iret frame'')
     else Inr (th, s'\<lparr>eflags := eflags s\<rparr>))"

inductive mstep :: "image \<Rightarrow> 'a isr option list \<Rightarrow> event \<Rightarrow> thread \<times> 'a traps_scheme \<Rightarrow> (thread \<times> 'a traps_scheme) res \<Rightarrow> bool"
  for im :: image and hs :: "'a isr option list" where
  Own: "kstep im c r \<Longrightarrow> mstep im hs Own c r"
| Locals: "(\<And>a. \<not> on_stack im th s a \<Longrightarrow> m a = ram s a) \<Longrightarrow> mstep im hs Locals (th, s) (Inr (th, s\<lparr>ram := m\<rparr>))"
| User: "held s = {} \<Longrightarrow> if_on s \<Longrightarrow> user_stores (ram s) (P2V (cr3 s)) m \<Longrightarrow> mstep im hs User (Run i, s) (Inr (Run i, s\<lparr>ram := m\<rparr>))"
| Irq: "32 \<le> n \<Longrightarrow> n < 48 \<Longrightarrow> if_on s \<Longrightarrow> takes im n th s frame m \<Longrightarrow> mstep im hs (Irq n) (th, s) (trapped hs n th frame m s)"
| Exception: "n < 32 \<Longrightarrow> takes im n th s frame m \<Longrightarrow> mstep im hs (Exception n) (th, s) (trapped hs n th frame m s)"
| Syscall: "held s = {} \<Longrightarrow> if_on s \<Longrightarrow> takes im 128 (Run i) s frame m \<Longrightarrow>
    mstep im hs (Syscall (load32 m (frame + tf_eax))) (Run i, s) (trapped hs 128 (Run i) frame m s)"

inductive_cases mstep_elims: "mstep im hs e c r"

inductive msteps :: "image \<Rightarrow> 'a isr option list \<Rightarrow> thread \<times> 'a traps_scheme \<Rightarrow> event list \<Rightarrow> thread \<times> 'a traps_scheme \<Rightarrow> bool"
  for im :: image and hs :: "'a isr option list" where
  Nil: "msteps im hs c [] c"
| Snoc: "msteps im hs c es c' \<Longrightarrow> mstep im hs e c' (Inr c'') \<Longrightarrow> msteps im hs c (es @ [e]) c''"

text \<open>The frame that \<open>trap_enter\<close> leaves when it comes from user mode is such a frame, when the task segment names
  the top of the stack of the process.\<close>

lemma top_of_page: "in_block (p + 4096 - 76) 76 a \<Longrightarrow> in_block p 4096 a"
  using in_block_inside [of p 4020 76 a 4096] by (simp add: algebra_simps)

lemma user_trap_takes:
  assumes "user_mode r" "aligned 12 (kstack (ptable s ! i))" "esp0 t = kstack (ptable s ! i) + KSTACK_SIZE"
    and "c = trap_enter t n (ram s, r)"
  shows "takes im n (Run i) s (r_esp (snd c)) (fst c)"
proof -
  have al: "aligned 2 (esp0 t)" unfolding assms(3) KSTACK_SIZE_def
    by (rule aligned_add [OF aligned_mono [OF assms(2)]]) (simp_all add: aligned_def)
  have top: "in_block (esp0 t - 76) 76 a \<Longrightarrow> on_stack im (Run i) s a" for a
    using top_of_page [of "kstack (ptable s ! i)" a] assms(3) by (simp add: on_stack_def KSTACK_SIZE_def)
  show ?thesis
    using trap_frame_cells [OF assms(1) al, of n "ram s", folded assms(4)] al top
      trap_enter_frame [OF assms(1), of t _ n "ram s", folded assms(4)]
    by (auto simp: takes_def frame_offsets frame_steps aligned_minus_word)
qed

subsection \<open>The invariant\<close>

lemma entered_inv:
  assumes "sched_inv (Run i) s" "held s = {}"
  shows "sched_inv (Run i) ((cli s)\<lparr>ram := m\<rparr>)" "lock_state ((cli s)\<lparr>ram := m\<rparr>) [] False"
proof -
  note d = run_invD [OF assms(1)]
  obtain hs b where "lock_state s hs b" using assms(1) by (auto simp: sched_inv_def)
  then have "lock_state s [] b" using held_none assms(2) by metis
  moreover have "cpus (cli s) = cpus s" "cpu_id (cli s) = cpu_id s" "locks (cli s) = locks s" by (simp_all add: cli_def)
  ultimately have "lock_state (cli s) [] False" by (simp add: lock_state_def c_cpu_def)
  then show "lock_state ((cli s)\<lparr>ram := m\<rparr>) [] False" by simp
  then show "sched_inv (Run i) ((cli s)\<lparr>ram := m\<rparr>)" using d by (intro run_invI) simp_all
qed

text \<open>A handler that changed nothing the invariant looks at, and the flags back.\<close>

lemma returned_inv:
  assumes "sched_inv th s" "quiet ((cli s)\<lparr>ram := m\<rparr>) s'"
  shows "sched_inv th (s'\<lparr>eflags := eflags s, ram := m'\<rparr>)"
proof -
  let ?s = "s'\<lparr>eflags := eflags s, ram := m'\<rparr>"
  have q: "ptable s' = ptable s" "cpus s' = cpus s" "cpu_id s' = cpu_id s" "locks s' = locks s" "sched_pos s' = sched_pos s" "uart_ready (ports s')"
    using assms(2) by (simp_all add: quiet_def cli_def)
  have "lock_state ?s hs b = lock_state s hs b" for hs b using q by (intro lock_state_cong) (simp_all add: c_cpu_def)
  then show ?thesis using sched_inv_ok [OF assms(1)] q
    by (intro sched_inv_same [OF assms(1)]) (simp_all add: sys_ok_def running_only_def cur_def c_cpu_def)
qed

subsection \<open>How an event can stop the kernel\<close>

definition undefined_res :: "halt \<Rightarrow> bool" where
  "undefined_res h = (case h of Undef w \<Rightarrow> True | _ \<Rightarrow> False)"

fun stops :: "event \<Rightarrow> halt \<Rightarrow> bool" where
  "stops Own h \<longleftrightarrow> False"
| "stops User h \<longleftrightarrow> False"
| "stops (Irq n) h \<longleftrightarrow> False"
| "stops (Exception n) h \<longleftrightarrow> (n \<in> fatal_vectors \<and> h = Hang) \<or> (n \<in> {11, 14, 17, 21, 30} \<and> undefined_res h)"
| "stops (Syscall k) h \<longleftrightarrow> (k = SYS_EXIT \<and> h = Panic ''sched ptable.lock'') \<or> (k = SYS_WRITE \<and> undefined_res h)"

definition outcome :: "event \<Rightarrow> (thread \<times> 'a traps_scheme) res \<Rightarrow> bool" where
  "outcome e r \<longleftrightarrow> (case r of Inr (th, s) \<Rightarrow> sched_inv th s | Inl h \<Rightarrow> stops e h)"

lemma sys_ok_entered: "sched_inv th s \<Longrightarrow> sys_ok ((cli s)\<lparr>ram := m\<rparr>)"
  using sched_inv_ok [of th s] by simp

text \<open>\<open>handled\<close> is what every trap does when it comes back: the same thread goes on with the flags it had; the handler was
  quiet but for what it stored in the trap frame.\<close>

definition left_by :: "u32 \<Rightarrow> mem \<Rightarrow> 'a traps_scheme \<Rightarrow> 'a traps_scheme \<Rightarrow> bool" where
  "left_by frame m s s' \<longleftrightarrow> (\<exists>s1 m'. quiet ((cli s)\<lparr>ram := m\<rparr>) s1 \<and> s' = s1\<lparr>eflags := eflags s, ram := m'\<rparr>
     \<and> (\<forall>a. \<not> in_block frame (unat sizeof_trap_frame) a \<longrightarrow> m' a = m a))"

definition handled :: "event \<Rightarrow> u32 \<Rightarrow> thread \<Rightarrow> mem \<Rightarrow> 'a traps_scheme \<Rightarrow> (thread \<times> 'a traps_scheme) res \<Rightarrow> bool" where
  "handled e frame th m s r \<longleftrightarrow> (case r of Inl h \<Rightarrow> stops e h | Inr (th', s') \<Rightarrow> th' = th \<and> left_by frame m s s')"

lemma handled_outcome: "handled e frame th m s r \<Longrightarrow> sched_inv th s \<Longrightarrow> outcome e r"
  using returned_inv by (fastforce simp: handled_def outcome_def left_by_def split: sum.splits)

lemma handledD:
  assumes "handled e frame th m s (Inr (th', s'))"
  shows "th' = th" "left_by frame m s s'"
  using assms by (simp_all add: handled_def)

lemma handledI:
  assumes "isr_handler hs th frame ((cli s)\<lparr>ram := m\<rparr>) = Inr (th, s1\<lparr>ram := m'\<rparr>)" "quiet ((cli s)\<lparr>ram := m\<rparr>) s1"
    and "n \<notin> error_code_vectors" "\<And>a. \<not> in_block frame (unat sizeof_trap_frame) a \<Longrightarrow> m' a = m a"
  shows "handled e frame th m s (trapped hs n th frame m s)" "\<exists>s'. trapped hs n th frame m s = Inr (th, s') \<and> left_by frame m s s'"
proof -
  have "trapped hs n th frame m s = Inr (th, s1\<lparr>eflags := eflags s, ram := m'\<rparr>)" using assms(1,3) by (simp add: trapped_def)
  moreover have "left_by frame m s (s1\<lparr>eflags := eflags s, ram := m'\<rparr>)" using assms(2,4) by (auto simp: left_by_def)
  ultimately show "handled e frame th m s (trapped hs n th frame m s)"
    "\<exists>s'. trapped hs n th frame m s = Inr (th, s') \<and> left_by frame m s s'" by (auto simp: handled_def)
qed

text \<open>A handler that stores nothing.\<close>

lemma handled_quiet:
  assumes "isr_handler hs th frame ((cli s)\<lparr>ram := m\<rparr>) = Inr (th, s1)" "quiet ((cli s)\<lparr>ram := m\<rparr>) s1" "n \<notin> error_code_vectors"
  shows "handled e frame th m s (trapped hs n th frame m s)" "\<exists>s'. trapped hs n th frame m s = Inr (th, s') \<and> left_by frame m s s'"
proof -
  have "s1\<lparr>ram := m\<rparr> = s1" using assms(2) by (simp add: quiet_def)
  then have "isr_handler hs th frame ((cli s)\<lparr>ram := m\<rparr>) = Inr (th, s1\<lparr>ram := m\<rparr>)" using assms(1) by simp
  from handledI [OF this assms(2,3)]
  show "handled e frame th m s (trapped hs n th frame m s)"
    "\<exists>s'. trapped hs n th frame m s = Inr (th, s') \<and> left_by frame m s s'" by simp_all
qed

lemma frame_store:
  "\<not> in_block frame (unat sizeof_trap_frame) a \<Longrightarrow> store32 m (frame + tf_eax) v a = m a"
  "\<not> in_block frame (unat sizeof_trap_frame) a \<Longrightarrow> store32 m (frame + tf_eip) v a = m a"
  using in_block_inside [of frame 28 4 a 76] in_block_inside [of frame 56 4 a 76]
  by (auto simp: sizeof_trap_frame_def tf_eax_def tf_eip_def intro!: store32_frame)

lemma irq_handled:
  fixes s :: "'a traps_scheme"
  assumes "sched_inv th s" "32 \<le> n" "n < 48" "takes im n th s frame m"
  shows "handled e frame th m s (trapped idt_handlers n th frame m s)"
    "\<exists>s'. trapped idt_handlers n th frame m s = Inr (th, s') \<and> left_by frame m s s'"
proof -
  obtain s' where s': "isr_handler idt_handlers th frame ((cli s)\<lparr>ram := m\<rparr>) = Inr (th, s')" "quiet ((cli s)\<lparr>ram := m\<rparr>) s'"
    using hardware_step [OF sys_ok_entered [OF assms(1)], of m frame n th] assms(2-4) by (auto simp: takes_def)
  have "n \<notin> error_code_vectors" using assms(2) by (simp add: error_code_vectors_def)
  from handled_quiet [OF s' this]
  show "handled e frame th m s (trapped idt_handlers n th frame m s)"
    "\<exists>s'. trapped idt_handlers n th frame m s = Inr (th, s') \<and> left_by frame m s s'" by blast+
qed

lemma exception_handled:
  fixes s :: "'a traps_scheme"
  assumes "sched_inv th s" "n < 32" "takes im n th s frame m"
  shows "handled (Exception n) frame th m s (trapped idt_handlers n th frame m s)"
proof -
  let ?s = "(cli s)\<lparr>ram := m\<rparr>"
  note ok = sys_ok_entered [OF assms(1), of m]
  have t: "load32 (ram ?s) (frame + tf_int_no) = of_nat n" "aligned 2 frame" using assms(3) by (simp_all add: takes_def)
  obtain h :: "'a isr" where h: "(n, h) \<in> set IDT_LIST_EXP" using exp_vector [OF assms(2)] by blast
  have e: "isr_handler idt_handlers th frame ?s = h th frame ?s"
    by (rule isr_handler_at [OF _ t(1)]) (simp add: idt_list_def h)
  from exp_members [OF h] consider "n \<in> fatal_vectors" "halts h" | "n = 14" "h = isr_page_fault_handler"
    | "n = 0" "h = isr_divide_error_handler" | "n \<notin> fatal_vectors \<union> {0, 14}" "returns h" by metis
  then show ?thesis
  proof cases
    case 1
    then show ?thesis using ok by (simp add: handled_def trapped_def e halts_def)
  next
    case 2
    then show ?thesis using page_fault_undefined [OF ok, of th frame] by (auto simp: handled_def trapped_def e undefined_res_def)
  next
    case 3
    obtain s' d where d: "h th frame ?s = Inr (th, s')" "quiet ?s (?s\<lparr>ports := d\<rparr>)"
      "s' = ?s\<lparr>ports := d, ram := store32 (store32 (ram ?s) (frame + tf_eax) 0) (frame + tf_eip) (load32 (ram ?s) (frame + tf_eip) + 2)\<rparr>"
      using divide_error_returns [OF ok t(2), of th] unfolding 3(2) by blast
    have "isr_handler idt_handlers th frame ?s = Inr (th, ?s\<lparr>ports := d\<rparr>\<lparr>ram := store32 (store32 m (frame + tf_eax) 0)
      (frame + tf_eip) (load32 m (frame + tf_eip) + 2)\<rparr>)" using e d(1,3) by simp
    then show ?thesis by (rule handledI(1) [OF _ d(2)]) (use 3(1) in \<open>simp_all add: error_code_vectors_def frame_store\<close>)
  next
    case 4
    then obtain s' where s': "h th frame ?s = Inr (th, s')" "quiet ?s s'" using ok unfolding returns_def by blast
    show ?thesis
    proof (cases "n \<in> error_code_vectors")
      case True
      then have "n \<in> {11, 14, 17, 21, 30}" using 4(1) by (auto simp: error_code_vectors_def fatal_vectors_def)
      moreover have "trapped idt_handlers n th frame m s = Inl (Undef ''iret frame'')" using s'(1) True e by (simp add: trapped_def)
      ultimately show ?thesis by (simp add: handled_def undefined_res_def)
    next
      case False
      then show ?thesis using handled_quiet(1) [OF _ s'(2)] s'(1) e by simp
    qed
  qed
qed

lemma syscall_handled:
  fixes s :: "'a traps_scheme"
  assumes "sched_inv (Run i) s" "held s = {}" "takes im 128 (Run i) s frame m"
  shows "handled (Syscall (load32 m (frame + tf_eax))) frame (Run i) m s (trapped idt_handlers 128 (Run i) frame m s)"
proof -
  let ?s = "(cli s)\<lparr>ram := m\<rparr>" and ?k = "load32 m (frame + tf_eax)"
  note i = entered_inv [OF assms(1,2), of m]
  have "load32 (ram ?s) (frame + tf_int_no) = of_nat 128" using assms(3) by (simp add: takes_def)
  then have "isr_handler idt_handlers (Run i) frame ?s = isr_syscall_handler (Run i) frame ?s"
    by (intro isr_handler_at [of 128]) (simp_all add: idt_list_def IDT_LIST_SYSCALL_def)
  then have e: "isr_handler idt_handlers (Run i) frame ?s = syscall_handlers (Run i) frame ?s" by (simp add: isr_syscall_handler_def)
  have ret: "handled (Syscall ?k) frame (Run i) m s (trapped idt_handlers 128 (Run i) frame m s)"
    if "syscall_handlers (Run i) frame ?s = Inr (Run i, s'\<lparr>ram := store32 (ram s') (frame + tf_eax) r\<rparr>)" "quiet ?s s'" for s' r
  proof -
    have "isr_handler idt_handlers (Run i) frame ?s = Inr (Run i, s'\<lparr>ram := store32 m (frame + tf_eax) r\<rparr>)"
      using that e by (simp add: quiet_def)
    then show ?thesis by (rule handledI(1) [OF _ that(2)]) (simp_all add: error_code_vectors_def frame_store)
  qed
  consider "?k = SYS_EXIT" | "?k = SYS_WRITE" | "?k \<notin> {SYS_EXIT, SYS_WRITE}" by blast
  then show ?thesis
  proof cases
    case 1
    then show ?thesis using exit_call [OF i, of frame] e by (simp add: handled_def trapped_def)
  next
    case 2
    obtain t s1 where s1: "with_ports (serial_printf text_syscall [Word ?k]) ?s = Inr s1" "says ?s t s1"
      using say_step [OF sched_inv_ok [OF i(1)] text_syscall_printed(1)] by blast
    let ?w = "sys_write (sint (load32 m (frame + tf_ebx))) (load32 m (frame + tf_ecx)) (load32 m (frame + tf_edx)) s1"
    have c: "syscall_handlers (Run i) frame ?s = bindR ?w (\<lambda>(ret, s2). Inr (Run i, s2\<lparr>ram := store32 (ram s2) (frame + tf_eax) ret\<rparr>))"
      using s1(1) 2 by (simp add: syscall_handlers_def Let_def syscall_numbers)
    from write_says [OF says_inv [OF s1(2) i(1)], of "sint (load32 m (frame + tf_ebx))" "load32 m (frame + tf_ecx)" "load32 m (frame + tf_edx)"]
    show ?thesis
    proof (elim disjE exE conjE)
      fix w assume "?w = Inl (Undef w)"
      then show ?thesis using c e 2 by (simp add: handled_def trapped_def undefined_res_def)
    next
      fix r v s2 assume "?w = Inr (r, s2)" "says s1 v s2"
      then show ?thesis using c by (intro ret [of s2 r] quiet_trans [OF says_quiet(1) [OF s1(2)] says_quiet(1)]) simp_all
    qed
  next
    case 3
    then obtain s' v where "says ?s v s'" "syscall_handlers (Run i) frame ?s = Inr (Run i, s'\<lparr>ram := store32 (ram s') (frame + tf_eax) (- 1)\<rparr>)"
      using failing_says [OF i(1), of frame] by auto
    then show ?thesis using ret says_quiet(1) by blast
  qed
qed

lemma mstep_outcome:
  assumes "mstep im idt_handlers e (th, s) r" "sched_inv th s"
  shows "outcome e r"
  using assms(1)
proof (cases rule: mstep.cases)
  case Own
  then show ?thesis using kstep_safe [OF assms(2)] by (fastforce simp: outcome_def)
next
  case (Locals m)
  then show ?thesis using store_inv [of th s m] assms(2) by (simp add: outcome_def)
next
  case (User m i)
  then show ?thesis using store_inv [of th s m] assms(2) by (simp add: outcome_def)
next
  case (Irq n frame m)
  then show ?thesis using handled_outcome [OF irq_handled(1) [OF assms(2)] assms(2)] by auto
next
  case (Exception n frame m)
  then show ?thesis using handled_outcome [OF exception_handled [OF assms(2)] assms(2)] by auto
next
  case (Syscall i frame m)
  then show ?thesis using handled_outcome [OF syscall_handled [of i s] _] assms(2) by auto
qed

lemma msteps_inv: "msteps im idt_handlers c es c' \<Longrightarrow> sched_inv (fst c) (snd c) \<Longrightarrow> sched_inv (fst c') (snd c')"
proof (induction rule: msteps.induct)
  case (Snoc c es c' e c'')
  then have "outcome e (Inr c'')" using mstep_outcome [of im e "fst c'" "snd c'"] by simp
  then show ?case by (simp add: outcome_def case_prod_beta)
qed simp

subsection \<open>Properties\<close>

text \<open>C1: the kernel keeps running: from the entry of \<^verbatim>\<open>kernel_main\<close> on, after any sequence of steps of its threads and of user code, device
  interrupts, exceptions and system calls, the invariant of the scheduler holds again, and the next event either leads to
  a state with the invariant or is one of the few that stop the kernel: the eight fatal exceptions, which halt; a
  page fault and four exceptions with an error code of the processor, which are undefined; exit, which panics; and write, which
  is undefined without an open file. No device interrupt and no step of a thread stops it.\<close>

theorem kernel_keeps_running:
  fixes s :: "'a boot_scheme"
  assumes "booted s" "drive_ready (ports s)" "freelist s = 0" "kernel_fits k"
    and "tags_at (boot_screen (ram s)) (mbi + 8) tgs" "length (memory_map (mem_info s)) = 32"
      "\<forall>t \<in> set tgs. load32 (boot_screen (ram s)) t = MULTIBOOT_TAG_TYPE_MMAP \<longrightarrow> mmap_ok (boot_screen (ram s)) t"
    and "user_init_code im \<noteq> 0" "user_init_code_size im \<le> PGSIZE"
      "unat (user_init_code im) + unat (user_init_code_size im) \<le> unat (kernel_end k)"
    and "length (idt s) = 256"
  shows "\<exists>hs th0 s0. kernel_main im k lay MULTIBOOT2_BOOTLOADER_MAGIC mbi (replicate IDT_ITEM_NUM None) s = Inr (hs, th0, s0)
    \<and> (\<forall>es th s1. msteps im hs (th0, s0) es (th, s1) \<longrightarrow> sched_inv th s1 \<and> (\<forall>e r. mstep im hs e (th, s1) r \<longrightarrow> outcome e r))"
proof -
  let ?h = "idt_handlers :: 'a boot_ext disk_ext isr option list"
  obtain s0 where s0: "kernel_main im k lay MULTIBOOT2_BOOTLOADER_MAGIC mbi (replicate IDT_ITEM_NUM None) s = Inr (?h, Sched_top, s0)"
    "sched_inv Sched_top s0"
    using kernel_main_boots [OF assms] by blast
  have "sched_inv th s1" if "msteps im ?h (Sched_top, s0) es (th, s1)" for es th s1
    using msteps_inv [OF that] s0(2) by simp
  then show ?thesis using s0(1) mstep_outcome by blast
qed

text \<open>A frame in otherwise unchanged memory.\<close>

lemma takes_store:
  assumes "aligned 2 frame" "\<And>a. in_block frame (unat sizeof_trap_frame) a \<Longrightarrow> on_stack im th s a"
  shows "takes im n th s frame (store32 (ram s) (frame + tf_int_no) (of_nat n))"
proof -
  have "store32 (ram s) (frame + tf_int_no) (of_nat n) a = ram s a" if "\<not> on_stack im th s a" for a
    using that assms(2) [of a] in_block_inside [of frame 48 4 a 76]
    by (intro store32_frame) (auto simp: sizeof_trap_frame_def tf_int_no_def)
  then show ?thesis using assms by (simp add: takes_def)
qed

lemma example_stack: "in_block 0x8011A000 (unat sizeof_trap_frame) a \<Longrightarrow> on_stack example_image Sched_top s a"
  using in_block_inside [of "0x80118000" 8192 76 a 16384] by (simp add: on_stack_def example_image_def sizeof_trap_frame_def)

lemma example_timer:
  fixes s :: "'a traps_scheme"
  assumes "sched_inv Sched_top s" "if_on s"
  shows "\<exists>s'. mstep example_image idt_handlers (Irq 32) (Sched_top, s) (Inr (Sched_top, s'))"
proof -
  let ?h = "idt_handlers :: 'a isr option list" and ?m = "store32 (ram s) (0x8011A000 + tf_int_no) (of_nat 32)"
  have t: "takes example_image 32 Sched_top s 0x8011A000 ?m" by (rule takes_store) (simp_all add: aligned_def example_stack)
  have m: "mstep example_image ?h (Irq 32) (Sched_top, s) (trapped ?h 32 Sched_top 0x8011A000 ?m s)"
    by (rule mstep.Irq [OF _ _ assms(2) t]) simp_all
  obtain s' where "trapped ?h 32 Sched_top 0x8011A000 ?m s = Inr (Sched_top, s')" using irq_handled(2) [OF assms(1) _ _ t] by auto
  then show ?thesis using m by auto
qed

theorem kernel_keeps_running_witness:
  "\<exists>hs th0 s0 s1. kernel_main example_image example_sections \<lparr>stubs = (\<lambda>n. 0x80101000 + of_nat n * 16), idt_addr = 0x80113000, gdt_addr = 0x80114000\<rparr>
      MULTIBOOT2_BOOTLOADER_MAGIC 0x9000 (replicate IDT_ITEM_NUM None) example_machine = Inr (hs, th0, s0)
    \<and> mstep example_image hs (Irq 32) (th0, s0) (Inr (th0, s1)) \<and> sched_inv th0 s1"
proof -
  let ?lay = "\<lparr>stubs = (\<lambda>n. 0x80101000 + of_nat n * 16), idt_addr = 0x80113000, gdt_addr = 0x80114000\<rparr>"
  let ?h = "idt_handlers :: unit boot_ext disk_ext isr option list"
  note b = example_boots(1-4) example_machine_tags(1) example_boots(5) example_machine_tags(2) example_boots(6-9)
  obtain s0 where s0: "kernel_main example_image example_sections ?lay MULTIBOOT2_BOOTLOADER_MAGIC 0x9000 (replicate IDT_ITEM_NUM None) example_machine
      = Inr (?h, Sched_top, s0)" "sched_inv Sched_top s0" "if_on s0"
    using kernel_main_boots [OF b, where 'h = "unit boot_ext disk_ext", of ?lay] by blast
  obtain s1 where m: "mstep example_image ?h (Irq 32) (Sched_top, s0) (Inr (Sched_top, s1))" using example_timer [OF s0(2,3)] by blast
  then have "outcome (Irq 32) (Inr (Sched_top, s1))"
    using kernel_keeps_running [OF b, of ?lay] s0(1) msteps.Nil [of example_image ?h "(Sched_top, s0)"] by auto
  then show ?thesis using s0(1) m by (intro exI [of _ ?h] exI [of _ Sched_top] exI [of _ s0] exI [of _ s1]) (simp add: outcome_def)
qed

end
