(* ===== verification/Frame.thy ===== *)
theory Frame
  imports Sched
begin

section \<open>What the kernel's threads leave alone\<close>

text \<open>
  Once the kernel runs, no step of its threads allocates a page or writes to a page table. \<open>keeps\<close> says so of two
  states: memory, the pool, the kernel's directory and, for each process, its stack, its directory and whether its
  entry of the table is in use are the same, its arrays keep their lengths, and no process more is inside the exit call. \<open>loaded\<close> is the page
  directory and the stack the processor uses for a trap from user mode; \<open>stays\<close> says that they are the same too.
  It is proved of each operation of theory Sched from its code, on every path that returns.
\<close>

definition same_space :: "proc \<Rightarrow> proc \<Rightarrow> bool" where
  "same_space p q \<longleftrightarrow> pgdir q = pgdir p \<and> kstack q = kstack p \<and> (state q = UNUSED \<longleftrightarrow> state p = UNUSED)
     \<and> length (pname q) = length (pname p) \<and> length (ofile q) = length (ofile p)"

definition exits :: "'a sys_scheme \<Rightarrow> nat set" where
  "exits s = {j. \<exists>a ie. konts s j = After_exit a ie}"

definition keeps :: "'a sys_scheme \<Rightarrow> 'a sys_scheme \<Rightarrow> bool" where
  "keeps s s' \<longleftrightarrow> ram s' = ram s \<and> freelist s' = freelist s \<and> kpgdir s' = kpgdir s
     \<and> list_all2 same_space (ptable s) (ptable s') \<and> exits s' \<subseteq> exits s"

definition loaded :: "'a sys_scheme \<Rightarrow> u32 \<times> u32" where
  "loaded s = (cr3 s, esp0 (ts (this_cpu s)))"

definition stays :: "'a sys_scheme \<Rightarrow> 'a sys_scheme \<Rightarrow> bool" where
  "stays s s' \<longleftrightarrow> keeps s s' \<and> loaded s' = loaded s"

lemma same_space_refl: "same_space p p"
  by (simp add: same_space_def)

lemma stays_refl: "stays s s"
  by (simp add: stays_def keeps_def loaded_def c_cpu_def list_all2_refl same_space_refl)

lemma keeps_trans: "keeps s s1 \<Longrightarrow> keeps s1 s2 \<Longrightarrow> keeps s s2"
  using list_all2_trans [of same_space same_space same_space "ptable s" "ptable s1" "ptable s2"]
  by (auto simp: keeps_def same_space_def)

lemma stays_trans [trans]: "stays s s1 \<Longrightarrow> stays s1 s2 \<Longrightarrow> stays s s2"
  using keeps_trans [of s s1 s2] by (simp add: stays_def)

lemma keeps_nth:
  assumes "keeps s s'" "j < length (ptable s)"
  shows "same_space (ptable s ! j) (ptable s' ! j)"
  using list_all2_nthD [of same_space "ptable s" "ptable s'" j] assms by (simp add: keeps_def)

lemma stays_erase: "erase s' = erase s \<Longrightarrow> stays s s'"
  using erase_eqD [of s' s] erase_inv(5,7,9) [of s' s] stays_refl [of s] by (simp add: stays_def keeps_def loaded_def c_cpu_def exits_def)

lemma stays_fields:
  "stays s (s\<lparr>sched_pos := n\<rparr>)" "stays s (s\<lparr>ports := d\<rparr>)" "stays s (s\<lparr>fork_first := b\<rparr>)"
  "(\<And>c. ts (g c) = ts c) \<Longrightarrow> stays s (set_cpu g s)" "(\<And>c. ts (g c) = ts c) \<Longrightarrow> stays s (set_cpu0 g s)" "stays s (set_sleeplock a h s)" "stays s (init_lock l nm s)"
  "stays s (sched_return ie s)" "stays s (cli s)" "stays s (sti s)"
  using stays_refl [of s]
  by (simp_all add: stays_def keeps_def loaded_def c_cpu_def exits_def set_cpu_def set_cpu0_def set_sleeplock_def init_lock_def set_lock_def sched_return_def cli_def sti_def)

lemma stays_proc:
  assumes "same_space (ptable s ! i) (f (ptable s ! i))"
  shows "stays s (set_proc i f s)"
proof -
  have "same_space (ptable s ! j) ((ptable s)[i := f (ptable s ! i)] ! j)" if "j < length (ptable s)" for j
    using assms that same_space_refl by (cases "i = j") simp_all
  then have "list_all2 same_space (ptable s) ((ptable s)[i := f (ptable s ! i)])" by (simp add: list_all2_conv_all_nth)
  then show ?thesis by (simp add: stays_def keeps_def loaded_def c_cpu_def exits_def set_proc_def)
qed

subsection \<open>Spin locks\<close>

lemma erase_pushcli [simp]: "erase (pushcli s) = erase s"
  by (simp add: pushcli_def Let_def)

lemma erase_popcli: "popcli s = Inr s' \<Longrightarrow> erase s' = erase s"
  by (auto simp: popcli_def Let_def split: if_splits)

lemma erase_holding: "holding l s = Inr (r, s') \<Longrightarrow> erase s' = erase s"
  using erase_popcli by (fastforce simp: holding_def Let_def bindR_Inr_iff)

lemma erase_spin:
  assumes "spin l s = Some s'"
  shows "erase s' = erase s"
  by (rule spin.raw_induct [OF _ assms, where P = "\<lambda>l s s'. erase s' = erase s"]) (auto simp: xchg_locked_def split: if_splits)

lemma erase_acquire: "acquire l s = Inr s' \<Longrightarrow> erase s' = erase s"
  using erase_holding [of l "pushcli s"] erase_spin
  by (fastforce simp: acquire_def bindR_Inr_iff from_loop_def split: if_splits option.splits)

lemma erase_release: "release l s = Inr s' \<Longrightarrow> erase s' = erase s"
  using erase_holding [of l s] erase_popcli by (fastforce simp: release_def bindR_Inr_iff split: if_splits)

lemmas stays_lock = stays_erase [OF erase_holding] stays_erase [OF erase_acquire] stays_erase [OF erase_release]

subsection \<open>Giving up the processor\<close>

lemma stays_sched:
  assumes "sched k s = Inr s'" "\<And>ie a ie'. k ie \<noteq> After_exit a ie'"
  shows "stays s s'"
proof -
  obtain h s1 i ie where s1: "holding Ptable_lock s = Inr (h, s1)" "s' = s1\<lparr>konts := (konts s1)(i := k ie)\<rparr>"
    using assms(1) by (auto simp: sched_def Let_def bindR_Inr_iff split: if_splits option.splits)
  have "stays s1 s'" using s1(2) assms(2) stays_refl [of s1] by (auto simp: stays_def keeps_def loaded_def c_cpu_def exits_def)
  then show ?thesis using stays_trans [OF stays_lock(1) [OF s1(1)]] by blast
qed

lemma stays_printf: "with_ports f s = Inr s' \<Longrightarrow> stays s s'"
  using stays_fields(2) by (auto simp: with_ports_def bindR_Inr_iff)

lemma stays_yield:
  assumes "yield s = Inr s'" "\<forall>j. state (ptable s ! j) = UNUSED \<longrightarrow> cur s \<noteq> Some j"
  shows "stays s s'"
proof -
  obtain s1 i where s1: "acquire Ptable_lock s = Inr s1" "cur_proc (this_cpu s1) = Some i"
    "sched After_yield (set_proc i (\<lambda>p. p\<lparr>state := RUNNABLE\<rparr>) s1) = Inr s'"
    using assms(1) by (auto simp: yield_def bindR_Inr_iff split: option.splits)
  have "state (ptable s1 ! i) \<noteq> UNUSED"
    using assms(2) s1(2) erase_inv(3,7) [OF erase_acquire [OF s1(1)]] by (auto simp: cur_def)
  then have "stays s1 (set_proc i (\<lambda>p. p\<lparr>state := RUNNABLE\<rparr>) s1)" by (intro stays_proc) (simp add: same_space_def)
  then show ?thesis using stays_trans [OF stays_lock(2) [OF s1(1)]] stays_trans [OF _ stays_sched [OF s1(3)]] by blast
qed

text \<open>\<open>sleep\<close> swaps the lock it was given for the one of the table, and back.\<close>

lemma erase_swap:
  assumes "(if b then bindR (acquire l s) (release l') else Inr s) = Inr s1"
  shows "erase s1 = erase s"
  using assms by (cases b) (auto simp: bindR_Inr_iff dest!: erase_acquire erase_release)

lemma erase_swap_back:
  assumes "(if b then bindR (release l s) (acquire l') else Inr s) = Inr s1"
  shows "erase s1 = erase s"
  using assms by (cases b) (auto simp: bindR_Inr_iff dest!: erase_acquire erase_release)

lemma stays_sleep:
  assumes "sleep k ch lk s = Inr s'" "\<And>l ie a ie'. k l ie \<noteq> After_exit a ie'" "\<forall>j. state (ptable s ! j) = UNUSED \<longrightarrow> cur s \<noteq> Some j"
  shows "stays s s'"
proof -
  obtain i where i: "cur_proc (this_cpu s) = Some i" using assms(1) by (cases "cur_proc (this_cpu s)") (simp_all add: sleep_def)
  obtain l where l: "lk = Some l" using assms(1) i by (cases lk) (simp_all add: sleep_def)
  obtain s1 where s1: "cur_proc (this_cpu s) = Some i"
    "(if l \<noteq> Ptable_lock then bindR (acquire Ptable_lock s) (release l) else Inr s) = Inr s1"
    "sched (k l) (set_proc i (\<lambda>p. p\<lparr>chan := ch, state := SLEEPING\<rparr>) s1) = Inr s'"
    using assms(1) i unfolding sleep_def i l option.case bindR_Inr_iff by blast
  note e = erase_swap [OF s1(2)]
  have "state (ptable s1 ! i) \<noteq> UNUSED" using assms(3) s1(1) erase_inv(7) [OF e] by (auto simp: cur_def)
  then have "stays s1 (set_proc i (\<lambda>p. p\<lparr>chan := ch, state := SLEEPING\<rparr>) s1)" by (intro stays_proc) (simp add: same_space_def)
  then show ?thesis using stays_trans [OF stays_erase [OF e]] stays_trans [OF _ stays_sched [OF s1(3) assms(2)]] by blast
qed

lemma stays_sleep_return:
  assumes "sleep_return i l ie s = Inr s'"
  shows "stays s s'"
proof -
  let ?s = "set_proc i (\<lambda>p. p\<lparr>chan := 0\<rparr>) (sched_return ie s)"
  have k: "stays (sched_return ie s) ?s" by (rule stays_proc) (simp add: same_space_def)
  have "erase s' = erase ?s" using assms unfolding sleep_return_def Let_def by (rule erase_swap_back)
  then show ?thesis using stays_trans [OF stays_trans [OF stays_fields(8) k] stays_erase] by blast
qed

lemma stays_wakeup:
  assumes "wakeup ch s = Inr s'"
  shows "stays s s'"
proof -
  let ?f = "\<lambda>p. if state p = SLEEPING \<and> chan p = ch then p\<lparr>state := RUNNABLE\<rparr> else p"
  obtain s1 where s1: "acquire Ptable_lock s = Inr s1" "release Ptable_lock (s1\<lparr>ptable := map ?f (ptable s1)\<rparr>) = Inr s'"
    using assms by (auto simp: wakeup_def bindR_Inr_iff)
  have "same_space p (?f p)" for p by (simp add: same_space_def)
  then have "stays s1 (s1\<lparr>ptable := map ?f (ptable s1)\<rparr>)" by (simp add: stays_def keeps_def loaded_def c_cpu_def exits_def list_all2_conv_all_nth)
  then show ?thesis using stays_trans [OF stays_lock(2) [OF s1(1)]] stays_trans [OF _ stays_lock(3) [OF s1(2)]] by blast
qed

lemma stays_acquire_sleep_loop:
  assumes "acquire_sleep_loop i a s = Inr (th, s')" "\<forall>j. state (ptable s ! j) = UNUSED \<longrightarrow> cur s \<noteq> Some j"
  shows "stays s s'"
  using assms stays_sleep [OF _ _ assms(2)] stays_trans [OF stays_fields(6) stays_lock(3)]
  by (fastforce simp: acquire_sleep_loop_def bindR_Inr_iff split: if_splits)

lemma run_in_use: "sched_inv (Run i) s \<Longrightarrow> \<forall>j. state (ptable s ! j) = UNUSED \<longrightarrow> cur s \<noteq> Some j"
  using run_invD(2,6) [of i s] by auto

subsection \<open>The threads' steps\<close>

lemma stays_resume:
  assumes "resume i s = Inr (th, s')" "sched_inv (Run i) s" "lock_state s [Ptable_lock] b" "exits s = {}"
  shows "stays s s'"
proof (cases "konts s i")
  case Fork_ret
  then obtain s1 where s1: "release Ptable_lock s = Inr s1"
    "(if fork_first s1 then with_ports (serial_printf fork_ret_text []) (s1\<lparr>fork_first := False\<rparr>) else Inr s1) = Inr s'"
    using assms(1) by (auto simp: resume_def fork_ret_body_def bindR_Inr_iff)
  have "stays s1 s'" using s1(2) stays_refl stays_trans [OF stays_fields(3) stays_printf] by (auto split: if_splits)
  then show ?thesis using stays_trans [OF stays_lock(3) [OF s1(1)]] by blast
next
  case (After_yield ie)
  then show ?thesis
    using assms(1) stays_trans [OF stays_fields(8) stays_lock(3)] by (auto simp: resume_def yield_return_def bindR_Inr_iff)
next
  case (After_sleep l ie)
  then show ?thesis using assms(1) stays_sleep_return by (auto simp: resume_def bindR_Inr_iff)
next
  case (After_lock_sleep a ie)
  then obtain s1 where s1: "sleep_return i (Lock_at a) ie s = Inr s1" "acquire_sleep_loop i a s1 = Inr (th, s')"
    using assms(1) by (auto simp: resume_def bindR_Inr_iff)
  have "sched_inv (Run i) s1" using sleep_return_state [OF assms(2,3), of "Lock_at a" ie] s1(1) by auto
  then show ?thesis
    using stays_trans [OF stays_sleep_return [OF s1(1)] stays_acquire_sleep_loop [OF s1(2) run_in_use]] by blast
qed (use assms(4) in \<open>auto simp: exits_def\<close>)

lemma stays_call:
  assumes "do_call i c s = Inr (th, s')" "sched_inv (Run i) s"
  shows "stays s s'"
proof (cases c)
  case (Acquire_sleep a)
  then obtain s1 where s1: "acquire (Lock_at a) s = Inr s1" "acquire_sleep_loop i a s1 = Inr (th, s')"
    using assms(1) by (auto simp: do_call_def acquire_sleep_def bindR_Inr_iff)
  have "\<forall>j. state (ptable s1 ! j) = UNUSED \<longrightarrow> cur s1 \<noteq> Some j"
    using run_in_use [OF assms(2)] erase_inv(3,7) [OF erase_acquire [OF s1(1)]] by simp
  then show ?thesis using stays_trans [OF stays_lock(2) [OF s1(1)] stays_acquire_sleep_loop [OF s1(2)]] by blast
next
  case (Init_sleeplock a nm)
  then show ?thesis
    using assms(1) stays_trans [OF stays_fields(7) stays_fields(6)] by (auto simp: do_call_def init_sleeplock_def)
qed (use assms(1) stays_yield [OF _ run_in_use [OF assms(2)]] stays_sleep [OF _ _ run_in_use [OF assms(2)]] stays_wakeup
    stays_lock stays_fields in \<open>auto simp: do_call_def bindR_Inr_iff\<close>)

text \<open>The scheduler at an entry of the table: it goes on, or loads the process and hands over.\<close>

lemma scan_keeps:
  assumes "scan im n s = Inr (th', s')" "sched_inv (Scan n) s" "exits s = {}"
  shows "keeps s s'" "th' = Run i \<Longrightarrow> i = n \<and> loaded s' = (V2P (pgdir (ptable s ! n)), kstack (ptable s ! n) + KSTACK_SIZE)"
proof -
  have "keeps s s' \<and> (\<forall>i. th' = Run i \<longrightarrow> i = n \<and> loaded s' = (V2P (pgdir (ptable s ! n)), kstack (ptable s ! n) + KSTACK_SIZE))"
  proof (cases "n < MAX_PROC \<and> state (ptable s ! n) = RUNNABLE")
    case True
    obtain s1 where s1: "handed_to im n s s1" using scan_runnable [of n s im] assms(2) True by blast
    then obtain b where r: "resume n s1 = Inr (th', s')" "sched_inv (Run n) s1" "lock_state s1 [Ptable_lock] b" "exits s1 = {}"
      using assms(1,3) by (auto simp: handed_to_def exits_def)
    note k = stays_resume [OF r]
    have "same_space (ptable s ! n) ((ptable s ! n)\<lparr>state := RUNNING\<rparr>)" using True by (simp add: same_space_def)
    then have "stays s (set_proc n (\<lambda>p. p\<lparr>state := RUNNING\<rparr>) s)" by (rule stays_proc)
    then have "keeps s s1" using s1 by (simp add: stays_def keeps_def exits_def handed_to_def set_proc_def)
    then have "keeps s s'" using keeps_trans k by (auto simp: stays_def)
    moreover have "loaded s1 = (V2P (pgdir (ptable s ! n)), kstack (ptable s ! n) + KSTACK_SIZE)"
      using s1 by (simp add: handed_to_def loaded_def)
    moreover have "th' \<in> {Run n, Back n}" using resume_state [OF r(2,3)] r(1) by auto
    ultimately show ?thesis using k by (auto simp: stays_def)
  next
    case False
    then have "stays s s' \<and> (\<forall>i. th' \<noteq> Run i)" using assms(1) stays_refl stays_lock(3)
      by (auto simp: scan_def bindR_Inr_iff split: if_splits)
    then show ?thesis by (simp add: stays_def)
  qed
  then show "keeps s s'" "th' = Run i \<Longrightarrow> i = n \<and> loaded s' = (V2P (pgdir (ptable s ! n)), kstack (ptable s ! n) + KSTACK_SIZE)"
    by blast+
qed

text \<open>Each step of a thread keeps the address spaces, and whoever runs afterwards has its own directory and stack loaded.\<close>

lemma kstep_keeps:
  assumes "kstep im (th, s) (Inr (th', s'))" "sched_inv th s" "exits s = {}"
  shows "keeps s s'"
    "th' = Run i \<Longrightarrow> loaded s' = (V2P (pgdir (ptable s ! i)), kstack (ptable s ! i) + KSTACK_SIZE) \<or> th = Run i \<and> loaded s' = loaded s"
proof -
  have "keeps s s' \<and> (\<forall>i. th' = Run i \<longrightarrow>
      loaded s' = (V2P (pgdir (ptable s ! i)), kstack (ptable s ! i) + KSTACK_SIZE) \<or> th = Run i \<and> loaded s' = loaded s)"
    using assms(1)
  proof (cases rule: kstep.cases)
    case Top
    then have "sched_top s = Inr (th', s')" by simp
    then have "stays s s'" "th' = Scan 0"
      using stays_trans [OF stays_fields(10) stays_lock(2)] by (auto simp: sched_top_def bindR_Inr_iff)
    then show ?thesis by (simp add: stays_def)
  next
    case (Scan n)
    then have "scan im n s = Inr (th', s')" "sched_inv (Scan n) s" using assms(2) by simp_all
    then show ?thesis using scan_keeps [of im n s th' s'] assms(3) by auto
  next
    case (Back n)
    then have "sched_back n s = Inr (th', s')" by simp
    then obtain s1 where s1: "with_ports (serial_printf back_text []) s = Inr s1" "th' = Scan (n + 1)"
      "s' = set_cpu0 (\<lambda>c. c\<lparr>cur_proc := None\<rparr>) (s1\<lparr>cr3 := V2P (kpgdir s1)\<rparr>)"
      by (auto simp: sched_back_def switch_kvm_def lcr3_def bindR_Inr_iff)
    then have "keeps s s'" using stays_printf [OF s1(1)] by (simp add: stays_def keeps_def exits_def set_cpu0_def)
    then show ?thesis using s1(2) by simp
  next
    case (Call c n)
    then have e: "do_call n c s = Inr (th', s')" "sched_inv (Run n) s" using assms(2) by simp_all
    have "th' \<in> {Run n, Back n}" using call_step [OF e(2) Call(3)] e(1) by auto
    then show ?thesis using stays_call [OF e] Call(1) by (auto simp: stays_def)
  qed
  then show "keeps s s'"
    "th' = Run i \<Longrightarrow> loaded s' = (V2P (pgdir (ptable s ! i)), kstack (ptable s ! i) + KSTACK_SIZE) \<or> th = Run i \<and> loaded s' = loaded s"
    by blast+
qed

end
