(* ===== verification/Isolation.thy ===== *)
theory Isolation
  imports Machine Frame
begin

section \<open>What user code can reach\<close>

text \<open>
  The address space that \<^verbatim>\<open>init_user\<close> built lasts as long as the kernel runs. Memory changes in three places only:
  the frame of the process, its kernel stack and the stack of the scheduler. None of them holds a page table, so the
  tables stay as they were, the process reaches its one page and nothing else, and what it does there never gets out.
\<close>

subsection \<open>Entries open to the user\<close>

lemma not_user:
  assumes "aligned 12 (a :: u32)"
  shows "(a OR PTE_W OR PTE_P) AND PTE_U = 0" "(a OR PTE_P) AND PTE_U = 0"
proof -
  have "a AND 2 ^ 2 = 0" using assms by (simp only: and_exp_eq_0_iff_not_bit page_bit_iff) simp
  then have "a AND 4 = 0" by simp
  then show "(a OR PTE_W OR PTE_P) AND PTE_U = 0" "(a OR PTE_P) AND PTE_U = 0"
    by (simp_all add: mmu_consts bit.conj_disj_distrib2)
qed

lemma kernel_entry_not_user: "kernel_entry kdata va AND PTE_U = 0"
  using not_user [of "V2P (PGROUNDDOWN va)"] not_user [of "PGROUNDDOWN va"]
  by (simp add: kernel_entry_def aligned_V2P)

lemma user_page_only:
  assumes "user_space kdata P s pg y" "lookup (ram s) pg va AND PTE_U \<noteq> 0"
  shows "PGROUNDDOWN va = 0"
  using assms kernel_entry_not_user [of kdata va] by (auto simp: user_space_def split: if_splits)

lemma user_frame:
  assumes "user_space kdata P s pg y" "aligned 12 y" "user_writable (ram s) pg va"
  shows "in_block y 4096 (frame_address (ram s) pg va)"
proof -
  let ?e = "lookup (ram s) pg va"
  have "?e AND 7 = 7" using assms(3) by (simp add: user_writable_def mmu_consts)
  then have "?e AND (7 AND 4) = 7 AND 4" by (simp only: and.assoc [symmetric])
  then have "?e AND PTE_U \<noteq> 0" by (simp add: mmu_consts)
  from user_page_only [OF assms(1) this]
  have l: "lookup (ram s) pg va = V2P y OR 7" using assms(1) by (simp add: user_space_def mmu_consts)
  have "PTE_ADDR (V2P y OR 7) = V2P y" using PTE_ADDR_entry [OF aligned_V2P [OF assms(2)], of 7] by simp
  then have f: "frame_address (ram s) pg va = y + take_bit 12 va"
    by (simp add: frame_address_def l P2V_def V2P_def fff_mask take_bit_eq_mask)
  have "unat (take_bit 12 va) < 4096" by (simp add: unat_take_bit_12)
  then show ?thesis by (simp add: in_block_def f)
qed

subsection \<open>The invariant\<close>

text \<open>The bytes that may differ from those of the state \<open>s0\<close> in which the scheduler starts.\<close>

definition touchable :: "image \<Rightarrow> u32 \<Rightarrow> 'a sys_scheme \<Rightarrow> u32 \<Rightarrow> bool" where
  "touchable im y s0 a \<longleftrightarrow> in_block y 4096 a \<or> in_block (kstack (ptable s0 ! 0)) 4096 a \<or> in_block (boot_stack im) 16384 a"

definition confined :: "image \<Rightarrow> u32 \<Rightarrow> 'a sys_scheme \<Rightarrow> thread \<Rightarrow> 'a sys_scheme \<Rightarrow> bool" where
  "confined im y s0 th s \<longleftrightarrow> list_all2 same_space (ptable s0) (ptable s) \<and> exits s = {} \<and> freelist s = freelist s0
     \<and> (\<forall>i. th = Run i \<longrightarrow> loaded s = (V2P (pgdir (ptable s ! i)), kstack (ptable s ! i) + KSTACK_SIZE))
     \<and> (\<forall>a. \<not> touchable im y s0 a \<longrightarrow> ram s a = ram s0 a)"

text \<open>The state in which the scheduler starts: one process, its space built from the pages \<open>P\<close>, which lie above the kernel.\<close>

definition starts :: "image \<Rightarrow> sections \<Rightarrow> u32 set \<Rightarrow> u32 \<Rightarrow> 'a sys_scheme \<Rightarrow> bool" where
  "starts im k P y s0 \<longleftrightarrow> length (ptable s0) = MAX_PROC \<and> (\<forall>i < MAX_PROC. i \<noteq> 0 \<longrightarrow> state (ptable s0 ! i) = UNUSED)
     \<and> kstack (ptable s0 ! 0) = 0x8DFFF000 \<and> exits s0 = {} \<and> user_space (kernel_data_start k) P s0 (pgdir (ptable s0 ! 0)) y
     \<and> above_kernel k P \<and> unat (boot_stack im) + 16384 \<le> unat (kernel_end k)"

lemma starts_confined: "starts im k P y s0 \<Longrightarrow> (\<And>i. th \<noteq> Run i) \<Longrightarrow> confined im y s0 th s0"
  by (simp add: confined_def starts_def list_all2_refl same_space_refl)

lemma starts_pages:
  assumes "starts im k P y s0"
  shows "y \<in> P" "aligned 12 y" "p \<in> P - {y} \<Longrightarrow> in_block p 4096 a \<Longrightarrow> \<not> touchable im y s0 a"
proof -
  have P: "0x8DFFF000 \<notin> P" "\<And>p. p \<in> P \<Longrightarrow> aligned 12 p \<and> unat (kernel_end k) \<le> unat p \<and> unat p + 4096 \<le> 0x8E000000"
    using assms by (auto simp: starts_def above_kernel_def)
  show y: "y \<in> P" "aligned 12 y" using assms P(2) by (auto simp: starts_def user_space_def)
  assume p: "p \<in> P - {y}" "in_block p 4096 a"
  have al: "aligned 12 (0x8DFFF000 :: u32)" by (simp add: aligned_def)
  have "unat p \<le> unat a" using p(2) P(2) [of p] p(1) in_block_bounds(1) [of p 4096 a] by auto
  then have "\<not> in_block (boot_stack im) 16384 a"
    using P(2) [of p] p(1) assms in_block_bounds(2) [of "boot_stack im" 16384 a] unat_lt_u32 [of "kernel_end k"] by (auto simp: starts_def)
  then show "\<not> touchable im y s0 a"
    using pages_disjoint [OF _ y(2) _ p(2)] pages_disjoint [OF _ al _ p(2)] P p(1) assms by (auto simp: touchable_def starts_def)
qed

text \<open>So the space is still there, table entry by table entry.\<close>

lemma confined_space:
  assumes "starts im k P y s0" "confined im y s0 th s"
  shows "user_space (kernel_data_start k) P s (pgdir (ptable s0 ! 0)) y"
  by (rule user_space_cong [of _ _ s0]) (use assms starts_pages(3) [OF assms(1)] in \<open>auto simp: starts_def confined_def\<close>)

lemma confined_proc:
  assumes "starts im k P y s0" "confined im y s0 th s" "j < MAX_PROC"
  shows "same_space (ptable s0 ! j) (ptable s ! j)"
  using list_all2_nthD [of same_space "ptable s0" "ptable s" j] assms by (simp add: confined_def starts_def)

text \<open>Only the first process ever runs, with its directory and its stack loaded.\<close>

lemma run_first:
  assumes "starts im k P y s0" "confined im y s0 (Run i) s" "sched_inv (Run i) s"
  shows "i = 0" "loaded s = (V2P (pgdir (ptable s0 ! 0)), kstack (ptable s0 ! 0) + KSTACK_SIZE)"
proof -
  note d = run_invD [OF assms(3)]
  have "same_space (ptable s0 ! i) (ptable s ! i)" by (rule confined_proc [OF assms(1,2) d(3)])
  then have sp: "state (ptable s0 ! i) \<noteq> UNUSED" "pgdir (ptable s ! i) = pgdir (ptable s0 ! i)" "kstack (ptable s ! i) = kstack (ptable s0 ! i)"
    using d(6) by (auto simp: same_space_def)
  then show i: "i = 0" using assms(1) d(3) by (auto simp: starts_def)
  show "loaded s = (V2P (pgdir (ptable s0 ! 0)), kstack (ptable s0 ! 0) + KSTACK_SIZE)"
    using sp(2,3) assms(2) i by (simp add: confined_def)
qed

lemma on_stack_touchable:
  assumes "starts im k P y s0" "confined im y s0 th s" "sched_inv th s" "on_stack im th s a"
  shows "touchable im y s0 a"
proof (cases th)
  case (Run i)
  then have "i = 0" using run_first(1) [OF assms(1), of i s] assms(2,3) by simp
  moreover have "same_space (ptable s0 ! 0) (ptable s ! 0)" by (rule confined_proc [OF assms(1,2)]) (simp add: MAX_PROC_def)
  ultimately show ?thesis using assms(4) Run by (simp add: on_stack_def touchable_def same_space_def KSTACK_SIZE_def)
qed (use assms(4) in \<open>simp_all add: on_stack_def touchable_def\<close>)

lemma confined_memory:
  assumes "confined im y s0 th s" "\<And>a. \<not> touchable im y s0 a \<Longrightarrow> m a = ram s a"
  shows "confined im y s0 th (s\<lparr>ram := m\<rparr>)"
  using assms by (simp add: confined_def exits_def loaded_def c_cpu_def)

lemma confined_own:
  assumes "starts im k P y s0" "confined im y s0 th s" "sched_inv th s" "kstep im (th, s) (Inr (th', s'))"
  shows "confined im y s0 th' s'"
proof -
  have ex: "exits s = {}" using assms(2) by (simp add: confined_def)
  note k = kstep_keeps [OF assms(4,3) ex]
  have len: "length (ptable s) = MAX_PROC" using sched_inv_ok [OF assms(3)] by (simp add: sys_ok_def)
  have i': "sched_inv th' s'" using kstep_safe [OF assms(3,4)] by auto
  have "loaded s' = (V2P (pgdir (ptable s' ! i)), kstack (ptable s' ! i) + KSTACK_SIZE)" if "th' = Run i" for i
  proof -
    have "i < MAX_PROC" using i' that by (simp add: sched_inv_def)
    then have "same_space (ptable s ! i) (ptable s' ! i)" using keeps_nth [OF k(1)] len by simp
    then show ?thesis using k(2) [OF that] assms(2) by (auto simp: same_space_def confined_def)
  qed
  moreover have "list_all2 same_space (ptable s0) (ptable s')"
    using list_all2_trans [of same_space same_space same_space "ptable s0" "ptable s" "ptable s'"] k(1) assms(2)
    by (auto simp: confined_def keeps_def same_space_def)
  ultimately show ?thesis using k(1) assms(2) by (auto simp: confined_def keeps_def)
qed

lemma confined_trap:
  assumes "starts im k P y s0" "confined im y s0 th s" "sched_inv th s" "takes im n th s frame m" "left_by frame m s s'"
  shows "confined im y s0 th s'"
proof -
  obtain s1 m' where s1: "quiet ((cli s)\<lparr>ram := m\<rparr>) s1" "s' = s1\<lparr>eflags := eflags s, ram := m'\<rparr>"
    "\<And>a. \<not> in_block frame (unat sizeof_trap_frame) a \<Longrightarrow> m' a = m a"
    using assms(5) by (auto simp: left_by_def)
  have "m' a = ram s a" if "\<not> touchable im y s0 a" for a
  proof -
    have "\<not> on_stack im th s a" using that on_stack_touchable [OF assms(1-3)] by blast
    moreover have "in_block frame (unat sizeof_trap_frame) a \<Longrightarrow> on_stack im th s a" "\<not> on_stack im th s a \<Longrightarrow> m a = ram s a"
      using assms(4) by (simp_all add: takes_def)
    ultimately show ?thesis using s1(3) by metis
  qed
  then show ?thesis using assms(2) s1(1)
    by (simp add: confined_def exits_def loaded_def c_cpu_def quiet_def s1(2) cli_def)
qed

lemma mstep_confined:
  assumes "starts im k P y s0" "confined im y s0 th s" "sched_inv th s" "mstep im idt_handlers e (th, s) (Inr (th', s'))"
  shows "confined im y s0 th' s'"
  using assms(4)
proof (cases rule: mstep.cases)
  case Own
  then show ?thesis using confined_own [OF assms(1-3)] by simp
next
  case (Locals m)
  then show ?thesis using confined_memory [OF assms(2), of m] on_stack_touchable [OF assms(1-3)] by auto
next
  case (User m i)
  then have l: "cr3 s = V2P (pgdir (ptable s0 ! 0))" using run_first(2) [OF assms(1), of i s] assms(2,3) by (simp add: loaded_def)
  have "m a = ram s a" if "\<not> touchable im y s0 a" for a
  proof (rule ccontr)
    assume "m a \<noteq> ram s a"
    then obtain va where "user_writable (ram s) (pgdir (ptable s0 ! 0)) va" "a = frame_address (ram s) (pgdir (ptable s0 ! 0)) va"
      using User l by (auto simp: user_stores_def)
    then have "in_block y 4096 a" using user_frame [OF confined_space [OF assms(1,2)] starts_pages(2) [OF assms(1)]] by simp
    then show False using that by (simp add: touchable_def)
  qed
  then show ?thesis using confined_memory [OF assms(2), of m] User by simp
next
  case (Irq n frame m)
  then have "handled e frame th m s (Inr (th', s'))" using irq_handled(1) [OF assms(3), of n im frame m e] by simp
  then show ?thesis using handledD confined_trap [OF assms(1-3)] Irq by blast
next
  case (Exception n frame m)
  then have "handled e frame th m s (Inr (th', s'))" using exception_handled [OF assms(3), of n im frame m] by simp
  then show ?thesis using handledD confined_trap [OF assms(1-3)] Exception by blast
next
  case (Syscall i frame m)
  then have "handled e frame th m s (Inr (th', s'))" using syscall_handled [of i s im frame m] assms(3) by simp
  then show ?thesis using handledD confined_trap [OF assms(1-3)] Syscall by blast
qed

lemma msteps_confined:
  "msteps im idt_handlers c es c' \<Longrightarrow> starts im k P y s0 \<Longrightarrow> sched_inv (fst c) (snd c) \<Longrightarrow> confined im y s0 (fst c) (snd c) \<Longrightarrow>
   confined im y s0 (fst c') (snd c')"
proof (induction rule: msteps.induct)
  case (Snoc c es c' e c'')
  have "sched_inv (fst c') (snd c')" using msteps_inv Snoc.hyps(1) Snoc.prems(2) by blast
  then show ?case using mstep_confined [of im k P y s0 "fst c'" "snd c'" e "fst c''" "snd c''"] Snoc by simp
qed simp

subsection \<open>Properties\<close>

lemma boot_starts:
  fixes s :: "'a boot_scheme"
  assumes "booted s" "drive_ready (ports s)" "freelist s = 0" "kernel_fits k"
    and "tags_at (boot_screen (ram s)) (mbi + 8) tgs" "length (memory_map (mem_info s)) = 32"
      "\<forall>t \<in> set tgs. load32 (boot_screen (ram s)) t = MULTIBOOT_TAG_TYPE_MMAP \<longrightarrow> mmap_ok (boot_screen (ram s)) t"
    and "user_init_code im \<noteq> 0" "user_init_code_size im \<le> PGSIZE"
      "unat (user_init_code im) + unat (user_init_code_size im) \<le> unat (kernel_end k)"
    and "length (idt s) = 256" "unat (boot_stack im) + 16384 \<le> unat (kernel_end k)"
  shows "\<exists>s0 P y. kernel_main im k lay MULTIBOOT2_BOOTLOADER_MAGIC mbi (replicate IDT_ITEM_NUM None) s
      = Inr (idt_handlers :: 'h isr option list, Sched_top, s0) \<and> sched_inv Sched_top s0 \<and> if_on s0 \<and> starts im k P y s0
    \<and> state (ptable s0 ! 0) = RUNNABLE \<and> konts s0 0 = Fork_ret"
proof -
  obtain s0 P y where s0: "kernel_main im k lay MULTIBOOT2_BOOTLOADER_MAGIC mbi (replicate IDT_ITEM_NUM None) s
      = Inr (idt_handlers :: 'h isr option list, Sched_top, s0)" "sched_inv Sched_top s0" "if_on s0"
      "\<forall>i < MAX_PROC. state (ptable s0 ! i) = (if i = 0 then RUNNABLE else UNUSED)" "kstack (ptable s0 ! 0) = 0x8DFFF000"
      "\<forall>i. konts s0 i = Fork_ret" "user_space (kernel_data_start k) P s0 (pgdir (ptable s0 ! 0)) y" "above_kernel k P"
    using kernel_main_boots [OF assms(1-11)] by blast
  then have "starts im k P y s0" using assms(12) sched_inv_ok [OF s0(2)] by (simp add: starts_def exits_def sys_ok_def)
  moreover have "state (ptable s0 ! 0) = RUNNABLE" "konts s0 0 = Fork_ret" using s0(4,6) by (simp_all add: MAX_PROC_def)
  ultimately show ?thesis using s0(1-3) by blast
qed

text \<open>What the process sees and what it cannot change, in the state \<open>s\<close> reached from \<open>s0\<close>: its address space is the one
  \<^verbatim>\<open>init_user\<close> built, entry by entry; memory is that of \<open>s0\<close> outside the frame \<open>y\<close>, its kernel stack and the stack of
  the scheduler; and when a process runs it is this one, with its directory loaded, the task segment at the top of its kernel stack,
  and only page 0 open to user mode.\<close>

definition isolated :: "image \<Rightarrow> sections \<Rightarrow> u32 \<Rightarrow> 'a sys_scheme \<Rightarrow> thread \<Rightarrow> 'a sys_scheme \<Rightarrow> bool" where
  "isolated im k y s0 th s \<longleftrightarrow>
     (\<forall>va. lookup (ram s) (pgdir (ptable s0 ! 0)) va
        = (if PGROUNDDOWN va = 0 then V2P y OR PTE_W OR PTE_U OR PTE_P else kernel_entry (kernel_data_start k) va))
   \<and> (\<forall>a. \<not> in_block y 4096 a \<and> \<not> in_block 0x8DFFF000 4096 a \<and> \<not> in_block (boot_stack im) 16384 a \<longrightarrow> ram s a = ram s0 a)
   \<and> (\<forall>i. th = Run i \<longrightarrow> i = 0 \<and> cr3 s = V2P (pgdir (ptable s0 ! 0)) \<and> esp0 (ts (this_cpu s)) = 0x8E000000
        \<and> (\<forall>va. lookup (ram s) (P2V (cr3 s)) va AND PTE_U \<noteq> 0 \<longrightarrow> PGROUNDDOWN va = 0))"

lemma confined_isolated:
  assumes "starts im k P y s0" "confined im y s0 th s" "sched_inv th s"
  shows "isolated im k y s0 th s"
  unfolding isolated_def
proof (intro conjI allI impI)
  note us = confined_space [OF assms(1,2)]
  show "lookup (ram s) (pgdir (ptable s0 ! 0)) va = (if PGROUNDDOWN va = 0 then V2P y OR PTE_W OR PTE_U OR PTE_P
      else kernel_entry (kernel_data_start k) va)" for va using us by (simp add: user_space_def)
  show "\<not> in_block y 4096 a \<and> \<not> in_block 0x8DFFF000 4096 a \<and> \<not> in_block (boot_stack im) 16384 a \<Longrightarrow> ram s a = ram s0 a" for a
    using assms(1,2) by (simp add: confined_def touchable_def starts_def)
  fix i assume th: "th = Run i"
  have l: "i = 0" "loaded s = (V2P (pgdir (ptable s0 ! 0)), kstack (ptable s0 ! 0) + KSTACK_SIZE)"
    using run_first [OF assms(1), of i s] assms(2,3) th by simp_all
  show "i = 0" "cr3 s = V2P (pgdir (ptable s0 ! 0))" "esp0 (ts (this_cpu s)) = 0x8E000000"
    using l assms(1) by (simp_all add: loaded_def starts_def KSTACK_SIZE_def)
  show "lookup (ram s) (P2V (cr3 s)) va AND PTE_U \<noteq> 0 \<Longrightarrow> PGROUNDDOWN va = 0" for va
    using user_page_only [OF us] l by (simp add: loaded_def)
qed

lemma starts_isolated:
  assumes "starts im k P y s0" "sched_inv Sched_top s0" "msteps im idt_handlers (Sched_top, s0) es (th, s)"
  shows "isolated im k y s0 th s"
proof (rule confined_isolated [OF assms(1)])
  show "confined im y s0 th s" using msteps_confined [OF assms(3,1)] starts_confined [OF assms(1), of Sched_top] assms(2) by simp
  show "sched_inv th s" using msteps_inv [OF assms(3)] assms(2) by simp
qed

text \<open>C2: user code stays inside its page: from the entry of \<^verbatim>\<open>kernel_main\<close> on, through any sequence of thread
  steps, user stores, interrupts, exceptions and system calls, the address space of the first process is the one
  \<^verbatim>\<open>init_user\<close> built, entry by entry; memory changes only in the frame of its one page, its kernel stack and the
  scheduler's stack, so never in the kernel's code, a page table or a free page (the C variables are fields of the state); only this process ever runs, with its own directory
  loaded and the task segment naming the top of its own kernel stack; and the only addresses open to user mode are those of page 0.\<close>

theorem user_code_is_confined:
  fixes s :: "'a boot_scheme"
  assumes "booted s" "drive_ready (ports s)" "freelist s = 0" "kernel_fits k"
    and "tags_at (boot_screen (ram s)) (mbi + 8) tgs" "length (memory_map (mem_info s)) = 32"
      "\<forall>t \<in> set tgs. load32 (boot_screen (ram s)) t = MULTIBOOT_TAG_TYPE_MMAP \<longrightarrow> mmap_ok (boot_screen (ram s)) t"
    and "user_init_code im \<noteq> 0" "user_init_code_size im \<le> PGSIZE"
      "unat (user_init_code im) + unat (user_init_code_size im) \<le> unat (kernel_end k)"
    and "length (idt s) = 256" "unat (boot_stack im) + 16384 \<le> unat (kernel_end k)"
  shows "\<exists>hs th0 s0 y. kernel_main im k lay MULTIBOOT2_BOOTLOADER_MAGIC mbi (replicate IDT_ITEM_NUM None) s = Inr (hs, th0, s0)
    \<and> unat (kernel_end k) \<le> unat y \<and> aligned 12 y \<and> y \<noteq> 0x8DFFF000
    \<and> (\<forall>es th s1. msteps im hs (th0, s0) es (th, s1) \<longrightarrow> isolated im k y s0 th s1)"
proof -
  let ?h = "idt_handlers :: 'a boot_ext disk_ext isr option list"
  obtain s0 P y where s0: "kernel_main im k lay MULTIBOOT2_BOOTLOADER_MAGIC mbi (replicate IDT_ITEM_NUM None) s = Inr (?h, Sched_top, s0)"
    "sched_inv Sched_top s0" "starts im k P y s0"
    using boot_starts [OF assms, where 'h = "'a boot_ext disk_ext"] by blast
  have "unat (kernel_end k) \<le> unat y" "aligned 12 y" "y \<noteq> 0x8DFFF000"
    using starts_pages(1,2) [OF s0(3)] s0(3) by (auto simp: starts_def above_kernel_def)
  then show ?thesis using s0(1) starts_isolated [OF s0(3,2)] by blast
qed

theorem user_code_is_confined_witness:
  "\<exists>hs th0 s0 s1. kernel_main example_image example_sections \<lparr>stubs = (\<lambda>n. 0x80101000 + of_nat n * 16), idt_addr = 0x80113000, gdt_addr = 0x80114000\<rparr>
      MULTIBOOT2_BOOTLOADER_MAGIC 0x9000 (replicate IDT_ITEM_NUM None) example_machine = Inr (hs, th0, s0)
    \<and> mstep example_image hs (Irq 32) (th0, s0) (Inr (th0, s1))
    \<and> lookup (ram s1) (pgdir (ptable s0 ! 0)) 0 AND PTE_U \<noteq> 0 \<and> lookup (ram s1) (pgdir (ptable s0 ! 0)) 0x1000 = 0"
proof -
  let ?lay = "\<lparr>stubs = (\<lambda>n. 0x80101000 + of_nat n * 16), idt_addr = 0x80113000, gdt_addr = 0x80114000\<rparr>"
  let ?h = "idt_handlers :: unit boot_ext disk_ext isr option list"
  note b = example_boots(1-4) example_machine_tags(1) example_boots(5) example_machine_tags(2) example_boots(6-9)
  have bs: "unat (boot_stack example_image) + 16384 \<le> unat (kernel_end example_sections)" by (simp add: example_image_def example_sections_def)
  obtain s0 where s0: "kernel_main example_image example_sections ?lay MULTIBOOT2_BOOTLOADER_MAGIC 0x9000 (replicate IDT_ITEM_NUM None) example_machine
      = Inr (?h, Sched_top, s0)" "sched_inv Sched_top s0" "if_on s0"
    using kernel_main_boots [OF b, where 'h = "unit boot_ext disk_ext", of ?lay] by blast
  obtain s1 where m: "mstep example_image ?h (Irq 32) (Sched_top, s0) (Inr (Sched_top, s1))" using example_timer [OF s0(2,3)] by blast
  then have "msteps example_image ?h (Sched_top, s0) ([] @ [Irq 32]) (Sched_top, s1)" by (rule msteps.Snoc [OF msteps.Nil])
  moreover obtain y where "\<forall>es th s1. msteps example_image ?h (Sched_top, s0) es (th, s1) \<longrightarrow> isolated example_image example_sections y s0 th s1"
    using user_code_is_confined [OF b bs, of ?lay] s0(1) by auto
  ultimately have "isolated example_image example_sections y s0 Sched_top s1" by blast
  then have l: "lookup (ram s1) (pgdir (ptable s0 ! 0)) va = (if PGROUNDDOWN va = 0 then V2P y OR PTE_W OR PTE_U OR PTE_P
      else kernel_entry (kernel_data_start example_sections) va)" for va by (simp add: isolated_def)
  have "lookup (ram s1) (pgdir (ptable s0 ! 0)) 0 AND PTE_U \<noteq> 0 \<and> lookup (ram s1) (pgdir (ptable s0 ! 0)) 0x1000 = 0"
    unfolding l by (simp add: PGROUNDDOWN_def mmu_consts kernel_entry_def bit.conj_disj_distrib2)
  then show ?thesis using s0(1) m by blast
qed

end
