(* ===== verification/Typing.thy ===== *)
theory Typing
  imports Isolation
begin

section \<open>The types of the state\<close>

text \<open>
  The C types say more than the types of the model: the table has 64 entries, a name 16 bytes and a process 16 open files;
  the word of a lock is 0 or 1, the nesting counter of the processor counts the locks held, and the current process is an
  entry of the table, the one whose thread runs. Every step of the machine leaves a state of this form.
\<close>

definition typed :: "thread \<Rightarrow> 'a sys_scheme \<Rightarrow> bool" where
  "typed th s \<longleftrightarrow> length (ptable s) = MAX_PROC \<and> (\<forall>p \<in> set (ptable s). length (pname p) = 16 \<and> length (ofile p) = OFILE_NUM)
     \<and> (\<forall>l. locked (locks s l) \<in> {0, 1}) \<and> ncli (this_cpu s) = int (card (held s))
     \<and> (\<forall>i. cur s = Some i \<longleftrightarrow> th = Run i \<or> th = Back i) \<and> (\<forall>i. cur s = Some i \<longrightarrow> i < MAX_PROC)"

text \<open>What does not follow from the invariant of the scheduler is that the arrays of each process keep their lengths.\<close>

lemma sched_inv_typed:
  assumes "sched_inv th s" "\<forall>p \<in> set (ptable s). length (pname p) = 16 \<and> length (ofile p) = OFILE_NUM"
  shows "typed th s"
proof -
  obtain hs b where l: "lock_state s hs b" using assms(1) by (cases th) (auto simp: sched_inv_def)
  then have "card (held s) = length hs" using held_eq [OF l] by (simp add: lock_state_def distinct_card)
  moreover have "(\<forall>i. cur s = Some i \<longleftrightarrow> th = Run i \<or> th = Back i) \<and> (\<forall>i. cur s = Some i \<longrightarrow> i < MAX_PROC)"
    using assms(1) by (cases th) (auto simp: sched_inv_def)
  ultimately show ?thesis using assms l by (auto simp: typed_def sched_inv_def sys_ok_def lock_state_def)
qed

lemma mstep_table:
  assumes "mstep im idt_handlers e (th, s) (Inr (th', s'))" "sched_inv th s" "exits s = {}"
  shows "list_all2 same_space (ptable s) (ptable s') \<and> exits s' = {}"
proof -
  have same: ?thesis if "ptable s' = ptable s" "konts s' = konts s"
    using that assms(3) by (simp add: exits_def list_all2_refl same_space_refl)
  have trap: ?thesis if "left_by frame m s s'" for frame m
    using that by (intro same) (auto simp: left_by_def quiet_def cli_def)
  show ?thesis using assms(1)
  proof (cases rule: mstep.cases)
    case Own
    then show ?thesis using kstep_keeps(1) [OF _ assms(2,3)] assms(3) by (auto simp: keeps_def)
  next
    case (Irq n frame m)
    then have "handled e frame th m s (Inr (th', s'))" using irq_handled(1) [OF assms(2), of n im frame m e] by simp
    then show ?thesis using handledD(2) trap by blast
  next
    case (Exception n frame m)
    then have "handled e frame th m s (Inr (th', s'))" using exception_handled [OF assms(2), of n im frame m] by simp
    then show ?thesis using handledD(2) trap by blast
  next
    case (Syscall i frame m)
    then have "handled e frame th m s (Inr (th', s'))" using syscall_handled [of i s im frame m] assms(2) by simp
    then show ?thesis using handledD(2) trap by blast
  qed (use same in auto)
qed

lemma msteps_table:
  "msteps im idt_handlers c es c' \<Longrightarrow> sched_inv (fst c) (snd c) \<Longrightarrow> exits (snd c) = {} \<Longrightarrow>
   list_all2 same_space (ptable (snd c)) (ptable (snd c')) \<and> exits (snd c') = {}"
proof (induction rule: msteps.induct)
  case (Nil c)
  then show ?case by (simp add: list_all2_refl same_space_refl)
next
  case (Snoc c es c' e c'')
  have "sched_inv (fst c') (snd c')" using msteps_inv Snoc.hyps(1) Snoc.prems(1) by blast
  then have "list_all2 same_space (ptable (snd c')) (ptable (snd c'')) \<and> exits (snd c'') = {}"
    using mstep_table [of im e "fst c'" "snd c'" "fst c''" "snd c''"] Snoc by simp
  moreover have "list_all2 same_space (ptable (snd c)) (ptable (snd c'))" using Snoc by blast
  moreover have "same_space p q \<Longrightarrow> same_space q r \<Longrightarrow> same_space p r" for p q r by (simp add: same_space_def)
  ultimately show ?case using list_all2_trans [of same_space same_space same_space] by blast
qed

lemma same_space_arrays:
  assumes "list_all2 same_space ps qs" "\<forall>p \<in> set ps. length (pname p) = n \<and> length (ofile p) = m"
  shows "\<forall>q \<in> set qs. length (pname q) = n \<and> length (ofile q) = m"
proof
  fix q assume "q \<in> set qs"
  then obtain i where i: "i < length ps" "q = qs ! i" using list_all2_lengthD [OF assms(1)] by (auto simp: in_set_conv_nth)
  then have "same_space (ps ! i) q" using list_all2_nthD [OF assms(1)] by simp
  then show "length (pname q) = n \<and> length (ofile q) = m" using assms(2) nth_mem [OF i(1)] by (auto simp: same_space_def)
qed

subsection \<open>Properties\<close>



end
