(* ===== verification/Program.thy ===== *)
theory Program
  imports Isolation
begin

section \<open>The first program\<close>

text \<open>
  \<^verbatim>\<open>user/initcode.asm\<close>, the program of the first process: it opens \<^verbatim>\<open>path\<close>, writes \<^verbatim>\<open>msg_len\<close>
  bytes to the descriptor it got and stays where it is. \<open>init_open\<close> and \<open>init_write\<close> are the instructions before its two
  system calls, on the registers; the addresses and the length are the assembler's. \<open>user_call\<close> is \<^verbatim>\<open>int 0x80\<close>:
  the trap, the handler and the way back.
\<close>

definition init_open :: "u32 \<Rightarrow> regs \<Rightarrow> regs" where
  "init_open path r = r\<lparr>r_eax := 15, r_ebx := path, r_ecx := 0x200, r_eip := r_eip r + 17\<rparr>"

definition init_write :: "u32 \<Rightarrow> u32 \<Rightarrow> regs \<Rightarrow> regs" where
  "init_write path msg_len r = r\<lparr>r_ebx := r_eax r, r_eax := 16, r_ecx := path, r_edx := msg_len, r_eip := r_eip r + 19\<rparr>"

definition user_call :: "'a isr option list \<Rightarrow> nat \<Rightarrow> regs \<Rightarrow> 'a traps_scheme \<Rightarrow> (regs \<times> thread \<times> 'a traps_scheme) res" where
  "user_call hs i r s =
     (let c = trap_enter (ts (this_cpu s)) 128 (ram s, r)
      in bindR (trapped hs 128 (Run i) (r_esp (snd c)) (fst c) s) (\<lambda>(th, s').
           Inr (snd (trap_leave (ram s', snd c)), th, s')))"

lemma program_user_mode: "user_mode (init_open p r) = user_mode r" "user_mode (init_write p n r) = user_mode r"
  by (simp_all add: user_mode_def init_open_def init_write_def)

subsection \<open>The two calls\<close>

text \<open>The state of a process in user mode, with its own stack in the task segment.\<close>

definition in_user :: "nat \<Rightarrow> 'a traps_scheme \<Rightarrow> bool" where
  "in_user i s \<longleftrightarrow> sched_inv (Run i) s \<and> held s = {} \<and> if_on s \<and> aligned 12 (kstack (ptable s ! i))
     \<and> esp0 (ts (this_cpu s)) = kstack (ptable s ! i) + KSTACK_SIZE"

lemma user_frame_cells:
  assumes "in_user i s" "user_mode r" "c = trap_enter (ts (this_cpu s)) 128 (ram s, r)"
  shows "aligned 2 (esp0 (ts (this_cpu s)))" "takes im 128 (Run i) s (r_esp (snd c)) (fst c)"
    "load32 (fst c) (r_esp (snd c) + tf_eax) = r_eax r" "load32 (fst c) (r_esp (snd c) + tf_ebx) = r_ebx r"
proof -
  have e: "esp0 (ts (this_cpu s)) = kstack (ptable s ! i) + KSTACK_SIZE" "aligned 12 (kstack (ptable s ! i))"
    using assms(1) by (simp_all add: in_user_def)
  show al: "aligned 2 (esp0 (ts (this_cpu s)))" unfolding e(1) KSTACK_SIZE_def
    by (rule aligned_add [OF aligned_mono [OF e(2)]]) (simp_all add: aligned_def)
  show "takes im 128 (Run i) s (r_esp (snd c)) (fst c)" by (rule user_trap_takes [OF assms(2) e(2,1) assms(3)])
  show "load32 (fst c) (r_esp (snd c) + tf_eax) = r_eax r" "load32 (fst c) (r_esp (snd c) + tf_ebx) = r_ebx r"
    using trap_frame_cells [OF assms(2) al, of 128 "ram s", folded assms(3)] by (simp_all add: frame_offsets frame_steps)
qed

text \<open>In the kernel, after the gate: the handler is that of the system calls.\<close>

lemma trapped_syscall:
  assumes "load32 m (frame + tf_int_no) = of_nat 128"
  shows "trapped idt_handlers 128 (Run i) frame m s = bindR (syscall_handlers (Run i) frame ((cli s)\<lparr>ram := m\<rparr>)) (\<lambda>(th', s').
    Inr (th', if th' \<noteq> Run i then s' else s'\<lparr>eflags := eflags s\<rparr>))"
proof -
  have "isr_handler idt_handlers (Run i) frame ((cli s)\<lparr>ram := m\<rparr>) = isr_syscall_handler (Run i) frame ((cli s)\<lparr>ram := m\<rparr>)"
    using assms by (intro isr_handler_at [of 128]) (simp_all add: idt_list_def IDT_LIST_SYSCALL_def)
  then show ?thesis by (auto simp: trapped_def isr_syscall_handler_def error_code_vectors_def intro!: bindR_cong)
qed

lemma open_call:
  fixes s :: "'a traps_scheme"
  assumes "in_user i s" "user_mode r" "r_eax r = SYS_OPEN"
  shows "\<exists>s'. user_call idt_handlers i r s = Inr (r\<lparr>r_eax := - 1\<rparr>, Run i, s') \<and> in_user i s'
    \<and> mstep im idt_handlers (Syscall SYS_OPEN) (Run i, s) (Inr (Run i, s'))"
proof -
  define c where "c = trap_enter (ts (this_cpu s)) 128 (ram s, r)"
  let ?f = "r_esp (snd c)" and ?s = "(cli s)\<lparr>ram := fst c\<rparr>"
  note u = assms(1) [unfolded in_user_def]
  note f = user_frame_cells [OF assms(1,2) c_def]
  have i: "sched_inv (Run i) ?s" using entered_inv(1) u by blast
  have no: "load32 (ram ?s) (?f + tf_eax) \<notin> {SYS_EXIT, SYS_WRITE}" using f(3) assms(3) by (simp add: syscall_numbers)
  obtain s1 v where s1: "says ?s v s1" "syscall_handlers (Run i) ?f ?s = Inr (Run i, s1\<lparr>ram := store32 (ram s1) (?f + tf_eax) (- 1)\<rparr>)"
    using failing_says [OF i no] by blast
  let ?s' = "s1\<lparr>ram := store32 (fst c) (?f + tf_eax) (- 1), eflags := eflags s\<rparr>"
  have r1: "ram s1 = fst c" using says_simps(1) [OF s1(1)] by simp
  have t: "trapped idt_handlers 128 (Run i) ?f (fst c) s = Inr (Run i, ?s')"
    using trapped_syscall [of "fst c" ?f i s] f(2) s1(2) r1 by (simp add: takes_def)
  have "outcome (Syscall SYS_OPEN) (trapped idt_handlers 128 (Run i) ?f (fst c) s)"
    using handled_outcome [OF syscall_handled [OF _ _ f(2)]] u f(3) assms(3) by auto
  then have i': "sched_inv (Run i) ?s'" using t by (simp add: outcome_def)
  have q: "ptable s1 = ptable s" "cpus s1 = cpus s" "cpu_id s1 = cpu_id s" "locks s1 = locks s"
    using says_quiet(1) [OF s1(1)] by (simp_all add: quiet_def cli_def)
  then have iu: "in_user i ?s'" using u i' by (simp add: in_user_def held_def if_on_def c_cpu_def)
  have "mstep im idt_handlers (Syscall (load32 (fst c) (?f + tf_eax))) (Run i, s) (trapped idt_handlers 128 (Run i) ?f (fst c) s)"
    by (rule mstep.Syscall [OF _ _ f(2)]) (use u in simp_all)
  then have m: "mstep im idt_handlers (Syscall SYS_OPEN) (Run i, s) (Inr (Run i, ?s'))" using t f(3) assms(3) by simp
  have "user_call idt_handlers i r s = Inr (r\<lparr>r_eax := - 1\<rparr>, Run i, ?s')"
    using t user_registers_back [OF assms(2) f(1), of c 128 "ram s" "- 1"] by (simp add: user_call_def Let_def c_def [symmetric])
  then show ?thesis using iu m by blast
qed

lemma write_call:
  fixes s :: "'a traps_scheme"
  assumes "in_user i s" "user_mode r" "r_eax r = SYS_WRITE" "sint (r_ebx r) < 0"
  shows "user_call idt_handlers i r s = Inl (Undef ''ofile index'')"
proof -
  define c where "c = trap_enter (ts (this_cpu s)) 128 (ram s, r)"
  let ?f = "r_esp (snd c)" and ?s = "(cli s)\<lparr>ram := fst c\<rparr>"
  note u = assms(1) [unfolded in_user_def]
  note f = user_frame_cells [OF assms(1,2) c_def]
  have i: "sched_inv (Run i) ?s" using entered_inv(1) u by blast
  obtain t s1 where s1: "with_ports (serial_printf text_syscall [Word SYS_WRITE]) ?s = Inr s1" "says ?s t s1"
    using say_step [OF sched_inv_ok [OF i] text_syscall_printed(1)] by blast
  have "cur_proc (this_cpu s1) = Some i" using run_invD(2) [OF says_inv [OF s1(2) i]] by (simp add: cur_def)
  then have "syscall_handlers (Run i) ?f ?s = Inl (Undef ''ofile index'')"
    using s1(1) f(3,4) assms(3,4) by (simp add: syscall_handlers_def Let_def syscall_numbers sys_write_def)
  then have "trapped idt_handlers 128 (Run i) ?f (fst c) s = Inl (Undef ''ofile index'')"
    using trapped_syscall [of "fst c" ?f i s] f(2) by (simp add: takes_def)
  then show ?thesis by (simp add: user_call_def Let_def c_def [symmetric])
qed

subsection \<open>From boot to the program\<close>

text \<open>The scheduler's first two steps lead to the process, which leaves \<^verbatim>\<open>fork_ret\<close> with no lock and interrupts on.\<close>

lemma first_process_runs:
  fixes s0 :: "'a traps_scheme"
  assumes "starts im k P y s0" "sched_inv Sched_top s0" "state (ptable s0 ! 0) = RUNNABLE" "konts s0 0 = Fork_ret"
  shows "\<exists>s1. msteps im idt_handlers (Sched_top, s0) [Own, Own] (Run 0, s1) \<and> in_user 0 s1"
proof -
  obtain s1 where s1: "sched_top s0 = Inr (Scan 0, s1)" "sched_inv (Scan 0) s1" "ptable s1 = ptable s0" "konts s1 = konts s0"
    "lock_state s1 [Ptable_lock] True" using top_step [OF assms(2)] by blast
  obtain s2 where s2: "handed_to im 0 s1 s2" using scan_runnable [OF s1(2), of im] s1(3) assms(3) by (auto simp: MAX_PROC_def)
  then have h: "sched_inv (Run 0) s2" "lock_state s2 [Ptable_lock] True" "scan im 0 s1 = resume 0 s2" "konts s2 0 = Fork_ret"
    using s1(4,5) assms(4) by (simp_all add: handed_to_def)
  obtain s3 where s3: "fork_ret_body s2 = Inr s3" "sched_inv (Run 0) s3" "lock_state s3 [] True" using fork_ret_state [OF h(1,2)] by blast
  have "scan im 0 s1 = Inr (Run 0, s3)" using h(3,4) s3(1) by (simp add: resume_def)
  then have "mstep im idt_handlers Own (Sched_top, s0) (Inr (Scan 0, s1))" "mstep im idt_handlers Own (Scan 0, s1) (Inr (Run 0, s3))"
    using mstep.Own [OF kstep.Top [of im s0], of idt_handlers] mstep.Own [OF kstep.Scan [of im 0 s1], of idt_handlers] s1(1) by simp_all
  then have run: "msteps im idt_handlers (Sched_top, s0) [Own, Own] (Run 0, s3)"
    using msteps.Snoc [OF msteps.Snoc [OF msteps.Nil]] by fastforce
  have c: "confined im y s0 (Run 0) s3"
    using msteps_confined [OF run assms(1)] starts_confined [OF assms(1), of Sched_top] assms(2) by simp
  have "same_space (ptable s0 ! 0) (ptable s3 ! 0)" by (rule confined_proc [OF assms(1) c]) (simp add: MAX_PROC_def)
  then have k: "kstack (ptable s3 ! 0) = 0x8DFFF000" using assms(1) by (simp add: same_space_def starts_def)
  have "esp0 (ts (this_cpu s3)) = kstack (ptable s3 ! 0) + KSTACK_SIZE" using c by (simp add: confined_def loaded_def)
  moreover have "held s3 = {}" "if_on s3" using held_eq [OF s3(3)] s3(3) by (simp_all add: lock_state_def)
  ultimately have "in_user 0 s3" using s3(2) k by (simp add: in_user_def aligned_def)
  then show ?thesis using run by blast
qed

subsection \<open>Properties\<close>



end
