(* ===== verification/Mkfs.thy ===== *)
theory Mkfs
  imports DiskFormat
begin

section \<open>Building a file system image\<close>

text \<open>
  \<^verbatim>\<open>tools/mkfs.c\<close>, the program that runs on the host and writes the disk image: its static variables
  are the record \<open>mkfs\<close>, with the image file as the list of its sectors, since every access of the
  program is one whole sector at a multiple of the sector size. A write past the end grows the file with zeros; a
  read past the end leaves the buffer of the caller indeterminate, which is \<open>Undef\<close>. The files to put
  into the image are the host's: a name, whether it opens, and the pieces that \<^verbatim>\<open>read\<close> returns one
  after the other, the last one empty. A failing \<^verbatim>\<open>assert\<close> is a panic. The texts for the user are left out.
\<close>

definition INODES_NUM :: nat where "INODES_NUM = 200"
definition bitmap_num :: nat where "bitmap_num = unat FS_SIZE div BPB + 1"
definition inode_blocks_num :: nat where "inode_blocks_num = INODES_NUM div IPB + 1"

record mkfs =
  sectors :: "u8 list list"
  sb :: superblock
  freeinode :: u32
  freeblock :: u32
  indeterminate :: u32

record host_file =
  filename :: "u8 list"
  reads :: "u8 list list option"

definition zeroes :: "u8 list" where "zeroes = replicate (nat B_SIZE) 0"

definition fs_assert :: "bool \<Rightarrow> 'a res \<Rightarrow> 'a res" where
  "fs_assert c r = (if c then r else panic ''assert'')"

text \<open>Conversion to little endian, byte by byte. The upper half of \<^verbatim>\<open>xshort\<close>'s result is never set.\<close>

definition xshort :: "u32 \<Rightarrow> u16 \<Rightarrow> u32" where
  "xshort y x = word32_at (put_bytes (put_bytes (bytes32 y) 0 [ucast x]) 1 [ucast (drop_bit 8 x)]) 0"

definition xint :: "u32 \<Rightarrow> u32" where
  "xint x = word32_at [ucast x, ucast (drop_bit 8 x), ucast (drop_bit 16 x), ucast (drop_bit 24 x)] 0"

subsection \<open>Sectors and inodes\<close>

definition sector_of :: "u32 \<Rightarrow> nat" where
  "sector_of sec = unat (sec * of_int B_SIZE) div nat B_SIZE"

definition wsect :: "u32 \<Rightarrow> u8 list \<Rightarrow> 'a mkfs_scheme \<Rightarrow> 'a mkfs_scheme" where
  "wsect sec buf s =
     (let n = sector_of sec; xs = sectors s
      in s\<lparr>sectors := (if n < length xs then xs[n := buf] else xs @ replicate (n - length xs) zeroes @ [buf])\<rparr>)"

definition rsect :: "u32 \<Rightarrow> 'a mkfs_scheme \<Rightarrow> u8 list res" where
  "rsect sec s =
     (let n = sector_of sec in if n < length (sectors s) then Inr (sectors s ! n) else Inl (Undef ''indeterminate buffer''))"

definition rinode :: "u32 \<Rightarrow> 'a mkfs_scheme \<Rightarrow> dinode res" where
  "rinode inum s = bindR (rsect (IBLOCK inum (sb s)) s) (\<lambda>buf. Inr (dinode_at buf (sizeof_dinode * (unat inum mod IPB))))"

definition winode :: "u32 \<Rightarrow> dinode \<Rightarrow> 'a mkfs_scheme \<Rightarrow> 'a mkfs_scheme res" where
  "winode inum ip s =
     (let bn = IBLOCK inum (sb s)
      in bindR (rsect bn s) (\<lambda>buf. Inr (wsect bn (put_bytes buf (sizeof_dinode * (unat inum mod IPB)) (dinode_bytes ip)) s)))"

definition zero_dinode :: dinode where
  "zero_dinode = \<lparr>di_type = 0, di_major = 0, di_minor = 0, di_nlink = 0, di_size = 0, di_addrs = replicate (DIRECT_NUM + 1) 0\<rparr>"

definition ialloc :: "u16 \<Rightarrow> 'a mkfs_scheme \<Rightarrow> (u32 \<times> 'a mkfs_scheme) res" where
  "ialloc ty s =
     (let inum = freeinode s;
          s1 = s\<lparr>freeinode := freeinode s + 1\<rparr>;
          din = zero_dinode\<lparr>di_type := ucast (xshort (indeterminate s) ty), di_nlink := ucast (xshort (indeterminate s) 1), di_size := xint 0\<rparr>
      in bindR (winode inum din s1) (\<lambda>s2. Inr (inum, s2)))"

primrec mark_used :: "nat \<Rightarrow> u8 list \<Rightarrow> u8 list" where
  "mark_used 0 buf = buf"
| "mark_used (Suc i) buf = (let b = mark_used i buf in b[i div 8 := b ! (i div 8) OR push_bit (i mod 8) 1])"

definition balloc :: "int \<Rightarrow> 'a mkfs_scheme \<Rightarrow> 'a mkfs_scheme res" where
  "balloc used s = fs_assert (used < B_SIZE * 8) (Inr (wsect (bmapstart (sb s)) (mark_used (nat used) zeroes) s))"

subsection \<open>Appending to a file\<close>

text \<open>The block of the file with index \<open>fbn\<close>, allocated if there is none: directly in the inode, or in the block of
  indirect addresses.\<close>

definition direct_block :: "nat \<Rightarrow> dinode \<Rightarrow> 'a mkfs_scheme \<Rightarrow> dinode \<times> 'a mkfs_scheme" where
  "direct_block i din s =
     (if xint (di_addrs din ! i) = 0
      then (din\<lparr>di_addrs := (di_addrs din)[i := xint (freeblock s)]\<rparr>, s\<lparr>freeblock := freeblock s + 1\<rparr>) else (din, s))"

definition indirect_block :: "nat \<Rightarrow> dinode \<Rightarrow> 'a mkfs_scheme \<Rightarrow> (u32 \<times> 'a mkfs_scheme) res" where
  "indirect_block i din s =
     bindR (rsect (xint (di_addrs din ! DIRECT_NUM)) s) (\<lambda>indirect.
       if word32_at indirect (4 * i) = 0
       then (let indirect1 = put_bytes indirect (4 * i) (bytes32 (xint (freeblock s)))
             in Inr (xint (word32_at indirect1 (4 * i)),
                     wsect (xint (di_addrs din ! DIRECT_NUM)) indirect1 (s\<lparr>freeblock := freeblock s + 1\<rparr>)))
       else Inr (xint (word32_at indirect (4 * i)), s))"

definition file_block :: "nat \<Rightarrow> dinode \<Rightarrow> 'a mkfs_scheme \<Rightarrow> (u32 \<times> dinode \<times> 'a mkfs_scheme) res" where
  "file_block fbn din s =
     (if fbn < DIRECT_NUM
      then (let (din1, s1) = direct_block fbn din s in Inr (xint (di_addrs din1 ! fbn), din1, s1))
      else (let (din1, s1) = direct_block DIRECT_NUM din s
            in bindR (indirect_block (fbn - DIRECT_NUM) din1 s1) (\<lambda>(x, s2). Inr (x, din1, s2))))"

text \<open>What fits into the rest of the block at offset \<open>off\<close>.\<close>

definition piece :: "nat \<Rightarrow> u32 \<Rightarrow> nat" where
  "piece n off = min n (unat ((off div of_int B_SIZE + 1) * of_int B_SIZE - off))"

lemma piece_rest:
  fixes off :: u32
  shows "unat ((off div of_int B_SIZE + 1) * of_int B_SIZE - off) = 512 - unat off mod 512"
proof -
  have m: "unat (off mod 512) = unat off mod 512" by (simp add: unat_mod)
  have "off = off div 512 * 512 + off mod 512" by (rule div_mult_mod_eq [symmetric])
  then have "(off div 512 + 1) * 512 - off = 512 - off mod 512" by (simp add: algebra_simps)
  moreover have "unat (512 - off mod 512) = 512 - unat off mod 512"
  proof -
    have "unat (off mod 512) \<le> unat (512 :: u32)" unfolding m by simp
    then have "off mod 512 \<le> 512" by (simp only: word_le_nat_alt)
    then have "unat (512 - off mod 512) = unat (512 :: u32) - unat (off mod 512)" by (rule unat_sub)
    then show ?thesis by (simp only: m) simp
  qed
  ultimately show ?thesis by (simp only: fs_sizes of_int_numeral)
qed

lemma piece_eq: "piece n off = min n (512 - unat off mod 512)"
  by (simp add: piece_def piece_rest)

lemma piece_pos: "p \<noteq> [] \<Longrightarrow> 0 < piece (length p) off"
  by (simp add: piece_eq)

function iappend_loop :: "u8 list \<Rightarrow> u32 \<Rightarrow> dinode \<Rightarrow> 'a mkfs_scheme \<Rightarrow> (dinode \<times> u32 \<times> 'a mkfs_scheme) res" where
  "iappend_loop p off din s =
     (if p = [] then Inr (din, off, s)
      else (let fbn = unat (off div of_int B_SIZE)
            in if \<not> fbn < MAX_FILE then panic ''assert''
               else bindR (file_block fbn din s) (\<lambda>(x, din1, s1).
                    let n1 = piece (length p) off
                    in bindR (rsect x s1) (\<lambda>buf.
                       iappend_loop (drop n1 p) (off + of_nat n1) din1
                         (wsect x (put_bytes buf (unat (off mod of_int B_SIZE)) (take n1 p)) s1)))))"
  by pat_completeness auto
termination
  by (relation "measure (\<lambda>(p, off, din, s). length p)") (auto simp: piece_pos)

declare iappend_loop.simps [simp del]

definition iappend :: "u32 \<Rightarrow> u8 list \<Rightarrow> 'a mkfs_scheme \<Rightarrow> 'a mkfs_scheme res" where
  "iappend inum xp s =
     bindR (rinode inum s) (\<lambda>din.
     bindR (iappend_loop xp (xint (di_size din)) din s) (\<lambda>(din1, off, s1).
     winode inum (din1\<lparr>di_size := xint off\<rparr>) s1))"

subsection \<open>The program\<close>

definition entry_name :: "u8 list \<Rightarrow> u8 list" where
  "entry_name nm = take DIR_SIZE nm @ replicate (DIR_SIZE - length nm) 0"

definition add_entry :: "u32 \<Rightarrow> u32 \<Rightarrow> u8 list \<Rightarrow> 'a mkfs_scheme \<Rightarrow> 'a mkfs_scheme res" where
  "add_entry dir inum nm s =
     iappend dir (dirent_bytes \<lparr>de_inum = ucast (xshort (indeterminate s) (ucast inum)), de_name = entry_name nm\<rparr>) s"

fun append_reads :: "u32 \<Rightarrow> u8 list list \<Rightarrow> 'a mkfs_scheme \<Rightarrow> 'a mkfs_scheme res" where
  "append_reads inum [] s = Inr s"
| "append_reads inum (buf # bufs) s = (if buf = [] then Inr s else bindR (iappend inum buf s) (append_reads inum bufs))"

fun add_files :: "u32 \<Rightarrow> host_file list \<Rightarrow> 'a mkfs_scheme \<Rightarrow> (bool \<times> 'a mkfs_scheme) res" where
  "add_files root_ino [] s = Inr (True, s)"
| "add_files root_ino (f # fs) s =
     fs_assert (0x2F \<notin> set (filename f))
      (case reads f of None \<Rightarrow> Inr (False, s)
       | Some bufs \<Rightarrow> bindR (ialloc T_FILE s) (\<lambda>(inum, s1).
           bindR (add_entry root_ino inum (filename f) s1) (\<lambda>s2.
           bindR (append_reads inum bufs s2) (add_files root_ino fs))))"

primrec clear_sectors :: "nat \<Rightarrow> 'a mkfs_scheme \<Rightarrow> 'a mkfs_scheme" where
  "clear_sectors 0 s = s"
| "clear_sectors (Suc i) s = wsect (of_nat i) zeroes (clear_sectors i s)"

definition meta_num :: nat where
  "meta_num = 2 + unat LOG_SIZE + inode_blocks_num + bitmap_num"

definition new_superblock :: superblock where
  "new_superblock = \<lparr>sb_size = xint FS_SIZE, nblocks = xint (FS_SIZE - of_nat meta_num), ninodes = xint (of_nat INODES_NUM),
     nlog = xint LOG_SIZE, logstart = xint 2, inodestart = xint (2 + LOG_SIZE),
     bmapstart = xint (2 + LOG_SIZE + of_nat inode_blocks_num)\<rparr>"

text \<open>The empty file system: cleared disk, superblock and a root directory with its two entries.\<close>

definition format :: "'a mkfs_scheme \<Rightarrow> (u32 \<times> 'a mkfs_scheme) res" where
  "format s =
     (let s1 = s\<lparr>sb := new_superblock, freeblock := of_nat meta_num\<rparr>;
          s2 = clear_sectors (unat FS_SIZE) s1;
          s3 = wsect 1 (superblock_bytes (sb s2) @ replicate (nat B_SIZE - sizeof_superblock) 0) s2
      in bindR (ialloc T_DIR s3) (\<lambda>(root_ino, s4).
         fs_assert (root_ino = ROOT_INO)
          (bindR (add_entry root_ino root_ino [0x2E] s4) (\<lambda>s5.
           bindR (add_entry root_ino root_ino [0x2E, 0x2E] s5) (\<lambda>s6. Inr (root_ino, s6))))))"

text \<open>The end: the size of the root directory goes up to the next block, the bitmap is written.\<close>

definition finish :: "u32 \<Rightarrow> 'a mkfs_scheme \<Rightarrow> 'a mkfs_scheme res" where
  "finish root_ino s =
     bindR (rinode root_ino s) (\<lambda>din.
       let off = (xint (di_size din) div of_int B_SIZE + 1) * of_int B_SIZE
       in bindR (winode root_ino (din\<lparr>di_size := xint off\<rparr>) s) (\<lambda>s1. balloc (sint (freeblock s1)) s1))"

text \<open>\<^verbatim>\<open>main\<close>: \<open>img\<close> tells whether the name of the image was given and whether the file opens, empty.
  The result is the exit status.\<close>

definition mkfs_main :: "bool option \<Rightarrow> host_file list \<Rightarrow> 'a mkfs_scheme \<Rightarrow> (int \<times> 'a mkfs_scheme) res" where
  "mkfs_main img files s =
     (if img \<noteq> Some True then Inr (1, s)
      else bindR (format (s\<lparr>sectors := []\<rparr>)) (\<lambda>(root_ino, s1).
           bindR (add_files root_ino files s1) (\<lambda>(ok, s2).
           if \<not> ok then Inr (1, s2) else bindR (finish root_ino s2) (\<lambda>s3. Inr (0, s3)))))"

end
