(* ===== verification/Image.thy ===== *)
theory Image
  imports Mkfs
begin

section \<open>What the image holds\<close>

text \<open>
  The blocks of a file as a reader of the image finds them, through the addresses of its inode, and the
  invariant of the program: every block the image has given away belongs to one file and is one of its data blocks or
  its block of indirect addresses, everything from \<open>freeblock\<close> on is zero. Appending bytes to a file keeps this,
  adds the bytes to what the file holds, takes as many blocks as the longer file costs more, and changes no other block.
\<close>

subsection \<open>Block addresses\<close>

definition ptr :: "u8 list list \<Rightarrow> u32 list \<Rightarrow> nat \<Rightarrow> nat" where
  "ptr img ad i = (if i < 12 then unat (ad ! i) else if ad ! 12 = 0 then 0 else unat (word32_at (img ! unat (ad ! 12)) (4 * (i - 12))))"

definition owned :: "u8 list list \<Rightarrow> u32 list \<Rightarrow> nat \<Rightarrow> nat set" where
  "owned img ad n = ptr img ad ` {..<n} \<union> (if ad ! 12 \<noteq> 0 then {unat (ad ! 12)} else {})"

text \<open>The first \<open>n\<close> blocks of a file are there, no two the same, and nothing after them; \<open>h\<close> says
  whether it has a block of addresses.\<close>

definition mapped :: "u8 list list \<Rightarrow> u32 list \<Rightarrow> nat \<Rightarrow> bool \<Rightarrow> nat \<Rightarrow> bool" where
  "mapped img ad n h fb \<longleftrightarrow> length ad = 13 \<and> n \<le> 140 \<and> (\<forall>i < 140. ptr img ad i \<noteq> 0 \<longleftrightarrow> i < n) \<and> (ad ! 12 \<noteq> 0 \<longleftrightarrow> h) \<and> (12 < n \<longrightarrow> h)
     \<and> inj_on (ptr img ad) {..<n} \<and> (h \<longrightarrow> unat (ad ! 12) \<notin> ptr img ad ` {..<n}) \<and> (\<forall>b \<in> owned img ad n. 59 \<le> b \<and> b < fb)"

definition disk_ok :: "u8 list list \<Rightarrow> nat \<Rightarrow> bool" where
  "disk_ok img fb \<longleftrightarrow> length img = 1000 \<and> (\<forall>b < 1000. length (img ! b) = 512) \<and> 59 \<le> fb \<and> fb \<le> 1000
     \<and> (\<forall>b. fb \<le> b \<and> b < 1000 \<longrightarrow> img ! b = zeroes)"

definition holds :: "u8 list list \<Rightarrow> u32 list \<Rightarrow> u8 list \<Rightarrow> bool" where
  "holds img ad bs \<longleftrightarrow> (\<forall>k < length bs. img ! ptr img ad (k div 512) ! (k mod 512) = bs ! k)"

lemma ptr_cong: "(ad ! 12 \<noteq> 0 \<Longrightarrow> img' ! unat (ad ! 12) = img ! unat (ad ! 12)) \<Longrightarrow> ptr img' ad = ptr img ad"
  by (auto simp: ptr_def fun_eq_iff)

lemma mapped_cong:
  assumes "\<And>b. b \<in> owned img ad n \<Longrightarrow> img' ! b = img ! b" "fb \<le> fb'"
  shows "mapped img ad n h fb \<Longrightarrow> mapped img' ad n h fb'" "owned img' ad n = owned img ad n"
proof -
  have p: "ptr img' ad = ptr img ad" by (rule ptr_cong) (simp add: assms(1) owned_def)
  then show o: "owned img' ad n = owned img ad n" by (simp add: owned_def)
  show "mapped img ad n h fb \<Longrightarrow> mapped img' ad n h fb'" using assms(2) unfolding mapped_def p o by force
qed

lemma holds_cong:
  assumes "\<And>b. b \<in> owned img ad n \<Longrightarrow> img' ! b = img ! b" "length bs \<le> 512 * n" "holds img ad bs"
  shows "holds img' ad bs"
proof -
  have p: "ptr img' ad = ptr img ad" by (rule ptr_cong) (simp add: assms(1) owned_def)
  have "img' ! ptr img ad (k div 512) = img ! ptr img ad (k div 512)" if "k < length bs" for k
    using that assms(2) by (intro assms(1)) (auto simp: owned_def)
  then show ?thesis using assms(3) by (simp add: holds_def p)
qed

lemma word32_put:
  assumes "i < 128" "j < 128" "length b = 512"
  shows "word32_at (put_bytes b (4 * j) (bytes32 w)) (4 * i) = (if i = j then w else word32_at b (4 * i))"
proof (cases "i = j")
  case True
  have "word32_at (put_bytes b (4 * j) (bytes32 w)) (4 * j) = word32_at (bytes32 w) 0"
    using assms by (intro word32_at_cong) (simp add: put_bytes_nth)
  then show ?thesis using True by simp
next
  case False
  have "word32_at (put_bytes b (4 * j) (bytes32 w)) (4 * i) = word32_at b (4 * i)"
  proof (rule word32_at_cong)
    fix n :: nat assume n: "n < 4"
    have "\<not> (4 * j \<le> 4 * i + n \<and> 4 * i + n < 4 * j + 4)"
    proof (cases "i < j")
      case False
      then have "j < i" using \<open>i \<noteq> j\<close> by simp
      then show ?thesis by simp
    qed (use n in simp)
    then show "put_bytes b (4 * j) (bytes32 w) ! (4 * i + n) = b ! (4 * i + n)"
      using assms n by (subst put_bytes_nth) auto
  qed
  then show ?thesis using False by simp
qed

lemma inj_extend:
  assumes "inj_on f {..<n}" "\<And>i. i < n \<Longrightarrow> g i = f i" "g n \<notin> f ` {..<n}"
  shows "inj_on g {..<Suc n}"
proof -
  have "inj_on g {..<n} \<longleftrightarrow> inj_on f {..<n}" using assms(2) by (intro inj_on_cong) simp
  moreover have "g ` {..<n} = f ` {..<n}" using assms(2) by simp
  moreover have "{..<n} - {n} = {..<n}" by auto
  ultimately show ?thesis using assms(1,3) by (simp add: lessThan_Suc)
qed

subsection \<open>Linking a block\<close>

text \<open>The three ways a file gets a block: in the inode, as its block of addresses, in the block of addresses.\<close>

lemma mapped_direct:
  assumes m: "mapped img ad n False fb" and n: "n < 12" and fb: "59 \<le> fb" "fb < 1000"
  shows "mapped img (ad[n := of_nat fb]) (Suc n) False (Suc fb)" "ptr img (ad[n := of_nat fb]) = (ptr img ad)(n := fb)"
proof -
  have l: "length ad = 13" "ad ! 12 = 0" using m by (simp_all add: mapped_def)
  have u: "unat (of_nat fb :: u32) = fb" using fb by (simp add: unat_of_nat_u32)
  show p: "ptr img (ad[n := of_nat fb]) = (ptr img ad)(n := fb)" using l n u by (auto simp: ptr_def fun_eq_iff nth_list_update)
  have o: "\<forall>i < n. 59 \<le> ptr img ad i \<and> ptr img ad i < fb" using m by (auto simp: mapped_def owned_def)
  have "inj_on (ptr img ad) {..<n}" "fb \<notin> ptr img ad ` {..<n}" using m o by (auto simp: mapped_def)
  then have "inj_on ((ptr img ad)(n := fb)) {..<Suc n}" by (intro inj_extend [of "ptr img ad"]) simp_all
  then show "mapped img (ad[n := of_nat fb]) (Suc n) False (Suc fb)"
    using m n fb l o by (auto simp: mapped_def owned_def p less_Suc_eq)
qed

lemma mapped_table:
  assumes m: "mapped img ad 12 False fb" and fb: "59 \<le> fb" "fb < 1000" and z: "img ! fb = zeroes"
  shows "mapped img (ad[12 := of_nat fb]) 12 True (Suc fb)" "ptr img (ad[12 := of_nat fb]) i = (if i < 140 then ptr img ad i else ptr img (ad[12 := of_nat fb]) i)"
proof -
  have l: "length ad = 13" "ad ! 12 = 0" using m by (simp_all add: mapped_def)
  have u: "unat (of_nat fb :: u32) = fb" using fb by (simp add: unat_of_nat_u32)
  then have nz: "(of_nat fb :: u32) \<noteq> 0" using fb by (metis unat_0 not_numeral_le_zero)
  have "word32_at (img ! fb) (4 * (i - 12)) = 0" if "i < 140" for i
    using that by (simp add: z word32_at_def zeroes_def fs_sizes nth_replicate)
  then have p: "i < 140 \<Longrightarrow> ptr img (ad[12 := of_nat fb]) i = ptr img ad i" for i
    using l u by (auto simp: ptr_def nth_list_update)
  then show "ptr img (ad[12 := of_nat fb]) i = (if i < 140 then ptr img ad i else ptr img (ad[12 := of_nat fb]) i)" by simp
  have o: "\<forall>i < 12. 59 \<le> ptr img ad i \<and> ptr img ad i < fb" using m by (auto simp: mapped_def owned_def)
  have "inj_on (ptr img (ad[12 := of_nat fb])) {..<12}" using m p by (auto simp: mapped_def inj_on_def)
  then show "mapped img (ad[12 := of_nat fb]) 12 True (Suc fb)"
    using m fb l o p u nz by (auto simp: mapped_def owned_def)
qed

definition link_block :: "nat \<Rightarrow> u32 \<Rightarrow> u32 list \<Rightarrow> u8 list list \<Rightarrow> u8 list list" where
  "link_block n v ad img = (let a = unat (ad ! 12) in img[a := put_bytes (img ! a) (4 * (n - 12)) (bytes32 v)])"

lemma mapped_indirect:
  assumes m: "mapped img ad n True fb" and n: "12 \<le> n" "n < 140" and fb: "fb < 1000" and d: "disk_ok img fb"
  shows "mapped (link_block n (of_nat fb) ad img) ad (Suc n) True (Suc fb)"
    "i < 140 \<Longrightarrow> ptr (link_block n (of_nat fb) ad img) ad i = (if i = n then fb else ptr img ad i)"
proof -
  let ?img = "link_block n (of_nat fb) ad img" and ?a = "unat (ad ! 12)"
  have l: "length ad = 13" "ad ! 12 \<noteq> 0" using m by (simp_all add: mapped_def)
  have a: "59 \<le> ?a" "?a < fb" using m l by (auto simp: mapped_def owned_def)
  have u: "unat (of_nat fb :: u32) = fb" using fb by (simp add: unat_of_nat_u32)
  have "word32_at (?img ! ?a) (4 * (i - 12)) = (if i = n then of_nat fb else word32_at (img ! ?a) (4 * (i - 12)))" if "12 \<le> i" "i < 140" for i
    using d a fb n that word32_put [of "i - 12" "n - 12" "img ! ?a" "of_nat fb"] by (auto simp: link_block_def Let_def disk_ok_def)
  then have p: "i < 140 \<Longrightarrow> ptr ?img ad i = (if i = n then fb else ptr img ad i)" for i
    using l n u by (auto simp: ptr_def)
  then show "i < 140 \<Longrightarrow> ptr ?img ad i = (if i = n then fb else ptr img ad i)" .
  have o: "\<forall>i < n. 59 \<le> ptr img ad i \<and> ptr img ad i < fb" using m by (auto simp: mapped_def owned_def)
  have pn: "\<And>i. i < n \<Longrightarrow> ptr ?img ad i = ptr img ad i" "ptr ?img ad n = fb" using p n by auto
  have "inj_on (ptr img ad) {..<n}" "fb \<notin> ptr img ad ` {..<n}" using m o by (auto simp: mapped_def)
  then have "inj_on (ptr ?img ad) {..<Suc n}" using pn by (intro inj_extend [of "ptr img ad"]) simp_all
  moreover have "?a \<notin> ptr ?img ad ` {..<Suc n}" using m o pn a by (auto simp: mapped_def less_Suc_eq)
  moreover have "\<forall>b \<in> owned ?img ad (Suc n). 59 \<le> b \<and> b < Suc fb" using o pn a d by (auto simp: owned_def less_Suc_eq disk_ok_def)
  moreover have "\<forall>i < 140. ptr ?img ad i \<noteq> 0 \<longleftrightarrow> i < Suc n" using m p a by (auto simp: mapped_def)
  ultimately show "mapped ?img ad (Suc n) True (Suc fb)" using l n by (simp add: mapped_def)
qed

text \<open>Writing bytes into a data block, at the end of the content.\<close>

lemma ptr_frame:
  assumes "mapped img ad n h fb" "i < n"
  shows "ptr (img[ptr img ad i := b]) ad = ptr img ad"
proof (rule ptr_cong)
  assume "ad ! 12 \<noteq> 0"
  moreover have "ptr img ad i \<in> ptr img ad ` {..<n}" using assms(2) by simp
  ultimately have "ptr img ad i \<noteq> unat (ad ! 12)" using assms(1) unfolding mapped_def by metis
  then show "img[ptr img ad i := b] ! unat (ad ! 12) = img ! unat (ad ! 12)" by (simp add: nth_list_update)
qed

lemma block_index:
  fixes len n k :: nat
  assumes "len mod 512 + n \<le> 512" "len \<le> k" "k < len + n"
  shows "k div 512 = len div 512 \<and> k mod 512 = len mod 512 + (k - len)"
proof -
  define j where "j = k - len"
  have k: "k = 512 * (len div 512) + (len mod 512 + j)" using assms(2) by (simp add: j_def)
  have s: "len mod 512 + j < 512" using assms j_def by linarith
  have "512 * (len div 512) \<le> k" "k < 512 * Suc (len div 512)" unfolding mult_Suc_right using k s by linarith+
  then have d: "k div 512 = len div 512" by (rule div_nat_eqI)
  have "(512 * q + r) mod 512 = r mod 512" for q r :: nat by simp
  from this [of "len div 512" "len mod 512 + j"] have "k mod 512 = (len mod 512 + j) mod 512" unfolding k [symmetric] .
  then show ?thesis using d s by (simp only: mod_less j_def)
qed

lemma write_block:
  assumes m: "mapped img ad n h fb" and i: "length bs div 512 < n" and d: "disk_ok img fb"
    and c: "holds img ad bs" and f: "length bs mod 512 + length xs \<le> 512"
  defines "x \<equiv> ptr img ad (length bs div 512)"
  defines "img' \<equiv> img[x := put_bytes (img ! x) (length bs mod 512) xs]"
  shows "mapped img' ad n h fb" "holds img' ad (bs @ xs)" "disk_ok img' fb" "owned img' ad n = owned img ad n"
proof -
  have p: "ptr img' ad = ptr img ad" unfolding img'_def x_def by (rule ptr_frame [OF m i])
  then show o: "owned img' ad n = owned img ad n" by (simp add: owned_def)
  then show "mapped img' ad n h fb" using m by (simp add: mapped_def p)
  have x: "x \<in> owned img ad n" using i by (auto simp: owned_def x_def)
  then have xb: "59 \<le> x" "x < fb" "x < 1000" using m d by (auto simp: mapped_def disk_ok_def)
  have lx: "length (img ! x) = 512" "x < length img" using d xb by (auto simp: disk_ok_def)
  then show "disk_ok img' fb" using d xb f by (auto simp: disk_ok_def img'_def nth_list_update)
  show "holds img' ad (bs @ xs)" unfolding holds_def
  proof (intro allI impI)
    fix k assume k: "k < length (bs @ xs)"
    have q: "k div 512 < n" if "k div 512 \<le> length bs div 512" using that i by simp
    show "img' ! ptr img' ad (k div 512) ! (k mod 512) = (bs @ xs) ! k"
    proof (cases "k div 512 = length bs div 512")
      case True
      have "put_bytes (img ! x) (length bs mod 512) xs ! (k mod 512) = (bs @ xs) ! k"
      proof (cases "k < length bs")
        case lt: True
        then have "k mod 512 < length bs mod 512" using True by (metis add_less_cancel_left mult_div_mod_eq)
        moreover have "img ! x ! (k mod 512) = bs ! k" using c lt True by (auto simp: holds_def x_def)
        ultimately show ?thesis using lx f lt by (simp add: put_bytes_nth nth_append)
      next
        case ge: False
        define j where "j = k - length bs"
        have "k mod 512 = length bs mod 512 + j" using ge block_index [OF f, of k] k by (simp add: j_def)
        moreover have "j < length xs" using ge k by (auto simp: j_def)
        ultimately show ?thesis using lx f ge by (simp add: put_bytes_nth nth_append j_def [symmetric])
      qed
      then show ?thesis using lx unfolding p True x_def [symmetric] by (simp add: img'_def)
    next
      case False
      have lt: "k < length bs" using False block_index [OF f, of k] k by (cases "length bs \<le> k") auto
      then have "k div 512 \<le> length bs div 512" by (simp add: div_le_mono)
      moreover have "inj_on (ptr img ad) {..<n}" using m by (simp add: mapped_def)
      ultimately have "ptr img ad (k div 512) \<noteq> x" using False i q unfolding x_def by (metis inj_onD lessThan_iff)
      then show ?thesis using c lt unfolding p by (simp add: img'_def nth_list_update holds_def nth_append)
    qed
  qed
qed

subsection \<open>The block of a file\<close>

lemma xint_id [simp]: "xint x = x"
  using bytes32_word [of x] by (simp add: xint_def bytes32_def)

lemma xshort_id [simp]: "(ucast (xshort y x) :: u16) = x"
proof (rule bit_word_eqI)
  fix n assume "n < LENGTH(16)"
  then consider "n < 8" | "8 \<le> n" "n < 16" by force
  then show "bit (ucast (xshort y x) :: u16) n = bit x n"
    unfolding xshort_def word32_at_def put_bytes_def bytes32_def by cases (auto simp: bit_simps)
qed

lemma sector_of_small: "unat sec < 1000 \<Longrightarrow> sector_of sec = unat sec"
proof -
  assume "unat sec < 1000"
  then have "unat (sec * 512) = unat sec * 512" by (simp add: unat_word_ariths)
  then show ?thesis by (simp add: sector_of_def fs_sizes)
qed

lemma rsect_small: "unat sec < 1000 \<Longrightarrow> length (sectors s) = 1000 \<Longrightarrow> rsect sec s = Inr (sectors s ! unat sec)"
  by (simp add: rsect_def sector_of_small)

lemma wsect_small: "unat sec < 1000 \<Longrightarrow> length (sectors s) = 1000 \<Longrightarrow> wsect sec b s = s\<lparr>sectors := (sectors s)[unat sec := b]\<rparr>"
  by (simp add: wsect_def sector_of_small Let_def)

lemma wsect_linked:
  "unat sec < 1000 \<Longrightarrow> length img = 1000 \<Longrightarrow>
    wsect sec b (s\<lparr>sectors := img, freeblock := f\<rparr>) = s\<lparr>sectors := img[unat sec := b], freeblock := f\<rparr>"
  by (cases s) (simp add: wsect_def sector_of_small Let_def)

lemma disk_ok_upd: "disk_ok img fb \<Longrightarrow> b < fb' \<Longrightarrow> fb \<le> fb' \<Longrightarrow> fb' \<le> 1000 \<Longrightarrow> length xs = 512 \<Longrightarrow> disk_ok (img[b := xs]) fb'"
  by (auto simp: disk_ok_def nth_list_update)

lemma file_block_old:
  assumes m: "mapped (sectors s) (di_addrs din) n h fb" and i: "i < n" and d: "disk_ok (sectors s) fb"
  shows "\<exists>x. file_block i din s = Inr (x, din, s) \<and> unat x = ptr (sectors s) (di_addrs din) i"
proof -
  have p: "ptr (sectors s) (di_addrs din) i \<noteq> 0" using m i by (auto simp: mapped_def)
  show ?thesis
  proof (cases "i < 12")
    case True
    then have "di_addrs din ! i \<noteq> 0" using p by (auto simp: ptr_def)
    then show ?thesis using True by (simp add: file_block_def direct_block_def fs_sizes ptr_def)
  next
    case False
    let ?a = "di_addrs din ! 12"
    have a: "?a \<noteq> 0" "word32_at (sectors s ! unat ?a) (4 * (i - 12)) \<noteq> 0"
      using p False by (auto simp: ptr_def split: if_splits)
    then have "unat ?a < 1000" "length (sectors s) = 1000" using m d by (auto simp: mapped_def owned_def disk_ok_def)
    then show ?thesis using a False
      by (simp add: file_block_def direct_block_def indirect_block_def fs_sizes ptr_def rsect_small)
  qed
qed

text \<open>What a new block changes: it is taken from the free ones, and no block outside the file changes.\<close>

definition blocks_more :: "nat \<Rightarrow> nat" where
  "blocks_more n = (if n = 12 then 2 else 1)"

definition linked :: "u8 list list \<Rightarrow> u32 list \<Rightarrow> nat \<Rightarrow> nat \<Rightarrow> u8 list list \<Rightarrow> u32 list \<Rightarrow> bool" where
  "linked img ad n fb img' ad' \<longleftrightarrow> mapped img' ad' (Suc n) (12 < Suc n) (fb + blocks_more n) \<and> disk_ok img' (fb + blocks_more n)
     \<and> (\<forall>i < n. ptr img' ad' i = ptr img ad i \<and> img' ! ptr img ad i = img ! ptr img ad i)
     \<and> owned img' ad' (Suc n) \<subseteq> owned img ad n \<union> {fb..<fb + blocks_more n}
     \<and> (\<forall>b < fb. b \<notin> owned img ad n \<longrightarrow> img' ! b = img ! b)"

lemma mappedD:
  assumes "mapped img ad n h fb"
  shows "i < n \<Longrightarrow> 59 \<le> ptr img ad i" "i < n \<Longrightarrow> ptr img ad i < fb" "h \<Longrightarrow> i < n \<Longrightarrow> ptr img ad i \<noteq> unat (ad ! 12)"
    "h \<Longrightarrow> 59 \<le> unat (ad ! 12)" "h \<Longrightarrow> unat (ad ! 12) < fb" "h \<Longrightarrow> ad ! 12 \<noteq> 0" "\<not> h \<Longrightarrow> ad ! 12 = 0" "length ad = 13"
    "n \<le> j \<Longrightarrow> j < 140 \<Longrightarrow> ptr img ad j = 0" "n \<le> 140"
proof -
  have "h \<Longrightarrow> unat (ad ! 12) \<notin> ptr img ad ` {..<n}" using assms by (simp add: mapped_def)
  then show "h \<Longrightarrow> i < n \<Longrightarrow> ptr img ad i \<noteq> unat (ad ! 12)" by (metis imageI lessThan_iff)
qed (use assms in \<open>auto simp: mapped_def owned_def\<close>)

lemma owned_Suc:
  assumes "\<And>i. i < n \<Longrightarrow> ptr img' ad' i = ptr img ad i"
  shows "owned img' ad' (Suc n) = insert (ptr img' ad' n) (ptr img ad ` {..<n}) \<union> (if ad' ! 12 \<noteq> 0 then {unat (ad' ! 12)} else {})"
proof -
  have "ptr img' ad' ` {..<n} = ptr img ad ` {..<n}" using assms by simp
  then show ?thesis by (simp add: owned_def lessThan_Suc)
qed

lemma linked_direct:
  assumes m: "mapped img ad n False fb" and n: "n < 12" and d: "disk_ok img fb" "fb < 1000"
  shows "linked img ad n fb img (ad[n := of_nat fb])"
proof -
  have fb: "59 \<le> fb" using d by (simp add: disk_ok_def)
  note l = mapped_direct [OF m n fb d(2)]
  have "owned img (ad[n := of_nat fb]) (Suc n) \<subseteq> owned img ad n \<union> {fb..<Suc fb}"
    using n owned_Suc [of n img "ad[n := of_nat fb]" img ad] by (auto simp: owned_def l(2))
  then show ?thesis using l n d by (auto simp: linked_def blocks_more_def disk_ok_def)
qed

lemma indirect_block_new:
  assumes m: "mapped img (di_addrs din) n True fb" and n: "12 \<le> n" "n < 140" and d: "disk_ok img fb" "fb < 1000"
    and s: "sectors s = img" "freeblock s = of_nat fb"
  defines "img' \<equiv> link_block n (of_nat fb) (di_addrs din) img"
  shows "indirect_block (n - 12) din s = Inr (of_nat fb, s\<lparr>sectors := img', freeblock := of_nat (Suc fb)\<rparr>)"
proof -
  let ?a = "di_addrs din ! 12"
  have a: "unat ?a < 1000" "length img = 1000" "length (img ! unat ?a) = 512"
    using mappedD(5) [OF m] d by (auto simp: disk_ok_def)
  have z: "word32_at (img ! unat ?a) (4 * (n - 12)) = 0"
    using mappedD(9) [OF m, of n] mappedD(6) [OF m] n by (simp add: ptr_def unat_eq_zero split: if_splits)
  show ?thesis using a z n s word32_put [of "n - 12" "n - 12" "img ! unat ?a" "of_nat fb"]
    by (simp add: indirect_block_def fs_sizes rsect_small wsect_small img'_def link_block_def Let_def)
qed

lemma link_block_facts:
  assumes m: "mapped img ad n True fb" and n: "12 \<le> n" "n < 140" and d: "disk_ok img fb" "fb < 1000"
  defines "img' \<equiv> link_block n (of_nat fb) ad img"
  shows "mapped img' ad (Suc n) True (Suc fb)" "disk_ok img' (Suc fb)" "ptr img' ad n = fb" "\<And>b. b \<noteq> unat (ad ! 12) \<Longrightarrow> img' ! b = img ! b"
    "\<And>i. i < n \<Longrightarrow> ptr img' ad i = ptr img ad i" "\<And>i. i < n \<Longrightarrow> img' ! ptr img ad i = img ! ptr img ad i"
proof -
  show o: "\<And>b. b \<noteq> unat (ad ! 12) \<Longrightarrow> img' ! b = img ! b" by (simp add: img'_def link_block_def Let_def nth_list_update)
  show "mapped img' ad (Suc n) True (Suc fb)" "ptr img' ad n = fb" "\<And>i. i < n \<Longrightarrow> ptr img' ad i = ptr img ad i"
    using mapped_indirect [OF m n d(2,1)] n by (simp_all add: img'_def)
  show "\<And>i. i < n \<Longrightarrow> img' ! ptr img ad i = img ! ptr img ad i" using mappedD(3) [OF m] by (intro o) simp
  have "unat (ad ! 12) < fb" using mappedD(5) [OF m] by simp
  moreover from this have "length (img ! unat (ad ! 12)) = 512" using d by (auto simp: disk_ok_def)
  ultimately show "disk_ok img' (Suc fb)" unfolding img'_def link_block_def Let_def
    using d n by (intro disk_ok_upd [OF d(1)]) auto
qed

lemma linked_table:
  assumes m: "mapped img ad 12 False fb" and d: "disk_ok img fb" "Suc fb < 1000"
  shows "mapped img (ad[12 := of_nat fb]) 12 True (Suc fb)" "disk_ok img (Suc fb)"
    "linked img ad 12 fb (link_block 12 (of_nat (Suc fb)) (ad[12 := of_nat fb]) img) (ad[12 := of_nat fb])"
proof -
  let ?ad = "ad[12 := of_nat fb]" and ?img = "link_block 12 (of_nat (Suc fb)) (ad[12 := of_nat fb]) img"
  have fb: "59 \<le> fb" "img ! fb = zeroes" "fb < 1000" using d by (simp_all add: disk_ok_def)
  have a: "unat (?ad ! 12) = fb" using mappedD(8) [OF m] fb by (simp add: unat_of_nat_u32)
  note t = mapped_table [OF m fb(1,3,2)]
  show t1: "mapped img ?ad 12 True (Suc fb)" by (rule t(1))
  show d1: "disk_ok img (Suc fb)" using d by (simp add: disk_ok_def)
  note l = link_block_facts [OF t1 _ _ d1 d(2), simplified]
  have p: "ptr ?img ?ad i = ptr img ad i" if "i < 12" for i using l(5) [OF that] t(2) [of i] that by simp
  have "owned ?img ?ad (Suc 12) \<subseteq> owned img ad 12 \<union> {fb..<fb + 2}"
    using owned_Suc [of 12 ?img ?ad img ad, OF p] l(3) a by (auto simp: owned_def)
  moreover have "?img ! ptr img ad i = img ! ptr img ad i" if "i < 12" for i
    using mappedD(2) [OF m that] a l(4) [of "ptr img ad i"] by simp
  moreover have "?img ! b = img ! b" if "b < fb" for b using that a l(4) [of b] by simp
  ultimately show "linked img ad 12 fb ?img ?ad" using l(1,2) p by (simp add: linked_def blocks_more_def)
qed

lemma linked_indirect:
  assumes m: "mapped img ad n True fb" and n: "12 < n" "n < 140" and d: "disk_ok img fb" "fb < 1000"
  shows "linked img ad n fb (link_block n (of_nat fb) ad img) ad"
proof -
  let ?img = "link_block n (of_nat fb) ad img"
  note l = link_block_facts [OF m less_imp_le [OF n(1)] n(2) d]
  have "owned ?img ad (Suc n) \<subseteq> owned img ad n \<union> {fb..<Suc fb}"
    using owned_Suc [of n ?img ad img ad, OF l(5)] l(3) by (auto simp: owned_def)
  moreover have "b \<notin> owned img ad n \<Longrightarrow> ?img ! b = img ! b" for b using mappedD(6) [OF m] by (intro l(4)) (auto simp: owned_def)
  ultimately show ?thesis using l n by (simp add: linked_def blocks_more_def)
qed

lemma file_block_new:
  assumes m: "mapped (sectors s) (di_addrs din) n (12 < n) fb" and n: "n < 140" and d: "disk_ok (sectors s) fb"
    and fb: "freeblock s = of_nat fb" "fb + blocks_more n \<le> 1000"
  shows "\<exists>x ad' img'. file_block n din s = Inr (x, din\<lparr>di_addrs := ad'\<rparr>, s\<lparr>sectors := img', freeblock := of_nat (fb + blocks_more n)\<rparr>)
    \<and> unat x = ptr img' ad' n \<and> linked (sectors s) (di_addrs din) n fb img' ad'"
proof -
  let ?img = "sectors s" and ?ad = "di_addrs din"
  have b: "fb < 1000" "n = 12 \<Longrightarrow> Suc fb < 1000" using fb(2) by (simp_all add: blocks_more_def split: if_splits)
  have p0: "ptr ?img ?ad n = 0" using mappedD(9) [OF m _ n] by simp
  have len: "length ?ad = 13" by (rule mappedD(8) [OF m])
  have u: "unat (of_nat k :: u32) = k" if "k \<le> 1000" for k using that by (simp add: unat_of_nat_u32)
  consider (direct) "n < 12" | (table) "n = 12" | (indirect) "12 < n" by linarith
  then show ?thesis
  proof cases
    case direct
    then have "?ad ! n = 0" using p0 by (simp add: ptr_def unat_eq_zero)
    then have "file_block n din s = Inr (of_nat fb, din\<lparr>di_addrs := ?ad[n := of_nat fb]\<rparr>, s\<lparr>sectors := ?img, freeblock := of_nat (fb + 1)\<rparr>)"
      using direct len fb by (simp add: file_block_def direct_block_def fs_sizes)
    moreover have "linked ?img ?ad n fb ?img (?ad[n := of_nat fb])" using m direct d b by (intro linked_direct) simp_all
    ultimately show ?thesis using direct len u [of fb] b
      by (intro exI [of _ "of_nat fb"] exI [of _ "?ad[n := of_nat fb]"] exI [of _ ?img]) (simp add: blocks_more_def ptr_def)
  next
    case table
    let ?ad1 = "?ad[12 := of_nat fb]" and ?s1 = "s\<lparr>freeblock := of_nat (Suc fb)\<rparr>"
    have m1: "mapped ?img ?ad 12 False fb" using m table by simp
    note l = linked_table [OF m1 d b(2) [OF table]]
    have "indirect_block (12 - 12) (din\<lparr>di_addrs := ?ad1\<rparr>) ?s1
        = Inr (of_nat (Suc fb), ?s1\<lparr>sectors := link_block 12 (of_nat (Suc fb)) ?ad1 ?img, freeblock := of_nat (Suc (Suc fb))\<rparr>)"
      using indirect_block_new [of ?img "din\<lparr>di_addrs := ?ad1\<rparr>" 12 "Suc fb" ?s1] l(1,2) b table by simp
    then have "file_block n din s = Inr (of_nat (Suc fb), din\<lparr>di_addrs := ?ad1\<rparr>,
        s\<lparr>sectors := link_block 12 (of_nat (Suc fb)) ?ad1 ?img, freeblock := of_nat (fb + 2)\<rparr>)"
      using mappedD(7) [OF m1] fb(1) table by (simp add: file_block_def direct_block_def fs_sizes add.commute)
    moreover have "ptr (link_block 12 (of_nat (Suc fb)) ?ad1 ?img) ?ad1 12 = Suc fb"
      using link_block_facts(3) [OF l(1) _ _ l(2)] b table by simp
    ultimately show ?thesis using l(3) table u [of "Suc fb"] b
      by (intro exI [of _ "of_nat (Suc fb)"] exI [of _ ?ad1] exI [of _ "link_block 12 (of_nat (Suc fb)) ?ad1 ?img"])
        (simp add: blocks_more_def)
  next
    case indirect
    then have m1: "mapped ?img ?ad n True fb" using m by simp
    have "file_block n din s = Inr (of_nat fb, din\<lparr>di_addrs := ?ad\<rparr>, s\<lparr>sectors := link_block n (of_nat fb) ?ad ?img, freeblock := of_nat (fb + 1)\<rparr>)"
      using indirect_block_new [OF m1 _ n d b(1) refl fb(1)] mappedD(6) [OF m1] indirect
      by (simp add: file_block_def direct_block_def fs_sizes)
    moreover have "ptr (link_block n (of_nat fb) ?ad ?img) ?ad n = fb"
      using link_block_facts(3) [OF m1 _ n d b(1)] indirect by simp
    ultimately show ?thesis using linked_indirect [OF m1 indirect n d b(1)] indirect u [of fb] b
      by (intro exI [of _ "of_nat fb"] exI [of _ ?ad] exI [of _ "link_block n (of_nat fb) ?ad ?img"]) (simp add: blocks_more_def)
  qed
qed

subsection \<open>Appending\<close>

definition nblk :: "nat \<Rightarrow> nat" where
  "nblk len = (len + 511) div 512"

text \<open>The blocks a file of a length takes from the disk, its block of addresses included.\<close>

definition cost :: "nat \<Rightarrow> nat" where
  "cost len = nblk len + (if 12 < nblk len then 1 else 0)"

definition file_rep :: "u8 list list \<Rightarrow> u32 list \<Rightarrow> u8 list \<Rightarrow> nat \<Rightarrow> bool" where
  "file_rep img ad bs fb \<longleftrightarrow> mapped img ad (nblk (length bs)) (12 < nblk (length bs)) fb \<and> holds img ad bs"

definition file_blocks :: "u8 list list \<Rightarrow> u32 list \<Rightarrow> u8 list \<Rightarrow> nat set" where
  "file_blocks img ad bs = owned img ad (nblk (length bs))"

definition extends :: "u8 list list \<Rightarrow> u32 list \<Rightarrow> u8 list \<Rightarrow> nat \<Rightarrow> u8 list list \<Rightarrow> u32 list \<Rightarrow> u8 list \<Rightarrow> nat \<Rightarrow> bool" where
  "extends img ad bs fb img' ad' bs' fb' \<longleftrightarrow> file_rep img' ad' bs' fb' \<and> disk_ok img' fb' \<and> fb' + cost (length bs) = fb + cost (length bs') \<and> fb \<le> fb'
     \<and> file_blocks img' ad' bs' \<subseteq> file_blocks img ad bs \<union> {fb..<fb'} \<and> (\<forall>b < fb. b \<notin> file_blocks img ad bs \<longrightarrow> img' ! b = img ! b)"

lemma extends_refl: "file_rep img ad bs fb \<Longrightarrow> disk_ok img fb \<Longrightarrow> extends img ad bs fb img ad bs fb"
  by (simp add: extends_def)

lemma extends_trans:
  assumes "extends img ad bs fb img1 ad1 bs1 fb1" "extends img1 ad1 bs1 fb1 img2 ad2 bs2 fb2"
  shows "extends img ad bs fb img2 ad2 bs2 fb2"
proof -
  have "fb2 + cost (length bs) = fb + cost (length bs2)" "fb \<le> fb2" using assms unfolding extends_def by linarith+
  moreover have "file_blocks img2 ad2 bs2 \<subseteq> file_blocks img ad bs \<union> {fb..<fb2}" using assms unfolding extends_def by fastforce
  moreover have "img2 ! b = img ! b" if "b < fb" "b \<notin> file_blocks img ad bs" for b
  proof -
    have "b \<notin> file_blocks img1 ad1 bs1" "b < fb1" using assms(1) that unfolding extends_def by auto
    then show ?thesis using assms that unfolding extends_def by metis
  qed
  ultimately show ?thesis using assms(2) by (simp add: extends_def)
qed

lemma nblk_cases:
  "len mod 512 = 0 \<Longrightarrow> nblk len = len div 512" "len mod 512 \<noteq> 0 \<Longrightarrow> nblk len = Suc (len div 512)"
proof -
  have e: "len = 512 * (len div 512) + len mod 512" by simp
  have l: "len mod 512 < 512" by simp
  show "len mod 512 = 0 \<Longrightarrow> nblk len = len div 512" unfolding nblk_def
    by (intro div_nat_eqI; (unfold mult_Suc_right)?) (use e in linarith)+
  show "len mod 512 \<noteq> 0 \<Longrightarrow> nblk len = Suc (len div 512)" unfolding nblk_def
    by (intro div_nat_eqI; unfold mult_Suc_right) (use e l in linarith)+
qed

lemma nblk_piece:
  assumes "0 < k" "len mod 512 + k \<le> 512"
  shows "nblk (len + k) = Suc (len div 512)"
proof -
  have "len = 512 * (len div 512) + len mod 512" by simp
  then show ?thesis unfolding nblk_def using assms by (intro div_nat_eqI; unfold mult_Suc_right) linarith+
qed

lemma cost_piece:
  assumes "0 < k" "len mod 512 + k \<le> 512"
  shows "cost (len + k) = cost len + (if len mod 512 = 0 then blocks_more (len div 512) else 0)"
  using nblk_piece [OF assms] nblk_cases [of len] by (auto simp: cost_def blocks_more_def)

lemma cost_mono: "a \<le> b \<Longrightarrow> cost a \<le> cost b"
proof -
  assume "a \<le> b"
  then have "nblk a \<le> nblk b" by (simp add: nblk_def div_le_mono)
  then show ?thesis by (auto simp: cost_def)
qed

text \<open>The block for the next piece: there already, or linked now.\<close>

lemma file_block_step:
  assumes r: "file_rep (sectors s) (di_addrs din) bs fb" and d: "disk_ok (sectors s) fb" and fb: "freeblock s = of_nat fb"
    and len: "length bs < 71680" and k: "0 < k" "length bs mod 512 + k \<le> 512"
    and room: "fb + cost (length bs + k) \<le> 1000 + cost (length bs)"
  shows "\<exists>x ad' img' fb'. file_block (length bs div 512) din s = Inr (x, din\<lparr>di_addrs := ad'\<rparr>, s\<lparr>sectors := img', freeblock := of_nat fb'\<rparr>)
    \<and> unat x = ptr img' ad' (length bs div 512) \<and> mapped img' ad' (Suc (length bs div 512)) (12 < Suc (length bs div 512)) fb'
    \<and> disk_ok img' fb' \<and> holds img' ad' bs \<and> fb' + cost (length bs) = fb + cost (length bs + k) \<and> fb \<le> fb'
    \<and> owned img' ad' (Suc (length bs div 512)) \<subseteq> file_blocks (sectors s) (di_addrs din) bs \<union> {fb..<fb'}
    \<and> (\<forall>b < fb. b \<notin> file_blocks (sectors s) (di_addrs din) bs \<longrightarrow> img' ! b = sectors s ! b)"
proof (cases "length bs mod 512 = 0")
  case True
  let ?n = "length bs div 512" and ?img = "sectors s" and ?ad = "di_addrs din"
  have n: "nblk (length bs) = ?n" by (rule nblk_cases(1) [OF True])
  have q: "?n < 140" using len by (simp add: less_mult_imp_div_less)
  have c: "cost (length bs + k) = cost (length bs) + blocks_more ?n" using cost_piece [OF k] True by simp
  obtain x ad' img' where f: "file_block ?n din s = Inr (x, din\<lparr>di_addrs := ad'\<rparr>, s\<lparr>sectors := img', freeblock := of_nat (fb + blocks_more ?n)\<rparr>)"
    "unat x = ptr img' ad' ?n" "linked ?img ?ad ?n fb img' ad'"
    using file_block_new [of s din ?n fb] r d fb q room c n by (auto simp: file_rep_def)
  have "holds img' ad' bs" unfolding holds_def
  proof (intro allI impI)
    fix j assume j: "j < length bs"
    have "length bs = 512 * ?n" using True by (simp add: mod_eq_0_iff_dvd)
    then have "j div 512 < ?n" using j by (simp add: less_mult_imp_div_less mult.commute)
    then show "img' ! ptr img' ad' (j div 512) ! (j mod 512) = bs ! j"
      using f(3) r j by (simp add: linked_def file_rep_def holds_def)
  qed
  then show ?thesis using f c n by (intro exI [of _ x] exI [of _ ad'] exI [of _ img'] exI [of _ "fb + blocks_more ?n"]) (simp add: linked_def file_blocks_def)
next
  case False
  let ?n = "length bs div 512" and ?img = "sectors s" and ?ad = "di_addrs din"
  have n: "nblk (length bs) = Suc ?n" by (rule nblk_cases(2) [OF False])
  have c: "cost (length bs + k) = cost (length bs)" using cost_piece [OF k] False by simp
  have m: "mapped ?img ?ad (Suc ?n) (12 < Suc ?n) fb" "holds ?img ?ad bs" using r n by (simp_all add: file_rep_def)
  obtain x where f: "file_block ?n din s = Inr (x, din, s)" "unat x = ptr ?img ?ad ?n"
    using file_block_old [OF m(1) _ d, of ?n] by auto
  then show ?thesis using m d c n fb
    by (intro exI [of _ x] exI [of _ ?ad] exI [of _ ?img] exI [of _ fb]) (simp add: file_blocks_def)
qed

lemma iappend_loop_step:
  assumes r: "file_rep (sectors s) (di_addrs din) bs fb" and d: "disk_ok (sectors s) fb" and fb: "freeblock s = of_nat fb"
    and p: "p \<noteq> []" and lt: "length bs < 71680"
    and room: "fb + cost (min 71680 (length bs + length p)) \<le> 1000 + cost (length bs)"
  shows "\<exists>k ad' img' fb'. 0 < k \<and> k \<le> length p \<and> length bs + k \<le> 71680
    \<and> iappend_loop p (of_nat (length bs)) din s
        = iappend_loop (drop k p) (of_nat (length bs + k)) (din\<lparr>di_addrs := ad'\<rparr>) (s\<lparr>sectors := img', freeblock := of_nat fb'\<rparr>)
    \<and> extends (sectors s) (di_addrs din) bs fb img' ad' (bs @ take k p) fb'"
proof -
  let ?n = "length bs div 512" and ?k = "piece (length p) (of_nat (length bs))" and ?m = "length bs mod 512"
  have u: "unat (of_nat (length bs) :: u32) = length bs" using lt by (simp add: unat_of_nat_u32)
  have k: "?k = min (length p) (512 - ?m)" by (simp only: piece_eq u)
  have kp: "0 < ?k" using piece_pos [OF p] .
  have kf: "?m + ?k \<le> 512" "?k \<le> length p" unfolding k by simp_all
  have w: "unat ((of_nat (length bs) :: u32) div 512) = ?n" "unat ((of_nat (length bs) :: u32) mod 512) = ?m"
    using u by (simp_all add: unat_div unat_mod)
  have q: "?n < 140" using lt by (simp add: less_mult_imp_div_less)
  have "512 * ?n + ?m = length bs" by simp
  then have kl: "length bs + ?k \<le> 71680" using q kf(1) by linarith
  then have "cost (length bs + ?k) \<le> cost (min 71680 (length bs + length p))" using kf by (intro cost_mono) simp
  then have "fb + cost (length bs + ?k) \<le> 1000 + cost (length bs)" using room by linarith
  from file_block_step [OF r d fb lt kp kf(1) this] obtain x ad' img' fb' where
    f: "file_block ?n din s = Inr (x, din\<lparr>di_addrs := ad'\<rparr>, s\<lparr>sectors := img', freeblock := of_nat fb'\<rparr>)" "unat x = ptr img' ad' ?n"
      "mapped img' ad' (Suc ?n) (12 < Suc ?n) fb'" "disk_ok img' fb'" "holds img' ad' bs" "fb' + cost (length bs) = fb + cost (length bs + ?k)" "fb \<le> fb'"
      "owned img' ad' (Suc ?n) \<subseteq> file_blocks (sectors s) (di_addrs din) bs \<union> {fb..<fb'}"
      "\<forall>b < fb. b \<notin> file_blocks (sectors s) (di_addrs din) bs \<longrightarrow> img' ! b = sectors s ! b" by blast
  have xl: "unat x < 1000" "length img' = 1000" using mappedD(2) [OF f(3), of ?n] f(2,4) by (auto simp: disk_ok_def)
  define img2 where "img2 = img'[unat x := put_bytes (img' ! unat x) ?m (take ?k p)]"
  have lk: "length (take ?k p) = ?k" using kf by simp
  have wr: "mapped img2 ad' (Suc ?n) (12 < Suc ?n) fb'" "holds img2 ad' (bs @ take ?k p)" "disk_ok img2 fb'" "owned img2 ad' (Suc ?n) = owned img' ad' (Suc ?n)"
    using write_block [OF f(3) _ f(4,5), of "take ?k p"] kf(1) lk unfolding img2_def f(2) by simp_all
  have nb: "nblk (length bs + ?k) = Suc ?n" by (rule nblk_piece [OF kp kf(1)])
  have "unat x \<in> file_blocks (sectors s) (di_addrs din) bs \<union> {fb..<fb'}"
    using f(2,8) by (auto simp: owned_def)
  then have fr: "\<forall>b < fb. b \<notin> file_blocks (sectors s) (di_addrs din) bs \<longrightarrow> img2 ! b = sectors s ! b"
    using f(9) unfolding img2_def by (metis UnE atLeastLessThan_iff leD nth_list_update_neq)
  have "extends (sectors s) (di_addrs din) bs fb img2 ad' (bs @ take ?k p) fb'"
    using wr f fr nb lk by (simp add: extends_def file_rep_def file_blocks_def)
  moreover have "iappend_loop p (of_nat (length bs)) din s
      = iappend_loop (drop ?k p) (of_nat (length bs + ?k)) (din\<lparr>di_addrs := ad'\<rparr>) (s\<lparr>sectors := img2, freeblock := of_nat fb'\<rparr>)"
    using p q f(1) w xl by (subst iappend_loop.simps) (simp add: fs_sizes rsect_small wsect_linked img2_def Let_def)
  ultimately show ?thesis using kp kf(2) kl by (intro exI [of _ ?k] exI [of _ ad'] exI [of _ img2] exI [of _ fb']) simp
qed

lemma iappend_loop_writes:
  assumes "file_rep (sectors s) (di_addrs din) bs fb" "disk_ok (sectors s) fb" "freeblock s = of_nat fb"
    "length bs + length p \<le> 71680" "fb + cost (length bs + length p) \<le> 1000 + cost (length bs)"
  shows "\<exists>ad' img' fb'. iappend_loop p (of_nat (length bs)) din s
      = Inr (din\<lparr>di_addrs := ad'\<rparr>, of_nat (length bs + length p), s\<lparr>sectors := img', freeblock := of_nat fb'\<rparr>)
    \<and> extends (sectors s) (di_addrs din) bs fb img' ad' (bs @ p) fb'"
  using assms
proof (induction "length p" arbitrary: p bs din s fb rule: less_induct)
  case less
  show ?case
  proof (cases "p = []")
    case True
    then show ?thesis using less.prems
      by (intro exI [of _ "di_addrs din"] exI [of _ "sectors s"] exI [of _ fb]) (simp add: iappend_loop.simps extends_refl)
  next
    case False
    have "length bs < 71680" "min 71680 (length bs + length p) = length bs + length p" using False less.prems(4) by (cases p; simp)+
    then obtain k ad1 img1 fb1 where
      k: "0 < k" "k \<le> length p" and l: "iappend_loop p (of_nat (length bs)) din s
        = iappend_loop (drop k p) (of_nat (length bs + k)) (din\<lparr>di_addrs := ad1\<rparr>) (s\<lparr>sectors := img1, freeblock := of_nat fb1\<rparr>)"
      and e: "extends (sectors s) (di_addrs din) bs fb img1 ad1 (bs @ take k p) fb1"
      using iappend_loop_step [OF less.prems(1-3) False] less.prems(5) by metis
    let ?s = "s\<lparr>sectors := img1, freeblock := of_nat fb1\<rparr>" and ?d = "din\<lparr>di_addrs := ad1\<rparr>" and ?bs = "bs @ take k p"
    have len: "length ?bs = length bs + k" "length ?bs + length (drop k p) = length bs + length p" using k by simp_all
    have "fb1 + cost (length bs + length p) \<le> 1000 + cost (length ?bs)"
      using e less.prems(5) by (simp add: extends_def)
    moreover have "file_rep (sectors ?s) (di_addrs ?d) ?bs fb1" "disk_ok (sectors ?s) fb1" "freeblock ?s = of_nat fb1" "length (drop k p) < length p"
      using e k by (simp_all add: extends_def)
    ultimately obtain ad' img' fb' where i: "iappend_loop (drop k p) (of_nat (length ?bs)) ?d ?s
        = Inr (?d\<lparr>di_addrs := ad'\<rparr>, of_nat (length bs + length p), ?s\<lparr>sectors := img', freeblock := of_nat fb'\<rparr>)"
      "extends img1 ad1 ?bs fb1 img' ad' (?bs @ drop k p) fb'"
      using less.hyps [of "drop k p" ?s ?d ?bs fb1] less.prems(4) unfolding len(2) by auto
    have "bs @ p = ?bs @ drop k p" by simp
    then have "extends (sectors s) (di_addrs din) bs fb img' ad' (bs @ p) fb'" using extends_trans [OF e i(2)] by simp
    then show ?thesis using l i(1) len(1) by auto
  qed
qed

text \<open>A file cannot grow past its 140 blocks: the assertion fails.\<close>

lemma iappend_loop_too_big:
  assumes "file_rep (sectors s) (di_addrs din) bs fb" "disk_ok (sectors s) fb" "freeblock s = of_nat fb"
    "length bs \<le> 71680" "71680 < length bs + length p" "fb + cost 71680 \<le> 1000 + cost (length bs)"
  shows "iappend_loop p (of_nat (length bs)) din s = panic ''assert''"
  using assms
proof (induction "length p" arbitrary: p bs din s fb rule: less_induct)
  case less
  have p: "p \<noteq> []" using less.prems(4,5) by auto
  show ?case
  proof (cases "length bs = 71680")
    case True
    have "unat (of_nat 71680 div 512 :: u32) = 140" by simp
    then show ?thesis using p True by (subst iappend_loop.simps) (simp add: fs_sizes)
  next
    case False
    then have lt: "length bs < 71680" "min 71680 (length bs + length p) = 71680" using less.prems(4,5) by simp_all
    then obtain k ad1 img1 fb1 where
      k: "0 < k" "k \<le> length p" "length bs + k \<le> 71680" and l: "iappend_loop p (of_nat (length bs)) din s
        = iappend_loop (drop k p) (of_nat (length bs + k)) (din\<lparr>di_addrs := ad1\<rparr>) (s\<lparr>sectors := img1, freeblock := of_nat fb1\<rparr>)"
      and e: "extends (sectors s) (di_addrs din) bs fb img1 ad1 (bs @ take k p) fb1"
      using iappend_loop_step [OF less.prems(1-3) p] less.prems(6) by metis
    let ?s = "s\<lparr>sectors := img1, freeblock := of_nat fb1\<rparr>" and ?d = "din\<lparr>di_addrs := ad1\<rparr>" and ?bs = "bs @ take k p"
    have len: "length ?bs = length bs + k" using k by simp
    have "iappend_loop (drop k p) (of_nat (length ?bs)) ?d ?s = panic ''assert''"
      using e k less.prems(5,6) by (intro less.hyps [where fb = fb1]) (simp_all add: extends_def)
    then show ?thesis using l unfolding len by simp
  qed
qed

end
