(* ===== verification/FileSystem.thy ===== *)
theory FileSystem
  imports Image
begin

section \<open>The file system mkfs builds\<close>

text \<open>
  A file system is the list of its files in the order of their inodes, each a type and a content. \<open>fs_rep\<close>
  relates the state of the program to that list; every operation of the program does to the image what
  the operation on the list says, and the whole program leaves an image that holds the files it was given.
\<close>

subsection \<open>Inodes on disk\<close>

definition inode_of :: "u8 list list \<Rightarrow> nat \<Rightarrow> dinode" where
  "inode_of img i = dinode_at (img ! (32 + i div 8)) (64 * (i mod 8))"

definition set_inode :: "nat \<Rightarrow> dinode \<Rightarrow> u8 list list \<Rightarrow> u8 list list" where
  "set_inode i d img = (let b = 32 + i div 8 in img[b := put_bytes (img ! b) (64 * (i mod 8)) (dinode_bytes d)])"

lemma meta_sizes: "meta_num = 59" "inode_blocks_num = 26" "bitmap_num = 1" "inodestart new_superblock = 32" "bmapstart new_superblock = 58"
  by (simp_all add: meta_num_def inode_blocks_num_def bitmap_num_def INODES_NUM_def fs_sizes FS_SIZE_def new_superblock_def)

lemma inode_slot: "i < 208 \<Longrightarrow> 32 + i div 8 < 58" "64 * (i mod 8) + 64 \<le> (512 :: nat)"
proof -
  assume "i < 208"
  then have "i div 8 < 26" by (simp add: less_mult_imp_div_less)
  then show "32 + i div 8 < 58" by simp
next
  have "i mod 8 < 8" by simp
  then show "64 * (i mod 8) + 64 \<le> (512 :: nat)" by linarith
qed

lemma inode_set:
  assumes "disk_ok img fb" "length (di_addrs d) = 13" "i < 208" "j < 208"
  shows "inode_of (set_inode i d img) j = (if j = i then d else inode_of img j)"
proof -
  have b: "32 + i div 8 < length img" "length (img ! (32 + i div 8)) = 512"
    using assms(1) inode_slot(1) [OF assms(3)] by (auto simp: disk_ok_def)
  show ?thesis
  proof (cases "j div 8 = i div 8")
    case True
    then have e: "j = i \<longleftrightarrow> j mod 8 = i mod 8" by (metis mult_div_mod_eq)
    show ?thesis using True b e dinode_put_same [OF assms(2), of "64 * (i mod 8)" "img ! (32 + i div 8)"] inode_slot(2) [of i]
        dinode_put_other [OF assms(2), of "j mod 8" "i mod 8" "img ! (32 + i div 8)"]
      by (simp add: inode_of_def set_inode_def Let_def)
  next
    case False
    then show ?thesis by (auto simp: inode_of_def set_inode_def Let_def)
  qed
qed

lemma set_inode_other: "b < 32 \<or> 58 \<le> b \<Longrightarrow> i < 208 \<Longrightarrow> set_inode i d img ! b = img ! b"
  using inode_slot(1) [of i] by (auto simp: set_inode_def Let_def nth_list_update)

lemma set_inode_disk: "disk_ok img fb \<Longrightarrow> i < 208 \<Longrightarrow> length (di_addrs d) = 13 \<Longrightarrow> disk_ok (set_inode i d img) fb"
  using inode_slot [of i] unfolding set_inode_def Let_def
  by (intro disk_ok_upd) (auto simp: disk_ok_def)

lemma IBLOCK_unat: "unat inum < 208 \<Longrightarrow> unat (IBLOCK inum new_superblock) = 32 + unat inum div 8"
  by (simp add: IBLOCK_def meta_sizes fs_sizes unat_word_ariths unat_div)

lemma rinode_at:
  assumes "unat inum < 208" "sb s = new_superblock" "length (sectors s) = 1000"
  shows "rinode inum s = Inr (inode_of (sectors s) (unat inum))"
  using assms inode_slot(1) [OF assms(1)] by (simp add: rinode_def rsect_small IBLOCK_unat inode_of_def fs_sizes)

lemma winode_at:
  assumes "unat inum < 208" "sb s = new_superblock" "length (sectors s) = 1000"
  shows "winode inum d s = Inr (s\<lparr>sectors := set_inode (unat inum) d (sectors s)\<rparr>)"
  using assms inode_slot(1) [OF assms(1)] by (simp add: winode_def rsect_small wsect_small IBLOCK_unat set_inode_def fs_sizes Let_def)

subsection \<open>The file system of an image\<close>

type_synonym fs_file = "u16 \<times> u8 list"

definition used_blocks :: "fs_file list \<Rightarrow> nat" where
  "used_blocks fl = (\<Sum>f \<leftarrow> fl. cost (length (snd f)))"

definition inode_holds :: "u8 list list \<Rightarrow> nat \<Rightarrow> nat \<Rightarrow> fs_file \<Rightarrow> bool" where
  "inode_holds img fb i f \<longleftrightarrow> (let d = inode_of img i in di_type d = fst f \<and> di_nlink d = 1 \<and> unat (di_size d) = length (snd f)
     \<and> length (snd f) \<le> 71680 \<and> file_rep img (di_addrs d) (snd f) fb)"

definition blocks_of :: "u8 list list \<Rightarrow> nat \<Rightarrow> fs_file \<Rightarrow> nat set" where
  "blocks_of img i f = file_blocks img (di_addrs (inode_of img i)) (snd f)"

definition fs_rep :: "'a mkfs_scheme \<Rightarrow> fs_file list \<Rightarrow> bool" where
  "fs_rep s fl \<longleftrightarrow> (let img = sectors s; fb = unat (freeblock s) in
     disk_ok img fb \<and> sb s = new_superblock \<and> superblock_at (img ! 1) = new_superblock \<and> img ! 58 = zeroes \<and> freeinode s = of_nat (Suc (length fl)) \<and> length fl < 208
     \<and> fb = 59 + used_blocks fl \<and> (\<forall>i < length fl. inode_holds img fb (Suc i) (fl ! i))
     \<and> (\<forall>i < length fl. \<forall>j < length fl. i \<noteq> j \<longrightarrow> blocks_of img (Suc i) (fl ! i) \<inter> blocks_of img (Suc j) (fl ! j) = {}))"

lemma file_rep_cong:
  assumes "\<And>b. b \<in> file_blocks img ad bs \<Longrightarrow> img' ! b = img ! b" "fb \<le> fb'"
  shows "file_rep img ad bs fb \<Longrightarrow> file_rep img' ad bs fb'" "file_blocks img' ad bs = file_blocks img ad bs"
proof -
  have "length bs \<le> 512 * nblk (length bs)"
  proof -
    have "length bs = 512 * (length bs div 512) + length bs mod 512" "length bs mod 512 < 512" by simp_all
    then show ?thesis using nblk_cases [of "length bs"] by (cases "length bs mod 512 = 0") auto
  qed
  then show "file_rep img ad bs fb \<Longrightarrow> file_rep img' ad bs fb'"
    using mapped_cong(1) [of img ad "nblk (length bs)" img' fb fb'] holds_cong [of img ad "nblk (length bs)" img' bs] assms
    by (auto simp: file_rep_def file_blocks_def)
  show "file_blocks img' ad bs = file_blocks img ad bs"
    using mapped_cong(2) [of img ad "nblk (length bs)" img' fb fb'] assms by (simp add: file_blocks_def)
qed

lemma file_blocks_range: "file_rep img ad bs fb \<Longrightarrow> b \<in> file_blocks img ad bs \<Longrightarrow> 59 \<le> b \<and> b < fb"
  by (auto simp: file_rep_def mapped_def file_blocks_def)

lemma inode_holds_cong:
  assumes h: "inode_holds img fb i f" and i: "inode_of img' i = inode_of img i" and b: "\<And>b. b \<in> blocks_of img i f \<Longrightarrow> img' ! b = img ! b" and fb: "fb \<le> fb'"
  shows "inode_holds img' fb' i f" "blocks_of img' i f = blocks_of img i f"
proof -
  note c = file_rep_cong [of img "di_addrs (inode_of img i)" "snd f" img' fb fb', OF b [unfolded blocks_of_def] fb]
  show "inode_holds img' fb' i f" using h c(1) by (auto simp: inode_holds_def Let_def i)
  show "blocks_of img' i f = blocks_of img i f" using c(2) by (simp add: blocks_of_def i)
qed

lemma file_rep_card: "file_rep img ad bs fb \<Longrightarrow> card (file_blocks img ad bs) = cost (length bs)"
proof -
  let ?n = "nblk (length bs)"
  assume r: "file_rep img ad bs fb"
  then have m: "mapped img ad ?n (12 < ?n) fb" by (simp add: file_rep_def)
  have c: "card (ptr img ad ` {..<?n}) = ?n" using m by (simp add: mapped_def card_image)
  show ?thesis
  proof (cases "12 < ?n")
    case True
    then have "unat (ad ! 12) \<notin> ptr img ad ` {..<?n}" "ad ! 12 \<noteq> 0" using m by (simp_all add: mapped_def)
    then show ?thesis using c True by (simp add: file_blocks_def owned_def cost_def)
  next
    case False
    then show ?thesis using c mappedD(7) [OF m] by (simp add: file_blocks_def owned_def cost_def)
  qed
qed

lemma blocks_range: "inode_holds img fb i f \<Longrightarrow> b \<in> blocks_of img i f \<Longrightarrow> 59 \<le> b \<and> b < fb"
  using file_blocks_range by (auto simp: inode_holds_def Let_def blocks_of_def)

lemma used_blocks_append [simp]: "used_blocks (fl @ gl) = used_blocks fl + used_blocks gl" "used_blocks [] = 0"
    "used_blocks (f # fl) = cost (length (snd f)) + used_blocks fl"
  by (simp_all add: used_blocks_def)

lemma cost_0 [simp]: "cost 0 = 0"
  by (simp add: cost_def nblk_def)

lemma used_blocks_update: "i < length fl \<Longrightarrow> used_blocks (fl[i := f]) + cost (length (snd (fl ! i))) = used_blocks fl + cost (length (snd f))"
  by (induction fl arbitrary: i) (auto simp: nth_Cons split: nat.splits)

subsection \<open>The operations on a file system\<close>

lemma word_of_unat: "unat (w :: u32) = n \<Longrightarrow> w = of_nat n"
  by auto

lemma fs_repD:
  assumes "fs_rep s fl"
  shows "disk_ok (sectors s) (59 + used_blocks fl)" "sb s = new_superblock" "superblock_at (sectors s ! 1) = new_superblock"
    "freeinode s = of_nat (Suc (length fl))" "length fl < 208" "freeblock s = of_nat (59 + used_blocks fl)" "length (sectors s) = 1000"
    "i < length fl \<Longrightarrow> inode_holds (sectors s) (59 + used_blocks fl) (Suc i) (fl ! i)" "59 + used_blocks fl \<le> 1000"
    "i < length fl \<Longrightarrow> j < length fl \<Longrightarrow> i \<noteq> j \<Longrightarrow> blocks_of (sectors s) (Suc i) (fl ! i) \<inter> blocks_of (sectors s) (Suc j) (fl ! j) = {}"
    "sectors s ! 58 = zeroes"
proof -
  have f: "unat (freeblock s) = 59 + used_blocks fl" using assms by (simp add: fs_rep_def Let_def)
  then show "freeblock s = of_nat (59 + used_blocks fl)" by (rule word_of_unat)
  show d: "disk_ok (sectors s) (59 + used_blocks fl)" using assms f by (simp add: fs_rep_def Let_def)
  then show "length (sectors s) = 1000" "59 + used_blocks fl \<le> 1000" by (simp_all add: disk_ok_def)
  show "i < length fl \<Longrightarrow> inode_holds (sectors s) (59 + used_blocks fl) (Suc i) (fl ! i)" using assms f by (simp add: fs_rep_def Let_def)
qed (use assms in \<open>simp_all add: fs_rep_def Let_def\<close>)

lemma fs_repI:
  assumes "disk_ok (sectors s) (59 + used_blocks fl)" "sb s = new_superblock" "superblock_at (sectors s ! 1) = new_superblock" "sectors s ! 58 = zeroes"
    "freeinode s = of_nat (Suc (length fl))" "length fl < 208" "freeblock s = of_nat (59 + used_blocks fl)"
    "\<And>i. i < length fl \<Longrightarrow> inode_holds (sectors s) (59 + used_blocks fl) (Suc i) (fl ! i)"
    "\<And>i j. i < length fl \<Longrightarrow> j < length fl \<Longrightarrow> i \<noteq> j \<Longrightarrow> blocks_of (sectors s) (Suc i) (fl ! i) \<inter> blocks_of (sectors s) (Suc j) (fl ! j) = {}"
  shows "fs_rep s fl"
proof -
  have "59 + used_blocks fl \<le> 1000" using assms(1) by (simp add: disk_ok_def)
  then have "unat (freeblock s) = 59 + used_blocks fl" unfolding assms(7) by (intro unat_of_nat_u32) simp
  then show ?thesis using assms by (simp add: fs_rep_def)
qed

lemma empty_file_rep: "di_addrs d = replicate 13 0 \<Longrightarrow> file_rep img (di_addrs d) [] fb" "di_addrs d = replicate 13 0 \<Longrightarrow> file_blocks img (di_addrs d) [] = {}"
  by (auto simp: file_rep_def mapped_def holds_def ptr_def owned_def file_blocks_def nblk_def nth_replicate)

text \<open>Another file keeps its inode and blocks when only metadata of other inodes and blocks outside it change.\<close>

lemma ialloc_rep:
  assumes r: "fs_rep s fl" and n: "Suc (length fl) < 208"
  shows "\<exists>s'. ialloc ty s = Inr (of_nat (Suc (length fl)), s') \<and> fs_rep s' (fl @ [(ty, [])])"
proof -
  note f = fs_repD [OF r]
  let ?n = "Suc (length fl)" and ?img = "sectors s"
  let ?d = "zero_dinode\<lparr>di_type := ty, di_nlink := 1, di_size := 0\<rparr>"
  let ?img' = "set_inode ?n ?d ?img" and ?fb = "59 + used_blocks fl"
  have u: "unat (freeinode s) = ?n" unfolding f(4) using n by (intro unat_of_nat_u32) simp
  have d13: "di_addrs ?d = replicate 13 0" by (simp add: zero_dinode_def fs_sizes)
  define s' where "s' = s\<lparr>freeinode := freeinode s + 1, sectors := ?img'\<rparr>"
  have w: "winode (freeinode s) ?d (s\<lparr>freeinode := freeinode s + 1\<rparr>) = Inr s'"
    using winode_at [of "freeinode s" "s\<lparr>freeinode := freeinode s + 1\<rparr>" ?d] u n f(2,7) by (simp add: s'_def)
  then have a: "ialloc ty s = Inr (of_nat ?n, s')" using f(4) by (simp add: ialloc_def Let_def)
  have ino: "inode_of ?img' j = (if j = ?n then ?d else inode_of ?img j)" if "j < 208" for j
    using inode_set [OF f(1) _ n that, of ?d] d13 by simp
  have old: "inode_holds ?img' ?fb (Suc i) (fl ! i)" "blocks_of ?img' (Suc i) (fl ! i) = blocks_of ?img (Suc i) (fl ! i)" if i: "i < length fl" for i
  proof -
    have "inode_of ?img' (Suc i) = inode_of ?img (Suc i)" using ino [of "Suc i"] i n by simp
    moreover have "?img' ! b = ?img ! b" if "b \<in> blocks_of ?img (Suc i) (fl ! i)" for b
      using blocks_range [OF f(8) [OF i] that] n by (intro set_inode_other) simp_all
    ultimately show "inode_holds ?img' ?fb (Suc i) (fl ! i)" "blocks_of ?img' (Suc i) (fl ! i) = blocks_of ?img (Suc i) (fl ! i)"
      using inode_holds_cong [OF f(8) [OF i], of ?img' ?fb] by simp_all
  qed
  have new: "inode_holds ?img' ?fb ?n (ty, [])" "blocks_of ?img' ?n (ty, []) = {}"
    using ino [OF n] empty_file_rep [OF d13] by (simp_all add: inode_holds_def blocks_of_def)
  have "fs_rep s' (fl @ [(ty, [])])"
  proof (rule fs_repI)
    show "disk_ok (sectors s') (59 + used_blocks (fl @ [(ty, [])]))"
      using set_inode_disk [OF f(1) n, of ?d] d13 by (simp add: s'_def)
    show "superblock_at (sectors s' ! 1) = new_superblock" using f(3) set_inode_other [of 1 ?n ?d ?img] n by (simp add: s'_def)
    show "sectors s' ! 58 = zeroes" using f(11) set_inode_other [of 58 ?n ?d ?img] n by (simp add: s'_def)
    show "inode_holds (sectors s') (59 + used_blocks (fl @ [(ty, [])])) (Suc i) ((fl @ [(ty, [])]) ! i)" if "i < length (fl @ [(ty, [])])" for i
      using that old(1) [of i] new(1) by (cases "i = length fl") (auto simp: s'_def nth_append)
    show "blocks_of (sectors s') (Suc i) ((fl @ [(ty, [])]) ! i) \<inter> blocks_of (sectors s') (Suc j) ((fl @ [(ty, [])]) ! j) = {}"
      if "i < length (fl @ [(ty, [])])" "j < length (fl @ [(ty, [])])" "i \<noteq> j" for i j
      using that old(2) [of i] old(2) [of j] new(2) f(10) [of i j] by (cases "i = length fl"; cases "j = length fl") (auto simp: s'_def nth_append)
  qed (use f n in \<open>simp_all add: s'_def add.commute\<close>)
  then show ?thesis using a by blast
qed

text \<open>Putting the inode of a file that has grown in its place gives the list with the longer file.\<close>

lemma inode_replaced:
  assumes r: "fs_rep s fl" and i: "i < length fl" "fl ! i = (ty, bs)" and len: "length bs + length p \<le> 71680"
    and d: "d = inode_of (sectors s) (Suc i)" "d' = d\<lparr>di_addrs := ad', di_size := of_nat (length bs + length p)\<rparr>"
    and e: "extends (sectors s) (di_addrs d) bs (59 + used_blocks fl) img' ad' (bs @ p) fb'"
  shows "fs_rep (s\<lparr>sectors := set_inode (Suc i) d' img', freeblock := of_nat fb'\<rparr>) (fl[i := (ty, bs @ p)])"
proof -
  note f = fs_repD [OF r]
  let ?n = "Suc i" and ?img = "sectors s" and ?fb = "59 + used_blocks fl" and ?fl = "fl[i := (ty, bs @ p)]"
  define img2 where "img2 = set_inode ?n d' img'"
  let ?s' = "s\<lparr>sectors := img2, freeblock := of_nat fb'\<rparr>"
  have n: "?n < 208" using i f(5) by simp
  have h: "di_type d = ty" "di_nlink d = 1" "file_rep ?img (di_addrs d) bs ?fb"
    using f(8) [OF i(1)] i(2) by (simp_all add: inode_holds_def Let_def d(1))
  have e': "file_rep img' ad' (bs @ p) fb'" "disk_ok img' fb'" "fb' + cost (length bs) = ?fb + cost (length bs + length p)" "?fb \<le> fb'"
    "file_blocks img' ad' (bs @ p) \<subseteq> file_blocks ?img (di_addrs d) bs \<union> {?fb..<fb'}"
    "\<And>b. b < ?fb \<Longrightarrow> b \<notin> file_blocks ?img (di_addrs d) bs \<Longrightarrow> img' ! b = ?img ! b"
    using e by (simp_all add: extends_def)
  have l13: "length (di_addrs d') = 13" using e'(1) by (auto simp: file_rep_def d(2) intro: mappedD(8))
  have meta: "img' ! b = ?img ! b" if "b < 59" for b
    using file_blocks_range [OF h(3), of b] that by (intro e'(6)) auto
  have ino: "inode_of img2 j = (if j = ?n then d' else inode_of ?img j)" if j: "j < 208" for j
  proof -
    have "inode_of img' j = inode_of ?img j" using meta [of "32 + j div 8"] inode_slot(1) [OF j] by (simp add: inode_of_def)
    then show ?thesis using inode_set [OF e'(2) l13 n j] by (simp add: img2_def)
  qed
  have data: "img2 ! b = img' ! b" if "59 \<le> b" for b using that n by (simp add: img2_def set_inode_other)
  have own: "blocks_of ?img ?n (fl ! i) = file_blocks ?img (di_addrs d) bs" using i(2) by (simp add: blocks_of_def d(1))
  have other: "inode_holds img2 fb' (Suc j) (fl ! j)" "blocks_of img2 (Suc j) (fl ! j) = blocks_of ?img (Suc j) (fl ! j)"
    if j: "j < length fl" "j \<noteq> i" for j
  proof -
    have "inode_of img2 (Suc j) = inode_of ?img (Suc j)" using ino [of "Suc j"] j f(5) by simp
    moreover have "img2 ! b = ?img ! b" if b: "b \<in> blocks_of ?img (Suc j) (fl ! j)" for b
    proof -
      have "b \<notin> file_blocks ?img (di_addrs d) bs" using f(10) [OF j(1) i(1) j(2)] b own by auto
      then show ?thesis using blocks_range [OF f(8) [OF j(1)] b] data [of b] e'(6) [of b] by simp
    qed
    ultimately show "inode_holds img2 fb' (Suc j) (fl ! j)" "blocks_of img2 (Suc j) (fl ! j) = blocks_of ?img (Suc j) (fl ! j)"
      using inode_holds_cong [OF f(8) [OF j(1)], of img2 fb'] e'(4) by simp_all
  qed
  have mine: "file_rep img2 ad' (bs @ p) fb'" "file_blocks img2 ad' (bs @ p) = file_blocks img' ad' (bs @ p)"
    using file_rep_cong [of img' ad' "bs @ p" img2 fb' fb'] file_blocks_range [OF e'(1)] data e'(1) by auto
  have "unat (of_nat (length bs + length p) :: u32) = length bs + length p" using len by (intro unat_of_nat_u32) simp
  then have self: "inode_holds img2 fb' ?n (ty, bs @ p)" "blocks_of img2 ?n (ty, bs @ p) = file_blocks img' ad' (bs @ p)"
    using ino [OF n] mine h(1,2) len by (simp_all add: inode_holds_def blocks_of_def d(2) del: of_nat_add)
  have used: "fb' = 59 + used_blocks ?fl" using used_blocks_update [OF i(1), of "(ty, bs @ p)"] i(2) e'(3) by simp
  have sep: "file_blocks img' ad' (bs @ p) \<inter> blocks_of ?img (Suc j) (fl ! j) = {}" if j: "j < length fl" "j \<noteq> i" for j
  proof -
    have "file_blocks ?img (di_addrs d) bs \<inter> blocks_of ?img (Suc j) (fl ! j) = {}" using f(10) [OF i(1) j(1)] j(2) own by auto
    moreover have "{?fb..<fb'} \<inter> blocks_of ?img (Suc j) (fl ! j) = {}" using blocks_range [OF f(8) [OF j(1)]] by fastforce
    ultimately show ?thesis using e'(5) by blast
  qed
  have "fs_rep ?s' ?fl"
  proof (rule fs_repI)
    show "disk_ok (sectors ?s') (59 + used_blocks ?fl)" using set_inode_disk [OF e'(2) n l13] used by (simp add: img2_def)
    show "superblock_at (sectors ?s' ! 1) = new_superblock" using f(3) meta [of 1] set_inode_other [of 1 ?n d' img'] n by (simp add: img2_def)
    show "sectors ?s' ! 58 = zeroes" using f(11) meta [of 58] set_inode_other [of 58 ?n d' img'] n by (simp add: img2_def)
    show "inode_holds (sectors ?s') (59 + used_blocks ?fl) (Suc j) (?fl ! j)" if "j < length ?fl" for j
      using that other(1) [of j] self(1) used i(1) by (cases "j = i") simp_all
    show "blocks_of (sectors ?s') (Suc j) (?fl ! j) \<inter> blocks_of (sectors ?s') (Suc k) (?fl ! k) = {}"
      if "j < length ?fl" "k < length ?fl" "j \<noteq> k" for j k
      using that other(2) [of j] other(2) [of k] self(2) sep [of j] sep [of k] f(10) [of j k] i(1)
      by (cases "j = i"; cases "k = i") (simp_all add: Int_commute)
  qed (use f used in simp_all)
  then show ?thesis by (simp add: img2_def)
qed

lemma iappend_rep:
  assumes r: "fs_rep s fl" and i: "i < length fl" "fl ! i = (ty, bs)" and len: "length bs + length p \<le> 71680"
    and room: "used_blocks fl + cost (length bs + length p) \<le> 941 + cost (length bs)"
  shows "\<exists>s'. iappend (of_nat (Suc i)) p s = Inr s' \<and> fs_rep s' (fl[i := (ty, bs @ p)])"
proof -
  note f = fs_repD [OF r]
  let ?n = "Suc i" and ?img = "sectors s" and ?fb = "59 + used_blocks fl"
  define d where "d = inode_of ?img ?n"
  have n: "?n < 208" using i f(5) by simp
  have u: "unat (of_nat ?n :: u32) = ?n" using n by (intro unat_of_nat_u32) simp
  have h: "unat (di_size d) = length bs" "file_rep ?img (di_addrs d) bs ?fb"
    using f(8) [OF i(1)] i(2) by (simp_all add: inode_holds_def Let_def d_def)
  have sz: "di_size d = of_nat (length bs)" using h(1) by (rule word_of_unat)
  have ri: "rinode (of_nat ?n) s = Inr d" using rinode_at [of "of_nat ?n" s] u n f(2,7) by (simp add: d_def del: of_nat_Suc)
  obtain ad' img' fb' where l: "iappend_loop p (of_nat (length bs)) d s
      = Inr (d\<lparr>di_addrs := ad'\<rparr>, of_nat (length bs + length p), s\<lparr>sectors := img', freeblock := of_nat fb'\<rparr>)"
      and e: "extends ?img (di_addrs d) bs ?fb img' ad' (bs @ p) fb'"
    using iappend_loop_writes [OF h(2) f(1,6) len] room by auto
  define d' where "d' = d\<lparr>di_addrs := ad', di_size := of_nat (length bs + length p)\<rparr>"
  let ?s' = "s\<lparr>sectors := set_inode ?n d' img', freeblock := of_nat fb'\<rparr>"
  have "img' \<noteq> [] \<and> length img' = 1000" using e by (auto simp: extends_def disk_ok_def)
  then have "iappend (of_nat ?n) p s = Inr ?s'"
    using ri l sz winode_at [of "of_nat ?n" "s\<lparr>sectors := img', freeblock := of_nat fb'\<rparr>" d'] u n f(2)
    by (cases s) (simp add: iappend_def d'_def del: of_nat_Suc of_nat_add)
  then show ?thesis using inode_replaced [OF r i len d_def d'_def e] by blast
qed

lemma iappend_too_big:
  assumes r: "fs_rep s fl" and i: "i < length fl" "71680 < length (snd (fl ! i)) + length p"
    and room: "used_blocks fl + cost 71680 \<le> 941 + cost (length (snd (fl ! i)))"
  shows "iappend (of_nat (Suc i)) p s = panic ''assert''"
proof -
  note f = fs_repD [OF r]
  let ?d = "inode_of (sectors s) (Suc i)" and ?bs = "snd (fl ! i)"
  have n: "Suc i < 208" using i f(5) by simp
  have u: "unat (of_nat (Suc i) :: u32) = Suc i" using n by (intro unat_of_nat_u32) simp
  have h: "unat (di_size ?d) = length ?bs" "length ?bs \<le> 71680" "file_rep (sectors s) (di_addrs ?d) ?bs (59 + used_blocks fl)"
    using f(8) [OF i(1)] by (simp_all add: inode_holds_def Let_def)
  have "di_size ?d = of_nat (length ?bs)" using h(1) by (rule word_of_unat)
  moreover have "iappend_loop p (of_nat (length ?bs)) ?d s = panic ''assert''"
    using iappend_loop_too_big [OF h(3) f(1,6) h(2) i(2)] room by simp
  moreover have "rinode (of_nat (Suc i)) s = Inr ?d" using rinode_at [of "of_nat (Suc i)" s] u n f(2,7) by (simp del: of_nat_Suc)
  ultimately show ?thesis by (simp add: iappend_def del: of_nat_Suc)
qed

text \<open>On a full disk the next block would be the one after the last.\<close>

lemma iappend_disk_full:
  assumes r: "fs_rep s fl" and i: "i < length fl" and len: "512 dvd length (snd (fl ! i))" "length (snd (fl ! i)) < 6144"
    and full: "used_blocks fl = 941" and p: "p \<noteq> []"
  shows "iappend (of_nat (Suc i)) p s = Inl (Undef ''indeterminate buffer'')"
proof -
  note f = fs_repD [OF r]
  let ?d = "inode_of (sectors s) (Suc i)" and ?bs = "snd (fl ! i)"
  define k where "k = length ?bs div 512"
  have n: "Suc i < 208" using i f(5) by simp
  have u: "unat (of_nat (Suc i) :: u32) = Suc i" using n by (intro unat_of_nat_u32) simp
  have h: "unat (di_size ?d) = length ?bs" "file_rep (sectors s) (di_addrs ?d) ?bs (59 + used_blocks fl)"
    using f(8) [OF i] by (simp_all add: inode_holds_def Let_def)
  have k: "length ?bs = 512 * k" "k < 12" using len by (auto simp: k_def)
  have m: "mapped (sectors s) (di_addrs ?d) k (12 < k) (59 + used_blocks fl)"
    using h(2) k by (simp add: file_rep_def nblk_def)
  have "unat (di_addrs ?d ! k) = 0" using mappedD(9) [OF m, of k] k(2) by (simp add: ptr_def)
  then have z: "di_addrs ?d ! k = 0" by (simp add: unat_eq_0)
  have l: "length (di_addrs ?d) = 13" using mappedD(8) [OF m] .
  have fb: "freeblock s = 1000" using f(6) full by simp
  have "unat (di_size ?d div 512) = k" using h(1) k(1) by (simp add: unat_div)
  moreover have "rsect 1000 s' = Inl (Undef ''indeterminate buffer'')" if "length (sectors s') = 1000" for s' :: "'a mkfs_scheme"
    using that by (simp add: rsect_def sector_of_def fs_sizes)
  ultimately have "iappend_loop p (di_size ?d) ?d s = Inl (Undef ''indeterminate buffer'')"
    using p k(2) z l fb f(7)
    by (subst iappend_loop.simps) (simp add: fs_sizes file_block_def direct_block_def Let_def)
  moreover have "rinode (of_nat (Suc i)) s = Inr ?d" using rinode_at [of "of_nat (Suc i)" s] u n f(2,7) by (simp del: of_nat_Suc)
  ultimately show ?thesis by (simp add: iappend_def del: of_nat_Suc)
qed

subsection \<open>The program\<close>

definition content :: "host_file \<Rightarrow> u8 list" where
  "content f = concat (takeWhile (\<lambda>b. b \<noteq> []) (case reads f of None \<Rightarrow> [] | Some bufs \<Rightarrow> bufs))"

definition entry :: "nat \<Rightarrow> u8 list \<Rightarrow> dirent" where
  "entry n nm = \<lparr>de_inum = of_nat n, de_name = entry_name nm\<rparr>"

primrec entries :: "nat \<Rightarrow> host_file list \<Rightarrow> u8 list" where
  "entries n [] = []"
| "entries n (f # fs) = dirent_bytes (entry n (filename f)) @ entries (Suc n) fs"

definition file_of :: "host_file \<Rightarrow> fs_file" where
  "file_of f = (T_FILE, content f)"

definition storable :: "host_file \<Rightarrow> bool" where
  "storable f \<longleftrightarrow> 0x2F \<notin> set (filename f) \<and> reads f \<noteq> None \<and> length (content f) \<le> 71680"

lemma length_entry [simp]: "length (de_name (entry n nm)) = 14" "length (dirent_bytes (entry n nm)) = 16"
  by (simp_all add: entry_def entry_name_def fs_sizes)

lemma length_entries [simp]: "length (entries n fs) = 16 * length fs"
  by (induction fs arbitrary: n) simp_all

lemma inum_short: "(ucast (of_nat n :: u32) :: u16) = of_nat n"
  by transfer simp

lemma add_entry_eq: "add_entry dir (of_nat n) nm s = iappend dir (dirent_bytes (entry n nm)) s"
  by (simp add: add_entry_def entry_def inum_short)

lemma append_reads_rep:
  assumes "fs_rep s fl" "i < length fl" "fl ! i = (ty, bs)" "length bs + length (concat (takeWhile (\<lambda>b. b \<noteq> []) bufs)) \<le> 71680"
    "used_blocks fl + cost (length bs + length (concat (takeWhile (\<lambda>b. b \<noteq> []) bufs))) \<le> 941 + cost (length bs)"
  shows "\<exists>s'. append_reads (of_nat (Suc i)) bufs s = Inr s' \<and> fs_rep s' (fl[i := (ty, bs @ concat (takeWhile (\<lambda>b. b \<noteq> []) bufs))])"
  using assms
proof (induction bufs arbitrary: s fl bs)
  case Nil
  have "fl[i := (ty, bs)] = fl" using Nil.prems(3) by (metis list_update_id)
  then show ?case using Nil.prems(1) by simp
next
  case (Cons b bufs)
  have "fl[i := (ty, bs)] = fl" using Cons.prems(3) by (metis list_update_id)
  show ?case
  proof (cases "b = []")
    case True
    then show ?thesis using \<open>fl[i := (ty, bs)] = fl\<close> Cons.prems(1) by simp
  next
    case False
    let ?c = "concat (takeWhile (\<lambda>b. b \<noteq> []) bufs)"
    have len: "length bs + length b + length ?c \<le> 71680"
      "used_blocks fl + cost (length bs + length b + length ?c) \<le> 941 + cost (length bs)" using Cons.prems(4,5) False by (simp_all add: add.assoc)
    have "cost (length bs + length b) \<le> cost (length bs + length b + length ?c)" by (rule cost_mono) simp
    then have room: "used_blocks fl + cost (length bs + length b) \<le> 941 + cost (length bs)" using len(2) by linarith
    obtain s1 where s1: "iappend (of_nat (Suc i)) b s = Inr s1" "fs_rep s1 (fl[i := (ty, bs @ b)])"
      using iappend_rep [OF Cons.prems(1-3) _ room] len(1) by auto
    have "used_blocks (fl[i := (ty, bs @ b)]) + cost (length (bs @ b) + length ?c) \<le> 941 + cost (length (bs @ b))"
      using used_blocks_update [OF Cons.prems(2), of "(ty, bs @ b)"] len(2) Cons.prems(3) by simp
    from Cons.IH [OF s1(2) _ _ _ this] len(1) Cons.prems(2) obtain s2 where
      "append_reads (of_nat (Suc i)) bufs s1 = Inr s2" "fs_rep s2 (fl[i := (ty, bs @ b), i := (ty, (bs @ b) @ ?c)])" by auto
    then show ?thesis using s1(1) False by (simp del: of_nat_Suc)
  qed
qed

lemma add_files_rep:
  assumes "fs_rep s ((T_DIR, d) # rest)" "\<forall>f \<in> set fs. storable f" "length rest + length fs < 207" "length d + 16 * length fs \<le> 71680"
    "used_blocks ((T_DIR, d @ entries (length rest + 2) fs) # rest @ map file_of fs) \<le> 941"
  shows "\<exists>s'. add_files 1 fs s = Inr (True, s') \<and> fs_rep s' ((T_DIR, d @ entries (length rest + 2) fs) # rest @ map file_of fs)"
  using assms
proof (induction fs arbitrary: s d rest)
  case (Cons f fs)
  let ?n = "length rest + 2" and ?e = "dirent_bytes (entry (length rest + 2) (filename f))"
  obtain bufs where f: "0x2F \<notin> set (filename f)" "reads f = Some bufs" "length (content f) \<le> 71680"
    using Cons.prems(2) by (auto simp: storable_def)
  have c: "content f = concat (takeWhile (\<lambda>b. b \<noteq> []) bufs)" using f(2) by (simp add: content_def)
  have "cost (length d + 16) \<le> cost (length d + 16 + 16 * length fs)" by (rule cost_mono) simp
  then have room: "cost (length d + 16) + used_blocks rest + cost (length (content f)) \<le> 941"
    using Cons.prems(5) by (simp add: file_of_def add.assoc)
  obtain s1 where s1: "ialloc T_FILE s = Inr (of_nat ?n, s1)" "fs_rep s1 ((T_DIR, d) # rest @ [(T_FILE, [])])"
    using ialloc_rep [OF Cons.prems(1), of T_FILE] Cons.prems(3) by auto
  have "\<exists>s2. iappend (of_nat (Suc 0)) ?e s1 = Inr s2 \<and> fs_rep s2 (((T_DIR, d) # rest @ [(T_FILE, [])])[0 := (T_DIR, d @ ?e)])"
    using s1(2) Cons.prems(4) room by (intro iappend_rep) simp_all
  then obtain s2 where s2: "add_entry 1 (of_nat ?n) (filename f) s1 = Inr s2" "fs_rep s2 ((T_DIR, d @ ?e) # rest @ [(T_FILE, [])])"
    unfolding add_entry_eq by auto
  have "\<exists>s3. append_reads (of_nat (Suc (Suc (length rest)))) bufs s2 = Inr s3
    \<and> fs_rep s3 (((T_DIR, d @ ?e) # rest @ [(T_FILE, [])])[Suc (length rest) := (T_FILE, [] @ concat (takeWhile (\<lambda>b. b \<noteq> []) bufs))])"
    using s2(2) f(3) room by (intro append_reads_rep) (simp_all add: c)
  then obtain s3 where s3: "append_reads (of_nat ?n) bufs s2 = Inr s3" "fs_rep s3 ((T_DIR, d @ ?e) # rest @ [file_of f])"
    by (auto simp: file_of_def c list_update_append)
  have "\<exists>s'. add_files 1 fs s3 = Inr (True, s') \<and> fs_rep s' ((T_DIR, (d @ ?e) @ entries (length (rest @ [file_of f]) + 2) fs) # (rest @ [file_of f]) @ map file_of fs)"
    using Cons.prems s3(2) by (intro Cons.IH) simp_all
  then show ?case using f s1(1) s2(1) s3(1) by (auto simp: fs_assert_def simp del: of_nat_Suc of_nat_add)
qed simp

lemma clear_sectors_empty: "sectors s = [] \<Longrightarrow> n \<le> 1000 \<Longrightarrow> clear_sectors n s = s\<lparr>sectors := replicate n zeroes\<rparr>"
proof (induction n)
  case (Suc n)
  have u: "unat (of_nat n :: u32) = n" using Suc.prems by (intro unat_of_nat_u32) simp
  have "sector_of (of_nat n) = n" using u Suc.prems(2) by (subst sector_of_small) simp_all
  then show ?case using Suc by (simp add: wsect_def Let_def replicate_append_same)
qed simp

lemma format_rep:
  assumes "sectors s = []" "freeinode s = 1"
  shows "\<exists>s'. format s = Inr (1, s') \<and> fs_rep s' [(T_DIR, dirent_bytes (entry 1 [0x2E]) @ dirent_bytes (entry 1 [0x2E, 0x2E]))]"
proof -
  let ?s1 = "s\<lparr>sb := new_superblock, freeblock := of_nat meta_num\<rparr>"
  let ?b = "superblock_bytes new_superblock @ replicate 484 0"
  define s3 where "s3 = ?s1\<lparr>sectors := (replicate 1000 zeroes)[1 := ?b]\<rparr>"
  have c: "clear_sectors 1000 ?s1 = ?s1\<lparr>sectors := replicate 1000 zeroes\<rparr>" using assms by (intro clear_sectors_empty) simp_all
  have s3: "wsect 1 ?b (clear_sectors 1000 ?s1) = s3" unfolding c using wsect_small [of 1 "?s1\<lparr>sectors := replicate 1000 zeroes\<rparr>" ?b] by (simp add: s3_def)
  have l: "length (superblock_bytes sb) = 28" for sb by (simp add: superblock_bytes_def)
  have z: "length zeroes = 512" by (simp add: zeroes_def fs_sizes)
  have "fs_rep s3 []"
  proof (rule fs_repI)
    show "disk_ok (sectors s3) (59 + used_blocks [])" using l z by (auto simp: s3_def disk_ok_def nth_list_update)
    show "superblock_at (sectors s3 ! 1) = new_superblock" by (simp add: s3_def superblock_roundtrip)
  qed (use assms in \<open>simp_all add: s3_def meta_sizes\<close>)
  then obtain s4 where s4: "ialloc T_DIR s3 = Inr (1, s4)" "fs_rep s4 [(T_DIR, [])]" using ialloc_rep [of s3 "[]" T_DIR] by auto
  have cost: "cost 16 = 1" "cost 32 = 1" by (simp_all add: cost_def nblk_def)
  have "\<exists>s5. iappend (of_nat (Suc 0)) (dirent_bytes (entry 1 [0x2E])) s4 = Inr s5 \<and> fs_rep s5 ([(T_DIR, [])][0 := (T_DIR, [] @ dirent_bytes (entry 1 [0x2E]))])"
    using s4(2) cost by (intro iappend_rep) simp_all
  then obtain s5 where s5: "add_entry 1 1 [0x2E] s4 = Inr s5" "fs_rep s5 [(T_DIR, dirent_bytes (entry 1 [0x2E]))]"
    using add_entry_eq [of 1 1 "[0x2E]" s4] by auto
  have "\<exists>s6. iappend (of_nat (Suc 0)) (dirent_bytes (entry 1 [0x2E, 0x2E])) s5 = Inr s6
      \<and> fs_rep s6 ([(T_DIR, dirent_bytes (entry 1 [0x2E]))][0 := (T_DIR, dirent_bytes (entry 1 [0x2E]) @ dirent_bytes (entry 1 [0x2E, 0x2E]))])"
    using s5(2) cost by (intro iappend_rep) simp_all
  then obtain s6 where s6: "add_entry 1 1 [0x2E, 0x2E] s5 = Inr s6"
    "fs_rep s6 [(T_DIR, dirent_bytes (entry 1 [0x2E]) @ dirent_bytes (entry 1 [0x2E, 0x2E]))]"
    using add_entry_eq [of 1 1 "[0x2E, 0x2E]" s5] by auto
  have "format s = bindR (ialloc T_DIR s3) (\<lambda>(root_ino, s4). fs_assert (root_ino = ROOT_INO)
          (bindR (add_entry root_ino root_ino [0x2E] s4) (\<lambda>s5. bindR (add_entry root_ino root_ino [0x2E, 0x2E] s5) (\<lambda>s6. Inr (root_ino, s6)))))"
    using s3 c by (simp add: format_def Let_def FS_SIZE_def fs_sizes)
  then show ?thesis using s4(1) s5(1) s6 by (simp add: fs_assert_def ROOT_INO_def)
qed

text \<open>The bitmap: one bit for each block given away.\<close>

lemma mark_used_bits:
  "n \<le> 4096 \<Longrightarrow> length (mark_used n zeroes) = 512 \<and> (\<forall>b < 4096. bit (mark_used n zeroes ! (b div 8)) (b mod 8) \<longleftrightarrow> b < n)"
proof (induction n)
  case 0
  show ?case by (auto simp: zeroes_def fs_sizes less_mult_imp_div_less)
next
  case (Suc n)
  let ?m = "mark_used n zeroes"
  have ih: "length ?m = 512" "\<And>b. b < 4096 \<Longrightarrow> bit (?m ! (b div 8)) (b mod 8) \<longleftrightarrow> b < n" using Suc by simp_all
  have "bit (mark_used (Suc n) zeroes ! (b div 8)) (b mod 8) \<longleftrightarrow> b < Suc n" if b: "b < 4096" for b
  proof (cases "b div 8 = n div 8")
    case True
    have m: "b mod 8 < 8" by simp
    have e: "b = n \<longleftrightarrow> b mod 8 = n mod 8" using True by (metis mult_div_mod_eq)
    have "n div 8 < 512" using Suc.prems by (simp add: less_mult_imp_div_less)
    then show ?thesis using True ih(1) ih(2) [OF b] e m by (auto simp: Let_def bit_simps less_Suc_eq)
  next
    case False
    then have "b \<noteq> n" by auto
    then show ?thesis using False ih(2) [OF b] by (auto simp: Let_def less_Suc_eq)
  qed
  then show ?case using ih(1) by (simp add: Let_def)
qed

definition file_bytes :: "u8 list list \<Rightarrow> nat \<Rightarrow> u8 list" where
  "file_bytes img i = (let d = inode_of img i in map (\<lambda>k. img ! ptr img (di_addrs d) (k div 512) ! (k mod 512)) [0..<unat (di_size d)])"

lemma inode_file_bytes: "inode_holds img fb i f \<Longrightarrow> file_bytes img i = snd f"
  by (auto simp: inode_holds_def Let_def file_bytes_def file_rep_def holds_def intro!: nth_equalityI)

text \<open>The last step only changes the size of the root directory and the bitmap.\<close>

definition rounded :: "nat \<Rightarrow> nat" where
  "rounded len = (len div 512 + 1) * 512"

definition closed :: "u8 list list \<Rightarrow> fs_file list \<Rightarrow> bool" where
  "closed img fl \<longleftrightarrow> (let fb = 59 + used_blocks fl; root = inode_of img 1 in
     length img = 1000 \<and> (\<forall>b < 1000. length (img ! b) = 512) \<and> superblock_at (img ! 1) = new_superblock \<and> img ! 58 = mark_used fb zeroes
     \<and> di_type root = fst (fl ! 0) \<and> unat (di_size root) = rounded (length (snd (fl ! 0))) \<and> file_rep img (di_addrs root) (snd (fl ! 0)) fb
     \<and> (\<forall>i < length fl. i \<noteq> 0 \<longrightarrow> inode_holds img fb (Suc i) (fl ! i))
     \<and> (\<forall>i < length fl. \<forall>j < length fl. i \<noteq> j \<longrightarrow> blocks_of img (Suc i) (fl ! i) \<inter> blocks_of img (Suc j) (fl ! j) = {}))"

lemma finish_closes:
  assumes r: "fs_rep s fl" and l: "fl \<noteq> []"
  shows "\<exists>s'. finish 1 s = Inr s' \<and> closed (sectors s') fl \<and> freeblock s' = of_nat (59 + used_blocks fl)"
proof -
  note f = fs_repD [OF r]
  let ?img = "sectors s" and ?fb = "59 + used_blocks fl" and ?len = "length (snd (fl ! 0))"
  define d where "d = inode_of ?img 1"
  have l0: "0 < length fl" using l by simp
  have h: "di_type d = fst (fl ! 0)" "unat (di_size d) = ?len" "?len \<le> 71680" "file_rep ?img (di_addrs d) (snd (fl ! 0)) ?fb"
    using f(8) [OF l0] by (simp_all add: inode_holds_def Let_def d_def)
  define d' where "d' = d\<lparr>di_size := (di_size d div 512 + 1) * 512\<rparr>"
  have l13: "length (di_addrs d') = 13" using h(4) by (auto simp: file_rep_def d'_def intro: mappedD(8))
  have "?len div 512 \<le> 140" using div_le_mono [OF h(3), of 512] by simp
  then have sz: "unat (di_size d') = rounded ?len" using h(2) by (simp add: d'_def rounded_def unat_word_ariths unat_div)
  define img1 where "img1 = set_inode 1 d' ?img"
  define img2 where "img2 = img1[58 := mark_used ?fb zeroes]"
  have d1: "disk_ok img1 ?fb" using set_inode_disk [OF f(1) _ l13, of 1] by (simp add: img1_def)
  then have l1: "length img1 = 1000" by (simp add: disk_ok_def)
  have w: "winode 1 d' s = Inr (s\<lparr>sectors := img1\<rparr>)" using winode_at [of 1 s d'] f(2,7) by (simp add: img1_def)
  have ri: "rinode 1 s = Inr d" using rinode_at [of 1 s] f(2,7) by (simp add: d_def)
  have "sint (of_nat n :: u32) = int n" if "n \<le> 1000" for n using that by (simp add: signed_of_nat signed_take_bit_int_eq_self)
  then have u: "sint (of_nat ?fb :: u32) = int ?fb" using f(9) .
  have "wsect 58 (mark_used ?fb zeroes) (s\<lparr>sectors := img1\<rparr>) = s\<lparr>sectors := img2\<rparr>" using l1 by (simp add: wsect_small img2_def)
  then have "balloc (sint (freeblock s)) (s\<lparr>sectors := img1\<rparr>) = Inr (s\<lparr>sectors := img2\<rparr>)"
    unfolding f(6) u using f(2,9) by (simp add: balloc_def fs_assert_def fs_sizes meta_sizes nat_add_distrib)
  then have a: "finish 1 s = Inr (s\<lparr>sectors := img2\<rparr>)"
    using ri w by (simp add: finish_def fs_sizes d'_def Let_def)
  have ino: "inode_of img2 j = (if j = 1 then d' else inode_of ?img j)" if j: "j < 208" for j
  proof -
    have "inode_of img2 j = inode_of img1 j" using inode_slot(1) [OF j] by (simp add: img2_def inode_of_def nth_list_update)
    then show ?thesis using inode_set [OF f(1) l13 _ j, of 1] by (simp add: img1_def)
  qed
  have data: "img2 ! b = ?img ! b" if "59 \<le> b" for b using that by (simp add: img2_def img1_def set_inode_other)
  have root: "file_rep img2 (di_addrs d) (snd (fl ! 0)) ?fb" "file_blocks img2 (di_addrs d) (snd (fl ! 0)) = file_blocks ?img (di_addrs d) (snd (fl ! 0))"
    using file_rep_cong [of ?img "di_addrs d" "snd (fl ! 0)" img2 ?fb ?fb] file_blocks_range [OF h(4)] data h(4) by auto
  have other: "inode_holds img2 ?fb (Suc i) (fl ! i)" "blocks_of img2 (Suc i) (fl ! i) = blocks_of ?img (Suc i) (fl ! i)"
    if i: "i < length fl" "i \<noteq> 0" for i
    using inode_holds_cong [OF f(8) [OF i(1)], of img2 ?fb] ino [of "Suc i"] i f(5) blocks_range [OF f(8) [OF i(1)]] data by auto
  have "blocks_of img2 (Suc i) (fl ! i) = blocks_of ?img (Suc i) (fl ! i)" if "i < length fl" for i
    using that other(2) [of i] root(2) ino [of 1] by (cases "i = 0") (simp_all add: blocks_of_def d_def d'_def)
  moreover have "superblock_at (img2 ! 1) = new_superblock" using f(3) set_inode_other [of 1 1 d' ?img] by (simp add: img2_def img1_def)
  moreover have "img2 ! 58 = mark_used ?fb zeroes" using l1 by (simp add: img2_def)
  moreover have "length img2 = 1000" using l1 by (simp add: img2_def)
  moreover have "length (img2 ! b) = 512" if "b < 1000" for b
    using that d1 mark_used_bits [of ?fb] f(9) l1 by (auto simp: disk_ok_def img2_def nth_list_update)
  moreover have "inode_of img2 1 = d'" using ino [of 1] by simp
  ultimately have "closed img2 fl" using h(1) sz root(1) other(1) f(10) unfolding closed_def Let_def by (auto simp: d'_def)
  then show ?thesis using a f(6) by (intro exI [of _ "s\<lparr>sectors := img2\<rparr>"]) simp
qed

definition root_entries :: "host_file list \<Rightarrow> u8 list" where
  "root_entries fs = dirent_bytes (entry 1 [0x2E]) @ dirent_bytes (entry 1 [0x2E, 0x2E]) @ entries 2 fs"

definition image_files :: "host_file list \<Rightarrow> fs_file list" where
  "image_files fs = (T_DIR, root_entries fs) # map file_of fs"

definition fits :: "host_file list \<Rightarrow> bool" where
  "fits fs \<longleftrightarrow> (\<forall>f \<in> set fs. storable f) \<and> length fs \<le> 198 \<and> used_blocks (image_files fs) \<le> 941"

lemma add_files_append:
  "add_files r (fs @ gs) s = bindR (add_files r fs s) (\<lambda>(ok, s). if ok then add_files r gs s else Inr (False, s))"
proof (induction fs arbitrary: s)
  case (Cons f fs)
  show ?case
    by (cases "reads f") (auto simp: fs_assert_def bindR_def Cons.IH split: sum.splits prod.splits)
qed simp

lemma mkfs_fills:
  assumes "freeinode s = 1" "fits files"
  shows "\<exists>s1 s2. format (s\<lparr>sectors := []\<rparr>) = Inr (1, s1) \<and> add_files 1 files s1 = Inr (True, s2) \<and> fs_rep s2 (image_files files)"
proof -
  obtain s1 where s1: "format (s\<lparr>sectors := []\<rparr>) = Inr (1, s1)"
    "fs_rep s1 [(T_DIR, dirent_bytes (entry 1 [0x2E]) @ dirent_bytes (entry 1 [0x2E, 0x2E]))]"
    using format_rep [of "s\<lparr>sectors := []\<rparr>"] assms(1) by auto
  have "\<exists>s2. add_files 1 files s1 = Inr (True, s2) \<and> fs_rep s2 (image_files files)"
    using add_files_rep [OF s1(2), of files] assms(2) by (auto simp: fits_def image_files_def root_entries_def numeral_2_eq_2)
  then show ?thesis using s1(1) by blast
qed

lemma mkfs_closes:
  assumes "freeinode s = 1" "fits files"
  shows "\<exists>s'. mkfs_main (Some True) files s = Inr (0, s') \<and> closed (sectors s') (image_files files)
    \<and> freeblock s' = of_nat (59 + used_blocks (image_files files))"
proof -
  obtain s1 s2 where s1: "format (s\<lparr>sectors := []\<rparr>) = Inr (1, s1)" and s2: "add_files 1 files s1 = Inr (True, s2)" "fs_rep s2 (image_files files)"
    using mkfs_fills [OF assms] by blast
  obtain s3 where "finish 1 s2 = Inr s3" "closed (sectors s3) (image_files files)" "freeblock s3 = of_nat (59 + used_blocks (image_files files))"
    using finish_closes [OF s2(2)] by (auto simp: image_files_def)
  then show ?thesis using s1 s2(1) by (simp add: mkfs_main_def)
qed

text \<open>What a reader of the finished image finds.\<close>

lemma closed_file: "closed img fl \<Longrightarrow> Suc i < length fl \<Longrightarrow> inode_holds img (59 + used_blocks fl) (i + 2) (fl ! Suc i)"
  by (auto simp: closed_def Let_def)

lemma closed_root:
  assumes "closed img fl" "length (snd (fl ! 0)) \<le> 71680"
  shows "\<exists>junk. file_bytes img 1 = snd (fl ! 0) @ junk"
proof -
  let ?bs = "snd (fl ! 0)" and ?d = "inode_of img 1"
  have h: "holds img (di_addrs ?d) ?bs" "unat (di_size ?d) = rounded (length ?bs)" using assms(1) by (simp_all add: closed_def Let_def file_rep_def)
  have "length ?bs = 512 * (length ?bs div 512) + length ?bs mod 512" "length ?bs mod 512 < 512" by simp_all
  then have "length ?bs \<le> rounded (length ?bs)" unfolding rounded_def distrib_right by linarith
  then have "take (length ?bs) (file_bytes img 1) = ?bs"
    using h by (auto simp: file_bytes_def Let_def holds_def intro!: nth_equalityI)
  then show ?thesis by (metis append_take_drop_id)
qed

lemma entries_at: "i < length fs \<Longrightarrow> \<exists>pre post. entries n fs = pre @ dirent_bytes (entry (n + i) (filename (fs ! i))) @ post \<and> length pre = 16 * i"
proof (induction fs arbitrary: n i)
  case (Cons f fs)
  show ?case
  proof (cases i)
    case 0
    then show ?thesis by (intro exI [of _ "[]"] exI [of _ "entries (Suc n) fs"]) simp
  next
    case (Suc j)
    then obtain pre post where "entries (Suc n) fs = pre @ dirent_bytes (entry (Suc n + j) (filename (fs ! j))) @ post" "length pre = 16 * j"
      using Cons.IH [of j "Suc n"] Cons.prems by auto
    then show ?thesis using Suc by (intro exI [of _ "dirent_bytes (entry n (filename f)) @ pre"] exI [of _ post]) simp
  qed
qed simp

lemma root_entry: "dirent_at (root_entries fs @ junk) 0 = entry 1 [0x2E]" "dirent_at (root_entries fs @ junk) 16 = entry 1 [0x2E, 0x2E]"
    "i < length fs \<Longrightarrow> dirent_at (root_entries fs @ junk) (16 * (i + 2)) = entry (i + 2) (filename (fs ! i))"
proof -
  show "dirent_at (root_entries fs @ junk) 0 = entry 1 [0x2E]"
    using dirent_roundtrip [of "entry 1 [0x2E]" "[]"] by (simp add: root_entries_def)
  show "dirent_at (root_entries fs @ junk) 16 = entry 1 [0x2E, 0x2E]"
    using dirent_roundtrip [of "entry 1 [0x2E, 0x2E]" "dirent_bytes (entry 1 [0x2E])"] by (simp add: root_entries_def)
  assume "i < length fs"
  then obtain pre post where e: "entries 2 fs = pre @ dirent_bytes (entry (2 + i) (filename (fs ! i))) @ post" "length pre = 16 * i"
    using entries_at [of i fs 2] by blast
  let ?pre = "dirent_bytes (entry 1 [0x2E]) @ dirent_bytes (entry 1 [0x2E, 0x2E]) @ pre"
  have "length ?pre = 16 * (i + 2)" using e(2) by simp
  then show "dirent_at (root_entries fs @ junk) (16 * (i + 2)) = entry (i + 2) (filename (fs ! i))"
    using dirent_roundtrip [of "entry (i + 2) (filename (fs ! i))" ?pre "post @ junk"] e(1) by (simp add: root_entries_def add.commute)
qed

lemma length_root [simp]: "length (root_entries fs) = 16 * (length fs + 2)"
  by (simp add: root_entries_def)

subsection \<open>Properties\<close>

text \<open>C11: mkfs stores the files it is given: when the names and sizes are admissible and the blocks suffice, the program
  ends with status 0 and an image whose superblock describes the layout, whose root directory has the entries for
  itself twice and then one for each file in the order of the arguments, its name cut to fourteen bytes and its
  inode number, and where the inode of each file leads, through its direct and indirect blocks, to exactly the
  bytes that were read.\<close>

theorem mkfs_stores_files:
  assumes "freeinode s = 1" "fits files"
  shows "\<exists>s'. mkfs_main (Some True) files s = Inr (0, s') \<and> superblock_at (sectors s' ! 1) = new_superblock
    \<and> di_type (inode_of (sectors s') 1) = T_DIR
    \<and> dirent_at (file_bytes (sectors s') 1) 0 = entry 1 [0x2E] \<and> dirent_at (file_bytes (sectors s') 1) 16 = entry 1 [0x2E, 0x2E]
    \<and> (\<forall>i < length files. dirent_at (file_bytes (sectors s') 1) (16 * (i + 2)) = entry (i + 2) (filename (files ! i))
        \<and> di_type (inode_of (sectors s') (i + 2)) = T_FILE \<and> file_bytes (sectors s') (i + 2) = content (files ! i))"
proof -
  obtain s' where s': "mkfs_main (Some True) files s = Inr (0, s')" "closed (sectors s') (image_files files)"
    using mkfs_closes [OF assms] by blast
  let ?img = "sectors s'"
  have "length (root_entries files) \<le> 71680" using assms(2) by (simp add: fits_def)
  then obtain junk where root: "file_bytes ?img 1 = root_entries files @ junk"
    using closed_root [OF s'(2)] by (auto simp: image_files_def)
  have held: "inode_holds ?img (59 + used_blocks (image_files files)) (i + 2) (T_FILE, content (files ! i))" if "i < length files" for i
    using closed_file [OF s'(2), of i] that by (simp add: image_files_def file_of_def)
  then have "di_type (inode_of ?img (i + 2)) = T_FILE \<and> file_bytes ?img (i + 2) = content (files ! i)" if "i < length files" for i
    using inode_file_bytes [OF held [OF that]] held [OF that] that by (simp add: inode_holds_def Let_def)
  moreover have "superblock_at (?img ! 1) = new_superblock" "di_type (inode_of ?img 1) = T_DIR"
    using s'(2) by (simp_all add: closed_def Let_def image_files_def)
  ultimately show ?thesis using s'(1) root_entry [where fs = files and junk = junk] unfolding root [symmetric] by blast
qed

definition example_files :: "host_file list" where
  "example_files = [\<lparr>filename = [0x69, 0x6E, 0x69, 0x74], reads = Some [[1, 2, 3], [4], []]\<rparr>, \<lparr>filename = [0x61], reads = Some []\<rparr>]"

definition example_mkfs :: mkfs where
  "example_mkfs = \<lparr>sectors = [], sb = superblock_at zeroes, freeinode = 1, freeblock = 0, indeterminate = 0xDEAD0000\<rparr>"

lemma example_fits: "fits example_files" "freeinode example_mkfs = 1"
  by (simp_all add: fits_def example_files_def example_mkfs_def storable_def content_def image_files_def file_of_def cost_def nblk_def used_blocks_def)

theorem mkfs_stores_files_witness:
  "\<exists>s'. mkfs_main (Some True) example_files example_mkfs = Inr (0, s') \<and> file_bytes (sectors s') 2 = [1, 2, 3, 4] \<and> file_bytes (sectors s') 3 = []
    \<and> de_name (dirent_at (file_bytes (sectors s') 1) 32) = [0x69, 0x6E, 0x69, 0x74] @ replicate 10 0"
proof -
  obtain s' where s': "mkfs_main (Some True) example_files example_mkfs = Inr (0, s')"
    "\<forall>i < length example_files. dirent_at (file_bytes (sectors s') 1) (16 * (i + 2)) = entry (i + 2) (filename (example_files ! i))
        \<and> di_type (inode_of (sectors s') (i + 2)) = T_FILE \<and> file_bytes (sectors s') (i + 2) = content (example_files ! i)"
    using mkfs_stores_files [OF example_fits(2,1)] by blast
  have l: "length example_files = 2" by (simp add: example_files_def)
  show ?thesis using s'(1) s'(2) [rule_format, of 0] s'(2) [rule_format, of 1]
    by (intro exI [of _ s']) (simp add: l example_files_def content_def entry_def entry_name_def fs_sizes numeral_2_eq_2 numeral_3_eq_3)
qed

text \<open>C17: mkfs gives every block to one file: the blocks of the files, their blocks of addresses included, lie above
  the metadata, no block belongs to two files or serves twice in one file, all of them together are as many as the
  contents need, and the bitmap marks exactly the blocks up to the last one given away.\<close>

theorem mkfs_allocates_blocks:
  assumes "freeinode s = 1" "fits files"
  shows "\<exists>s'. mkfs_main (Some True) files s = Inr (0, s') \<and> freeblock s' = of_nat (59 + used_blocks (image_files files))
    \<and> (\<forall>i \<le> length files. \<forall>b \<in> blocks_of (sectors s') (i + 1) (image_files files ! i). 59 \<le> b \<and> b < 59 + used_blocks (image_files files))
    \<and> (\<forall>i \<le> length files. card (blocks_of (sectors s') (i + 1) (image_files files ! i)) = cost (length (snd (image_files files ! i))))
    \<and> (\<forall>i \<le> length files. \<forall>j \<le> length files. i \<noteq> j \<longrightarrow>
        blocks_of (sectors s') (i + 1) (image_files files ! i) \<inter> blocks_of (sectors s') (j + 1) (image_files files ! j) = {})
    \<and> (\<forall>b < 4096. bit (sectors s' ! 58 ! (b div 8)) (b mod 8) \<longleftrightarrow> b < 59 + used_blocks (image_files files))"
proof -
  let ?fl = "image_files files" and ?fb = "59 + used_blocks (image_files files)"
  obtain s' where s': "mkfs_main (Some True) files s = Inr (0, s')" "closed (sectors s') ?fl" "freeblock s' = of_nat ?fb"
    using mkfs_closes [OF assms] by blast
  let ?img = "sectors s'"
  have l: "length ?fl = Suc (length files)" by (simp add: image_files_def)
  have rep: "file_rep ?img (di_addrs (inode_of ?img (i + 1))) (snd (?fl ! i)) ?fb" if "i \<le> length files" for i
    using s'(2) that l by (cases "i = 0") (auto simp: closed_def Let_def inode_holds_def)
  have "59 \<le> b \<and> b < ?fb" if "i \<le> length files" "b \<in> blocks_of ?img (i + 1) (?fl ! i)" for i b
    using file_blocks_range [OF rep [OF that(1)]] that(2) by (simp add: blocks_of_def)
  moreover have "card (blocks_of ?img (i + 1) (?fl ! i)) = cost (length (snd (?fl ! i)))" if "i \<le> length files" for i
    using file_rep_card [OF rep [OF that]] by (simp add: blocks_of_def)
  moreover have "used_blocks ?fl \<le> 941" using assms(2) by (simp add: fits_def)
  then have "bit (?img ! 58 ! (b div 8)) (b mod 8) \<longleftrightarrow> b < ?fb" if "b < 4096" for b
    using mark_used_bits [of ?fb] s'(2) that by (simp add: closed_def Let_def)
  ultimately show ?thesis using s' l by (auto simp: closed_def Let_def)
qed

theorem mkfs_allocates_blocks_witness:
  "\<exists>s'. mkfs_main (Some True) example_files example_mkfs = Inr (0, s') \<and> freeblock s' = 61
    \<and> blocks_of (sectors s') 1 (image_files example_files ! 0) \<inter> blocks_of (sectors s') 2 (image_files example_files ! 1) = {}
    \<and> bit (sectors s' ! 58 ! 7) 4 \<and> \<not> bit (sectors s' ! 58 ! 7) 5"
proof -
  have u: "used_blocks (image_files example_files) = 2" "length example_files = 2"
    by (simp_all add: example_files_def image_files_def file_of_def content_def cost_def nblk_def)
  obtain s' where s': "mkfs_main (Some True) example_files example_mkfs = Inr (0, s')" "freeblock s' = of_nat (59 + 2)"
    "\<forall>i \<le> 2. \<forall>j \<le> 2. i \<noteq> j \<longrightarrow>
        blocks_of (sectors s') (i + 1) (image_files example_files ! i) \<inter> blocks_of (sectors s') (j + 1) (image_files example_files ! j) = {}"
    "\<forall>b < 4096. bit (sectors s' ! 58 ! (b div 8)) (b mod 8) \<longleftrightarrow> b < 59 + 2"
    using mkfs_allocates_blocks [OF example_fits(2,1)] unfolding u by blast
  have "blocks_of (sectors s') 1 (image_files example_files ! 0) \<inter> blocks_of (sectors s') 2 (image_files example_files ! 1) = {}"
    using s'(3) [rule_format, of 0 1] by (simp add: numeral_2_eq_2)
  then show ?thesis using s'(1,2) s'(4) [rule_format, of 60] s'(4) [rule_format, of 61]
    by (intro exI [of _ s']) simp
qed



text \<open>C23: what stops mkfs: no name for the image or an image that does not open ends with status 1 and writes nothing; a name
  with a slash fails the assertion; a file that does not open ends the program with status 1 and
  leaves an image with the files before it but without bitmap.\<close>

theorem mkfs_rejects:
  assumes "freeinode s = 1" "fits files"
  shows "(img \<noteq> Some True \<longrightarrow> mkfs_main img fs s = Inr (1, s))
    \<and> (0x2F \<in> set (filename f) \<longrightarrow> mkfs_main (Some True) (files @ f # fs) s = panic ''assert'')
    \<and> (0x2F \<notin> set (filename f) \<and> reads f = None \<longrightarrow> (\<exists>s'. mkfs_main (Some True) (files @ f # fs) s = Inr (1, s')
          \<and> fs_rep s' (image_files files) \<and> sectors s' ! 58 = zeroes))"
proof -
  obtain s1 s2 where s1: "format (s\<lparr>sectors := []\<rparr>) = Inr (1, s1)" "add_files 1 files s1 = Inr (True, s2)" "fs_rep s2 (image_files files)"
    using mkfs_fills [OF assms] by blast
  then show ?thesis using fs_repD(11) [OF s1(3)] by (auto simp: mkfs_main_def add_files_append fs_assert_def)
qed

theorem mkfs_rejects_witness:
  "\<exists>s'. mkfs_main (Some True) (example_files @ [\<lparr>filename = [0x62], reads = None\<rparr>]) example_mkfs = Inr (1, s') \<and> sectors s' ! 58 = zeroes
    \<and> mkfs_main None example_files example_mkfs = Inr (1, example_mkfs)
    \<and> mkfs_main (Some True) (example_files @ [\<lparr>filename = [0x61, 0x2F], reads = None\<rparr>]) example_mkfs = panic ''assert''"
  using mkfs_rejects [OF example_fits(2,1), where img = None and fs = example_files and f = "\<lparr>filename = [0x62], reads = None\<rparr>"]
    mkfs_rejects [OF example_fits(2,1), where img = None and fs = "[]" and f = "\<lparr>filename = [0x62], reads = None\<rparr>"]
    mkfs_rejects [OF example_fits(2,1), where img = None and fs = "[]" and f = "\<lparr>filename = [0x61, 0x2F], reads = None\<rparr>"]
  by auto

text \<open>C40: the size of the root directory goes up by a whole block too many when its entries end with a block: with 32 entries, that
  is 30 files, and every 32 more, the last block the size covers was never allocated and its address is 0.\<close>

theorem root_size_overshoots:
  assumes "freeinode s = 1" "fits files"
  shows "\<exists>s' d. mkfs_main (Some True) files s = Inr (0, s') \<and> d = inode_of (sectors s') 1
    \<and> unat (di_size d) = (16 * (length files + 2) div 512 + 1) * 512 \<and> 16 * (length files + 2) < unat (di_size d)
    \<and> (ptr (sectors s') (di_addrs d) (unat (di_size d) div 512 - 1) = 0 \<longleftrightarrow> 32 dvd length files + 2)"
proof -
  let ?fl = "image_files files" and ?len = "16 * (length files + 2)"
  obtain s' where s': "mkfs_main (Some True) files s = Inr (0, s')" "closed (sectors s') ?fl"
    using mkfs_closes [OF assms] by blast
  let ?d = "inode_of (sectors s') 1"
  have sz: "unat (di_size ?d) = (?len div 512 + 1) * 512" and r: "file_rep (sectors s') (di_addrs ?d) (root_entries files) (59 + used_blocks ?fl)"
    using s'(2) by (simp_all add: closed_def Let_def image_files_def rounded_def)
  have "?len div 512 < 140" using assms(2) by (simp add: fits_def less_mult_imp_div_less)
  then have "ptr (sectors s') (di_addrs ?d) (?len div 512) = 0 \<longleftrightarrow> \<not> ?len div 512 < nblk ?len"
    using r by (auto simp: file_rep_def mapped_def)
  also have "\<dots> \<longleftrightarrow> ?len mod 512 = 0" using nblk_cases [of ?len] by (cases "?len mod 512 = 0") auto
  also have "\<dots> \<longleftrightarrow> 32 dvd length files + 2"
    using nat_mult_dvd_cancel1 [of 16 32 "length files + 2"] by (simp add: mod_eq_0_iff_dvd)
  finally have "ptr (sectors s') (di_addrs ?d) (?len div 512) = 0 \<longleftrightarrow> 32 dvd length files + 2" .
  moreover have "?len = 512 * (?len div 512) + ?len mod 512" "?len mod 512 < 512" by simp_all
  then have "?len < (?len div 512 + 1) * 512" unfolding distrib_right by linarith
  ultimately show ?thesis using s'(1) sz by (intro exI [of _ s'] exI [of _ ?d]) simp
qed

theorem root_size_overshoots_witness:
  "\<exists>s' d. mkfs_main (Some True) (replicate 30 \<lparr>filename = [0x61], reads = Some []\<rparr>) example_mkfs = Inr (0, s') \<and> d = inode_of (sectors s') 1
    \<and> unat (di_size d) = 1024 \<and> ptr (sectors s') (di_addrs d) 1 = 0"
proof -
  have "fits (replicate 30 \<lparr>filename = [0x61], reads = Some []\<rparr>)"
    by (simp add: fits_def storable_def content_def image_files_def file_of_def used_blocks_def cost_def nblk_def sum_list_replicate)
  from root_size_overshoots [OF example_fits(2) this] show ?thesis by auto
qed

end
