(* ===== verification/DriveImage.thy ===== *)
theory DriveImage
  imports Ide FileSystem
begin

section \<open>The image in the drive\<close>

text \<open>
  The disk image that \<^verbatim>\<open>tools/mkfs.c\<close> writes is what \<^verbatim>\<open>kernel/drivers/ide.c\<close> reads. The drive
  is not part of the program: \<open>drive_holds\<close> states what the driver relies on, that after a read command
  the words of the data port are, one after the other, those of the sector the address registers select. With it, a
  request for a block of a file, as the inode in the image gives it, brings the bytes of that file into memory.
\<close>

subsection \<open>The registers of the drive\<close>

text \<open>The byte last written to a port, and the words taken from the data port since the last command.\<close>

fun last_out :: "u16 \<Rightarrow> io_event list \<Rightarrow> u8" where
  "last_out p [] = 0"
| "last_out p (OutB q v # es) = (if q = p then v else last_out p es)"
| "last_out p (_ # es) = last_out p es"

fun words_read :: "io_event list \<Rightarrow> nat" where
  "words_read [] = 0"
| "words_read (OutB q v # es) = (if q = 0x1f7 then 0 else words_read es)"
| "words_read (InL q v # es) = (if q = 0x1f0 then Suc (words_read es) else words_read es)"
| "words_read (_ # es) = words_read es"

definition selected :: "io_event list \<Rightarrow> nat" where
  "selected h = unat (last_out 0x1f3 h) + 256 * unat (last_out 0x1f4 h) + 65536 * unat (last_out 0x1f5 h)
     + 16777216 * (unat (last_out 0x1f6 h) mod 16)"

definition unit_selected :: "io_event list \<Rightarrow> bool" where
  "unit_selected h = bit (last_out 0x1f6 h) 4"

definition drive_holds :: "bool \<Rightarrow> u8 list list \<Rightarrow> io \<Rightarrow> bool" where
  "drive_holds u img d \<longleftrightarrow> (\<forall>h. last_out 0x1f7 h = IDE_CMD_READ \<and> unit_selected h = u \<and> selected h < length img \<and> words_read h < 128 \<longrightarrow>
     dev d h 0x1f0 = word32_at (img ! selected h) (4 * words_read h))"

lemma drive_holds_cong: "dev d' = dev d \<Longrightarrow> drive_holds u img d' = drive_holds u img d"
  by (simp add: drive_holds_def)

lemma last_out_InL [simp]: "last_out p (map (InL q) vs @ h) = last_out p h"
  by (induction vs) simp_all

lemma words_read_InL [simp]: "words_read (map (InL 0x1f0) vs @ h) = length vs + words_read h"
  by (induction vs) simp_all

lemma selected_InL [simp]: "selected (map (InL q) vs @ h) = selected h" "unit_selected (map (InL q) vs @ h) = unit_selected h"
  by (simp_all add: selected_def unit_selected_def)

text \<open>The answers to the reads that follow a read command are the words of the sector.\<close>

lemma answers_sector:
  assumes "drive_holds u img d" "last_out 0x1f7 h = IDE_CMD_READ" "unit_selected h = u" "selected h < length img" "words_read h = 0"
    and "answers d 0x1f0 h ws" "length ws = 128" "i < 128"
  shows "ws ! i = word32_at (img ! selected h) (4 * i)"
proof -
  let ?h = "map (InL 0x1f0) (rev (take i ws)) @ h"
  have "ws ! i = dev d ?h 0x1f0" using assms(6-8) by (simp add: answers_def)
  moreover have "words_read ?h = i" using assms(5,7,8) by simp
  ultimately show ?thesis using assms(1-4,8) unfolding drive_holds_def by (simp add: spec [of _ ?h])
qed

subsection \<open>A read of a block\<close>

lemma unit_bit: "bit (ucast (0xe0 OR push_bit 4 (w AND 1) OR (0 AND 0x0f)) :: u8) 4 = bit (w :: u32) 0"
  by (simp add: bit_simps)

lemma unit_rest: "unat (ucast (0xe0 OR push_bit 4 ((w :: u32) AND 1) OR (0 AND 0x0f)) :: u8) mod 16 = 0"
proof -
  have "w AND 1 = 0 \<or> w AND 1 = 1" by (simp add: and_one_eq mod_2_eq_odd)
  then show ?thesis by (elim disjE ssubst) simp_all
qed

text \<open>The history after a read request selects the sector of the block.\<close>

lemma read_request:
  assumes "drive_ready (ports s)" "b \<noteq> 0" "load32 (ram s) (b + buf_blockno) < FS_SIZE" "load32 (ram s) (b + buf_flags) AND B_DIRTY = 0"
  shows "\<exists>d. ide_start b s = Inr (s\<lparr>ports := d\<rparr>) \<and> dev d = dev (ports s) \<and> last_out 0x1f7 (trace d) = IDE_CMD_READ
    \<and> unit_selected (trace d) = bit (load32 (ram s) (b + buf_dev)) 0 \<and> selected (trace d) = unat (load32 (ram s) (b + buf_blockno))
    \<and> words_read (trace d) = 0"
proof -
  let ?n = "load32 (ram s) (b + buf_blockno)"
  have sp: "sector_per_block = 1" by (simp add: sector_per_block_def B_SIZE_def SECTOR_SIZE_def)
  have n: "\<not> FS_SIZE \<le> ?n" "?n < 1000" using assms(3) by (simp_all add: FS_SIZE_def)
  note blk = request_block [OF n(2)]
  let ?d = "outb 0x1f7 0x20 (outb 0x1f6 (ucast (0xe0 OR push_bit 4 (load32 (ram s) (b + buf_dev) AND 1) OR (0 AND 0x0f)))
    (outb 0x1f5 0 (outb 0x1f4 (ucast (drop_bit 8 ?n AND 0xff)) (outb 0x1f3 (ucast (?n AND 0xff))
    (outb 0x1f2 1 (outb 0x3f6 0 (snd (inb 0x1f7 (ports s)))))))))"
  have "ide_start b s = Inr (s\<lparr>ports := ?d\<rparr>)"
    using assms(2,4) n(1) blk(2,3) by (simp add: ide_start_def ide_wait_ready [OF assms(1)] sp Let_def IDE_CMD_READ_def)
  moreover have "selected (trace ?d) = unat ?n" using blk(1) unit_rest by (simp add: selected_def)
  moreover have "unit_selected (trace ?d) = bit (load32 (ram s) (b + buf_dev)) 0"
    using unit_bit by (simp add: unit_selected_def)
  ultimately show ?thesis by (intro exI [of _ ?d]) (simp add: IDE_CMD_READ_def)
qed

text \<open>Word by word and byte by byte is the same.\<close>

lemma load32_byte: "i < 4 \<Longrightarrow> m (a + of_nat i) = ucast (drop_bit (8 * i) (load32 m a))"
proof (rule bit_word_eqI)
  fix n assume "i < 4" "n < LENGTH(8)"
  then have "i = 0 \<or> i = 1 \<or> i = 2 \<or> i = 3" "n < 8" by auto
  then show "bit (m (a + of_nat i)) n = bit (ucast (drop_bit (8 * i) (load32 m a)) :: u8) n"
    unfolding load32_def by (elim disjE) (auto simp: bit_simps dest: bit_imp_le_length)
qed

lemma word32_byte: "i < 4 \<Longrightarrow> bs ! (k + i) = ucast (drop_bit (8 * i) (word32_at bs k))"
proof (rule bit_word_eqI)
  fix n assume "i < 4" "n < LENGTH(8)"
  then have "i = 0 \<or> i = 1 \<or> i = 2 \<or> i = 3" "n < 8" by auto
  then show "bit (bs ! (k + i)) n = bit (ucast (drop_bit (8 * i) (word32_at bs k)) :: u8) n"
    unfolding word32_at_def by (elim disjE) (auto simp: bit_simps dest: bit_imp_le_length)
qed

lemma words_bytes:
  assumes "\<And>i. i < 128 \<Longrightarrow> load32 m (a + 4 * of_nat i) = word32_at bs (4 * i)" "k < 512"
  shows "m (a + of_nat k) = bs ! k"
proof -
  define i j where "i = k div 4" and "j = k mod 4"
  have k: "k = 4 * i + j" "j < 4" "i < 128" using assms(2) by (auto simp: i_def j_def)
  have "m (a + 4 * of_nat i + of_nat j) = bs ! (4 * i + j)"
    using load32_byte [OF k(2), of m "a + 4 * of_nat i"] word32_byte [OF k(2), of bs "4 * i"] assms(1) [OF k(3)] by simp
  then show ?thesis by (simp add: k(1) algebra_simps)
qed

text \<open>A drive without errors, and a buffer that waits alone for a read.\<close>

definition drive_fine :: "io \<Rightarrow> bool" where
  "drive_fine d \<longleftrightarrow> drive_ready d \<and> (\<forall>h. (ucast (dev d h 0x1f7) :: u8) AND 0x21 = 0)"

definition waits_alone :: "u32 \<Rightarrow> 'a disk_scheme \<Rightarrow> bool" where
  "waits_alone b s \<longleftrightarrow> ide_queue s = b \<and> b \<noteq> 0 \<and> aligned 2 b \<and> load32 (ram s) (b + buf_qnext) = 0
     \<and> load32 (ram s) (b + buf_flags) AND B_DIRTY = 0"

lemma disk_reads_sector:
  assumes "lock_state s hs c" "Ide_lock \<notin> set hs" "Ptable_lock \<notin> set hs" "length hs < 1000" "drive_fine (ports s)" "waits_alone b s"
    and "drive_holds (bit (load32 (ram s) (b + buf_dev)) 0) img (ports s)" "length img = 1000"
    and n: "n = unat (load32 (ram s) (b + buf_blockno))" "n < 1000"
  shows "\<exists>s1 s2. ide_start b s = Inr s1 \<and> ide_handler s1 = Inr s2 \<and> lock_state s2 hs c
    \<and> load32 (ram s2) (b + buf_flags) = (load32 (ram s) (b + buf_flags) OR B_VALID) AND NOT B_DIRTY
    \<and> (\<forall>k < 512. ram s2 (b + buf_data + of_nat k) = img ! n ! k)"
proof -
  have f: "drive_ready (ports s)" "\<forall>h. (ucast (dev (ports s) h 0x1f7) :: u8) AND 0x21 = 0" using assms(5) by (simp_all add: drive_fine_def)
  have w: "ide_queue s = b" "b \<noteq> 0" "aligned 2 b" "load32 (ram s) (b + buf_qnext) = 0" "load32 (ram s) (b + buf_flags) AND B_DIRTY = 0"
    using assms(6) by (simp_all add: waits_alone_def)
  have blk: "load32 (ram s) (b + buf_blockno) < FS_SIZE" using n by (simp add: FS_SIZE_def word_less_nat_alt)
  obtain d where d: "ide_start b s = Inr (s\<lparr>ports := d\<rparr>)" "dev d = dev (ports s)" "last_out 0x1f7 (trace d) = IDE_CMD_READ"
    "unit_selected (trace d) = bit (load32 (ram s) (b + buf_dev)) 0" "selected (trace d) = n" "words_read (trace d) = 0"
    using read_request [OF f(1) w(2) blk w(5)] n(1) by blast
  let ?s1 = "s\<lparr>ports := d\<rparr>"
  have l: "lock_state ?s1 hs c" using assms(1) by simp
  have r: "drive_ready (ports ?s1)" using f(1) d(2) by (simp add: drive_ready_def)
  have q: "(0 :: u32) \<noteq> 0 \<longrightarrow> buffers_apart b 0 \<and> load32 (ram ?s1) (0 + buf_blockno) < FS_SIZE" by simp
  have bq: "b = ide_queue ?s1" "0 = load32 (ram ?s1) (b + buf_qnext)" using w(1,4) by simp_all
  obtain s2 where s2: "ide_handler ?s1 = Inr s2" "lock_state s2 hs c" "completed b ?s1 s2"
    using handler_completes [OF l assms(2-4) r bq(1) w(2,3) bq(2) q] by blast
  have st: "drive_status d AND 0x21 = 0" using f(2) d(2) by (simp add: drive_status_def inb_def Let_def)
  obtain ws where ws: "length ws = 128" "answers d 0x1f0 (status_read d) ws" "\<forall>i < 128. load32 (ram s2) (b + buf_data + 4 * of_nat i) = ws ! i"
    using s2(3) st w(5) by (auto simp: completed_def)
  have h: "last_out p (status_read d) = last_out p (trace d)" "words_read (status_read d) = words_read (trace d)" for p
    by (simp_all add: status_read_def)
  have sel: "selected (status_read d) = n" "unit_selected (status_read d) = bit (load32 (ram s) (b + buf_dev)) 0"
    using d(4,5) h by (simp_all add: selected_def unit_selected_def)
  have "drive_holds (bit (load32 (ram s) (b + buf_dev)) 0) img d" using assms(7) drive_holds_cong [OF d(2)] by simp
  then have v: "ws ! i = word32_at (img ! n) (4 * i)" if "i < 128" for i
    using answers_sector [of _ img d "status_read d" ws i] sel h d(3,6) ws(1,2) that assms(8) n(2) by simp
  have "ram s2 (b + buf_data + of_nat k) = img ! n ! k" if "k < 512" for k
    by (rule words_bytes [OF _ that]) (use ws(3) v in simp)
  then show ?thesis using d(1) s2 by (auto simp: completed_def)
qed

subsection \<open>Property\<close>

text \<open>C15: what mkfs wrote is what the kernel reads: with the image of a successful run of mkfs in the drive, a read
  request for block \<open>j\<close> of a file, with the block number that the inode of the file gives, and the interrupt
  that follows bring exactly the bytes of that part of the file into the buffer and mark it valid; the block
  number is one the driver accepts.\<close>

theorem disk_reads_what_mkfs_wrote:
  assumes "freeinode m = 1" "fits files" "mkfs_main (Some True) files m = Inr (0, m')" "i < length files" "512 * j < length (content (files ! i))"
    and "lock_state s [] c" "drive_fine (ports s)" "waits_alone b s" "drive_holds (bit (load32 (ram s) (b + buf_dev)) 0) (sectors m') (ports s)"
    and "load32 (ram s) (b + buf_blockno) = of_nat (ptr (sectors m') (di_addrs (inode_of (sectors m') (i + 2))) j)"
  shows "\<exists>s1 s2. ide_start b s = Inr s1 \<and> ide_handler s1 = Inr s2 \<and> lock_state s2 [] c
    \<and> load32 (ram s2) (b + buf_flags) = (load32 (ram s) (b + buf_flags) OR B_VALID) AND NOT B_DIRTY
    \<and> (\<forall>k < 512. 512 * j + k < length (content (files ! i)) \<longrightarrow> ram s2 (b + buf_data + of_nat k) = content (files ! i) ! (512 * j + k))"
proof -
  let ?img = "sectors m'" and ?bs = "content (files ! i)"
  let ?n = "ptr ?img (di_addrs (inode_of ?img (i + 2))) j"
  have cl: "closed ?img (image_files files)" using mkfs_closes [OF assms(1,2)] assms(3) by simp
  then have len: "length ?img = 1000" by (simp add: closed_def Let_def)
  have h: "file_rep ?img (di_addrs (inode_of ?img (i + 2))) ?bs (59 + used_blocks (image_files files))"
    using closed_file [OF cl, of i] assms(4) by (simp add: image_files_def file_of_def inode_holds_def Let_def)
  have "j < nblk (length ?bs)" using assms(5) by (simp add: nblk_def less_eq_div_iff_mult_less_eq flip: Suc_le_eq)
  then have n: "?n < 1000" using h mappedD(2) [of ?img _ "nblk (length ?bs)" _ "59 + used_blocks (image_files files)" j] assms(2)
    by (fastforce simp: file_rep_def fits_def)
  then have u: "?n = unat (load32 (ram s) (b + buf_blockno))" by (simp add: assms(10) unat_of_nat_u32)
  obtain s1 s2 where s2: "ide_start b s = Inr s1" "ide_handler s1 = Inr s2" "lock_state s2 [] c"
    "load32 (ram s2) (b + buf_flags) = (load32 (ram s) (b + buf_flags) OR B_VALID) AND NOT B_DIRTY"
    "\<forall>k < 512. ram s2 (b + buf_data + of_nat k) = ?img ! ?n ! k"
    using disk_reads_sector [OF assms(6) _ _ _ assms(7-9) len u n] by auto
  have "?img ! ?n ! k = ?bs ! (512 * j + k)" if "k < 512" "512 * j + k < length ?bs" for k
    using h that by (auto simp: file_rep_def holds_def dest!: spec [of _ "512 * j + k"])
  then show ?thesis using s2 by simp
qed

definition drive_of :: "u8 list list \<Rightarrow> io" where
  "drive_of img = \<lparr>dev = \<lambda>h p. if p = 0x1f0 then word32_at (img ! selected h) (4 * words_read h) else 0x40, trace = []\<rparr>"

lemma drive_of_fine: "drive_fine (drive_of img)" "drive_holds u img (drive_of img)"
  by (simp_all add: drive_fine_def drive_ready_def drive_holds_def drive_of_def)

theorem disk_reads_what_mkfs_wrote_witness:
  "\<exists>m' (s :: disk) s1 s2. mkfs_main (Some True) example_files example_mkfs = Inr (0, m') \<and> ports s = drive_of (sectors m') \<and> ide_start 0x9000 s = Inr s1
    \<and> ide_handler s1 = Inr s2 \<and> load32 (ram s2) 0x9000 = 2 \<and> ram s2 0x905C = 1 \<and> ram s2 0x905F = 4"
proof -
  obtain m' where m': "mkfs_main (Some True) example_files example_mkfs = Inr (0, m')"
    using mkfs_closes [OF example_fits(2,1)] by blast
  let ?n = "of_nat (ptr (sectors m') (di_addrs (inode_of (sectors m') 2)) 0) :: u32"
  define s where "s = (with_disk 0x9000 (store32 (\<lambda>_. 0) 0x9008 ?n))\<lparr>ports := drive_of (sectors m')\<rparr>"
  have z: "load32 (\<lambda>_. 0) a = 0" for a by (simp add: load32_def)
  have r: "load32 (ram s) 0x9000 = 0" "load32 (ram s) 0x9058 = 0" "load32 (ram s) 0x9008 = ?n" "ports s = drive_of (sectors m')" "ide_queue s = 0x9000"
    by (simp_all add: s_def z aligned_def)
  have l: "lock_state s [] True" using with_disk_locks by (simp add: s_def)
  have c: "content (example_files ! 0) = [1, 2, 3, 4]" "0 < length example_files" by (simp_all add: example_files_def content_def)
  have w: "waits_alone 0x9000 s" using r by (simp add: waits_alone_def buf_fields aligned_def)
  have n: "load32 (ram s) (0x9000 + buf_blockno) = of_nat (ptr (sectors m') (di_addrs (inode_of (sectors m') (0 + 2))) 0)"
    unfolding add_0 using r(3) by (simp add: buf_fields)
  obtain s1 s2 where "ide_start 0x9000 s = Inr s1" "ide_handler s1 = Inr s2"
    "load32 (ram s2) (0x9000 + buf_flags) = (load32 (ram s) (0x9000 + buf_flags) OR B_VALID) AND NOT B_DIRTY"
    and d: "\<forall>k < 512. 512 * 0 + k < length (content (example_files ! 0)) \<longrightarrow> ram s2 (0x9000 + buf_data + of_nat k) = content (example_files ! 0) ! (512 * 0 + k)"
    using disk_reads_what_mkfs_wrote [OF example_fits(2,1) m' c(2) _ l _ w _ n] r(4) c(1) drive_of_fine by auto
  moreover have "ram s2 0x905C = 1" "ram s2 0x905F = 4"
    using spec [OF d, of 0] spec [OF d, of 3] c(1) by (simp_all add: buf_fields)
  ultimately show ?thesis using m' r(1,4)
    by (intro exI [of _ m'] exI [of _ s] exI [of _ s1] exI [of _ s2] conjI) (simp_all add: buf_fields B_VALID_def B_DIRTY_def)
qed

end
