(* ===== verification/Spec2Isabelle.thy ===== *)
theory Spec2Isabelle
  imports Queue StringLib Start Typing Program DriveImage
begin

section \<open>TuixOS\<close>

text \<open>
  TuixOS is a small kernel for 32-bit x86 in C, with a program, \<^verbatim>\<open>tools/mkfs.c\<close>, that builds its disk image on the host. This
  development models the C code of both, operation by operation, and the assembly the C code is entered and left by, and proves what
  each part promises to the others.

  \<^bold>\<open>How the parts work together.\<close> The boot loader enters \<^verbatim>\<open>_start\<close>, which enters \<^verbatim>\<open>kernel_main\<close> (Start, Boot), which reads the loader's tags (Multiboot), starts the
  serial line and the screen, gives the pages of memory to the allocator (Kalloc), builds the kernel's page tables from them (Vm), fills
  the gates and the handler table (Idt), programs the controllers (Pic, Timer), finds the disk (Ide), makes the first process
  (Process) and enters the scheduler (Sched), which runs processes for ever. Interrupts and system calls come back through the stubs
  (Entry) and the dispatcher (Idt) to the handlers (Interrupts, Syscall). All of them share spin locks (Spinlock).

  \<^bold>\<open>Theories and sources.\<close>
  \<^item> Prelude: the C integer types of \<^verbatim>\<open>include/stddef.h\<close> as words; the result type \<open>res\<close>, where a panic, an endless loop and undefined
    behaviour of C are values; blocks of addresses with wrap-around. Memory: byte memory with little-endian 32-bit access.
    Decimal: decimal numerals, shared by the printers.
  \<^item> StringLib: \<^verbatim>\<open>lib/string.c\<close>, \<^verbatim>\<open>include/string.h\<close>. Queue: \<^verbatim>\<open>kernel/sys/queue.c\<close>.
  \<^item> Mmu, Kalloc, Vm: \<^verbatim>\<open>include/Tuix/mmu.h\<close>, \<^verbatim>\<open>kernel/mm/kalloc.c\<close>, \<^verbatim>\<open>kernel/mm/vm.c\<close>.
  \<^item> Ports: \<^verbatim>\<open>include/arch/x86.h\<close>; devices are an arbitrary function of the history of port operations. Serial, Screen, Keyboard, Timer,
    Pic, Ide: \<^verbatim>\<open>kernel/drivers\<close>.
  \<^item> Gdt, Entry, Interrupts, Idt: \<^verbatim>\<open>kernel/sys/gdt.c\<close>, \<^verbatim>\<open>kernel/asm/switch.asm\<close>, \<^verbatim>\<open>kernel/asm/trap.asm\<close>, \<^verbatim>\<open>kernel/trap\<close>.
  \<^item> Spinlock, Process, Sched: \<^verbatim>\<open>kernel/sys/spinlock.c\<close>, \<^verbatim>\<open>kernel/sys/process.c\<close>, \<^verbatim>\<open>kernel/sys/sleeplock.c\<close>. The machine state grows by record extension:
    memory with the pool (Kalloc), processors and locks (Spinlock), processes (Process, Sched), handlers (Idt), disk queue (Ide).
  \<^item> Syscall: \<^verbatim>\<open>kernel/sys/syscall.c\<close>, \<^verbatim>\<open>kernel/sys/sysfile.c\<close>. Multiboot: \<^verbatim>\<open>kernel/sys/mulitiboot2.c\<close>. Boot: \<^verbatim>\<open>init/main.c\<close>.
  \<^item> Start: \<^verbatim>\<open>boot/kernel_entry.asm\<close>. Machine: the running kernel, a step relation over the threads, user code, interrupts, exceptions
    and system calls. User code stores only where the loaded page tables let it; the code of the kernel may store anything on the stack
    of its thread. Frame, Isolation, Typing: what every step of it leaves alone. Program: \<^verbatim>\<open>user/initcode.asm\<close>, the first program.
  \<^item> DiskFormat: \<^verbatim>\<open>include/Tuix/fs.h\<close>, \<^verbatim>\<open>tools/stat.h\<close>. Mkfs: \<^verbatim>\<open>tools/mkfs.c\<close>. Image and FileSystem hold no code of their own: what a reader
    finds in the image, and that mkfs implements a list of files. DriveImage joins the two programs: the image in the drive.

  \<^bold>\<open>Names.\<close> A function or type keeps its name in the source; a loop of a function \<open>f\<close> is a definition of its own named after what it
  does; fields of structures kept in memory are offsets (\<open>buf_flags\<close>, \<open>tf_eax\<close>), structures the kernel only keeps are records.

  \<^bold>\<open>Interfaces.\<close> The locales \<open>word_store\<close>, \<open>frame_pool\<close>, \<open>fifo\<close>, \<open>lock_manager\<close> and \<open>char_device\<close> state what the clients of memory,
  allocator, queue, locks and serial line rely on; each is interpreted on the model of the code, in the theory of the provider.

  \<^bold>\<open>What the lemmas show.\<close> For each part: every operation on every branch, errors included; the invariant of its state (the pool of
  pages, the mapping of an address space, the discipline of the locks, the scheduler's invariant, the blocks of the image) and that every operation
  keeps it; for drivers, exactly the bytes that reach the device. On top: the kernel boots into the scheduler and no device interrupt and no step of
  its threads stops it, only the listed exceptions and calls do; user code stays inside its one page, and only it and the stacks ever change;
  the first program gets to its second system call, which is undefined; the scheduler
  offers every runnable process the processor; traps and system calls give the interrupted program its registers back; the allocator
  never hands a page out twice; mkfs stores the files it is given and the kernel's driver reads them back.
\<close>

text \<open>
  \<^bold>\<open>Loops.\<close> A loop bounded by the data or by a counter is a recursive function with its termination proof. A loop that may run for ever is a
  partial function with value \<open>None\<close>, which its caller turns into \<open>Hang\<close>: waiting for the transmitter, for the drive and for a spin lock, walking the
  free list, the tags and strings. That they return is proved: for a device that is ready, for a lock that is free, for a list that ends; for the tags,
  exactly when they do. The only numbers chosen are those of the source: 500000 rounds of the logo, 1000 probes of the drive, 64 processes, 140
  blocks in a file, 1000 blocks on the disk; a runnable process waits for at most 388 changes of thread, six for each entry of
  the table and four more.

  \<^bold>\<open>Not modelled.\<close>
  \<^item> \<^verbatim>\<open>kernel/fs/file.c\<close> has no code; \<^verbatim>\<open>struct file\<close> and \<^verbatim>\<open>struct inode\<close> are declared and never filled in, and nothing in the
    repository reads the file system. No function of the source puts a buffer into the queue of the disk driver.
  \<^item> The linker script and the multiboot header: the addresses they lead to are arguments (\<open>sections\<close>, \<open>image\<close>, \<open>layout\<close>). \<^verbatim>\<open>user/init.asm\<close> is
    started by nothing. That the C code stays within its stack, and the accessed and dirty bits the processor sets in page tables.
  \<^item> The instructions that load a descriptor table, halt and invalidate (\<^verbatim>\<open>lgdt\<close>, \<^verbatim>\<open>lidt\<close>, \<^verbatim>\<open>ltr\<close>, \<^verbatim>\<open>hlt\<close>) are their effect on the state, or left out
    where the state has no part of it. The stubs of \<^verbatim>\<open>kernel/trap/isr.c\<close> are C functions with an assembly body: that the compiler
    puts nothing before it is taken for granted.
  \<^item> Where the C variables lie: \<^verbatim>\<open>ptable\<close>, \<^verbatim>\<open>cpus\<close> and the like are fields of the state, so a theorem about memory is about the bytes
    the code reaches through pointers: page tables, frames, stacks, the screen, buffers and the tags.
  \<^item> Several processors at once: the kernel starts one. Interrupts come between two steps of theory Machine: the code of a
    critical section runs with interrupts off, and a handler outside of one is a step of its own.
  \<^item> The pointer arithmetic of \<^verbatim>\<open>va_arg\<close> (arguments are a list of words and strings), the text a panic prints, the messages of mkfs to
    the user and failing writes on the host.

  \<^bold>\<open>Plan.\<close> The file layer and the buffer cache, when they get code: the contract they need from driver and image is the theorem of
  DriveImage.
\<close>

section \<open>Across the kernel\<close>


end
